(* ===== verification/Prelude.thy ===== *)
theory Prelude
  imports Main "HOL-Library.Word" "HOL-Library.AList"
begin

section \<open>Prelude: hints, generic lemmas and the invariant interface\<close>

text \<open>
  What the component theories share: the collections of hints (\<open>go_defs\<close> for the
  definitions a proof unfolds, \<open>step_inv\<close> for the preservation lemmas), the names of
  the machine types, generic facts on lists and association lists, and the interface
  \<open>inv_steps\<close> through which every component lifts a one-step invariant to a run.
\<close>

named_theorems go_defs "definitions unfolded in component proofs"
named_theorems step_inv "one-step preservation lemmas"

type_synonym u64 = "64 word"
type_synonym i64 = "64 word"

subsection \<open>Runs of a step function\<close>

fun run_steps :: "('s \<Rightarrow> 'e \<Rightarrow> 's) \<Rightarrow> 's \<Rightarrow> 'e list \<Rightarrow> 's" where
  "run_steps f s [] = s"
| "run_steps f s (e # es) = run_steps f (f s e) es"

lemma run_steps_append [simp]: "run_steps f s (xs @ ys) = run_steps f (run_steps f s xs) ys"
  by (induction xs arbitrary: s) auto

text \<open>
  A component that changes its state step by step and promises an invariant, on the inputs
  that satisfy \<open>ok\<close>: one step keeps it. The client of the contract gets that every run keeps it.
\<close>

locale inv_steps =
  fixes step :: "'s \<Rightarrow> 'e \<Rightarrow> 's"
    and inv :: "'s \<Rightarrow> bool"
    and ok :: "'e \<Rightarrow> bool"
  assumes step_keeps: "inv s \<Longrightarrow> ok e \<Longrightarrow> inv (step s e)"
begin

lemma run_keeps: "inv s \<Longrightarrow> \<forall>e \<in> set es. ok e \<Longrightarrow> inv (run_steps step s es)"
  by (induction es arbitrary: s) (auto intro: step_keeps)

end

subsection \<open>Association lists as Go maps\<close>

text \<open>
  A Go map whose length the code reads is an association list with distinct keys:
  \<open>map_of\<close> is the lookup, \<open>AList.update\<close> the assignment, \<open>length\<close> the builtin \<open>len\<close>.
\<close>

lemma length_update_mem [simp]:
  "k \<in> fst ` set al \<Longrightarrow> length (AList.update k v al) = length al"
  by (induction al) auto

lemma length_update_fresh [simp]:
  "k \<notin> fst ` set al \<Longrightarrow> length (AList.update k v al) = Suc (length al)"
  by (induction al) auto

lemma length_update_le: "length (AList.update k v al) \<le> Suc (length al)"
  by (induction al) auto

lemma map_of_update_other [simp]: "k \<noteq> k' \<Longrightarrow> map_of (AList.update k v al) k' = map_of al k'"
  by (simp add: update_conv)

lemma map_of_update_same [simp]: "map_of (AList.update k v al) k = Some v"
  by (simp add: update_conv)

lemma map_of_Some_fst: "map_of al k = Some v \<Longrightarrow> k \<in> fst ` set al"
  by (force dest: map_of_SomeD)

lemma map_of_None_fst: "map_of al k = None \<longleftrightarrow> k \<notin> fst ` set al"
  by (simp add: map_of_eq_None_iff)

end
