(* ===== verification/GoStrings.thy ===== *)
theory GoStrings
  imports Prelude "HOL-Library.Sublist" "HOL-Library.Char_ord"
begin

section \<open>Go strings as byte strings, and the parts of strings/strconv the code calls\<close>

text \<open>
  A Go string is a sequence of bytes, here a \<open>string\<close> (a \<open>char\<close> has 256 values). The
  functions below are \<open>strings.TrimSpace\<close>, \<open>Fields\<close>, \<open>Split\<close>, \<open>Join\<close>, \<open>IndexByte\<close>,
  \<open>TrimPrefix\<close>, \<open>ToLower\<close> (ASCII letters) and \<open>strconv.FormatUint\<close>, \<open>FormatInt\<close>,
  \<open>ParseUint\<close>, \<open>ParseInt\<close> in base 10 or up to 36. White space is Unicode white space in its
  UTF-8 encoding, as \<open>unicode.IsSpace\<close> has it.
\<close>

subsection \<open>White space\<close>

definition ws_seqs :: "string list" where
  "ws_seqs =
    [[CHR 0x09], [CHR 0x0A], [CHR 0x0B], [CHR 0x0C], [CHR 0x0D], [CHR 0x20],
     [CHR 0xC2, CHR 0x85], [CHR 0xC2, CHR 0xA0], [CHR 0xE1, CHR 0x9A, CHR 0x80],
     [CHR 0xE2, CHR 0x80, CHR 0x80], [CHR 0xE2, CHR 0x80, CHR 0x81],
     [CHR 0xE2, CHR 0x80, CHR 0x82], [CHR 0xE2, CHR 0x80, CHR 0x83],
     [CHR 0xE2, CHR 0x80, CHR 0x84], [CHR 0xE2, CHR 0x80, CHR 0x85],
     [CHR 0xE2, CHR 0x80, CHR 0x86], [CHR 0xE2, CHR 0x80, CHR 0x87],
     [CHR 0xE2, CHR 0x80, CHR 0x88], [CHR 0xE2, CHR 0x80, CHR 0x89],
     [CHR 0xE2, CHR 0x80, CHR 0x8A], [CHR 0xE2, CHR 0x80, CHR 0xA8],
     [CHR 0xE2, CHR 0x80, CHR 0xA9], [CHR 0xE2, CHR 0x80, CHR 0xAF],
     [CHR 0xE2, CHR 0x81, CHR 0x9F], [CHR 0xE3, CHR 0x80, CHR 0x80]]"

text \<open>The length of the white-space sequence at the front of a string, 0 if there is none.\<close>

definition lead_len :: "string list \<Rightarrow> string \<Rightarrow> nat" where
  "lead_len seqs s = (case find (\<lambda>w. prefix w s) seqs of None \<Rightarrow> 0 | Some w \<Rightarrow> length w)"

definition ws_len :: "string \<Rightarrow> nat" where
  "ws_len s = lead_len ws_seqs s"

function trim_by :: "string list \<Rightarrow> string \<Rightarrow> string" where
  "trim_by seqs s =
     (if s = [] \<or> lead_len seqs s = 0 then s else trim_by seqs (drop (lead_len seqs s) s))"
  by pat_completeness auto
termination
  by (relation "measure (\<lambda>(seqs, s). length s)") auto

declare trim_by.simps [simp del]

definition trim_left :: "string \<Rightarrow> string" where
  "trim_left s = trim_by ws_seqs s"

definition trim_right :: "string \<Rightarrow> string" where
  "trim_right s = rev (trim_by (map rev ws_seqs) (rev s))"

definition trim_space :: "string \<Rightarrow> string" where
  "trim_space s = trim_right (trim_left s)"

text \<open>Printable ASCII: neither the first nor the last byte of any white-space sequence.\<close>

definition plain_char :: "char \<Rightarrow> bool" where
  "plain_char c \<longleftrightarrow> 32 < (of_char c :: nat) \<and> (of_char c :: nat) < 127"

lemma lead_len_plain:
  assumes "plain_char c"
  shows "lead_len ws_seqs (c # s) = 0" and "lead_len (map rev ws_seqs) (c # s) = 0"
proof -
  have "\<forall>w \<in> set ws_seqs. \<not> prefix w (c # s) \<and> \<not> prefix (rev w) (c # s)"
    using assms by (auto simp: ws_seqs_def plain_char_def)
  then have "find (\<lambda>w. prefix w (c # s)) ws_seqs = None"
    and "find (\<lambda>w. prefix w (c # s)) (map rev ws_seqs) = None"
    by (auto simp: find_None_iff)
  then show "lead_len ws_seqs (c # s) = 0" "lead_len (map rev ws_seqs) (c # s) = 0"
    by (simp_all add: lead_len_def)
qed

lemma trim_by_Nil [simp]: "trim_by seqs [] = []"
  by (subst trim_by.simps) simp

lemma trim_by_stop: "lead_len seqs s = 0 \<Longrightarrow> trim_by seqs s = s"
  by (subst trim_by.simps) simp

lemma trim_by_plain:
  assumes "plain_char (hd s)"
  shows "trim_by ws_seqs s = s" and "trim_by (map rev ws_seqs) s = s"
  using assms lead_len_plain [of "hd s" "tl s"] by (cases s; simp add: trim_by_stop)+

lemma trim_space_plain:
  assumes "plain_char (hd s)" and "plain_char (last s)"
  shows "trim_space s = s"
  using assms trim_by_plain(2) [of "rev s"]
  by (cases "s = []")
    (simp_all add: trim_space_def trim_left_def trim_right_def trim_by_plain(1) hd_rev)

lemma trim_space_Nil [simp]: "trim_space [] = []"
  by (simp add: trim_space_def trim_left_def trim_right_def)

lemma trim_by_suffix: "suffix (trim_by seqs s) s"
proof (induction seqs s rule: trim_by.induct)
  case (1 seqs s)
  then show ?case
    by (subst trim_by.simps) (auto intro: suffix_order.trans suffix_drop)
qed

lemma set_trim_space: "set (trim_space s) \<subseteq> set s"
proof -
  have "set (trim_right t) \<subseteq> set t" for t
    using set_mono_suffix [OF trim_by_suffix [of "map rev ws_seqs" "rev t"]]
    by (simp add: trim_right_def)
  moreover have "set (trim_left s) \<subseteq> set s"
    using set_mono_suffix [OF trim_by_suffix] by (simp add: trim_left_def)
  ultimately show ?thesis by (auto simp: trim_space_def)
qed

subsection \<open>Splitting and joining\<close>

fun split_on :: "char \<Rightarrow> string \<Rightarrow> string list" where
  "split_on c [] = [[]]"
| "split_on c (x # xs) =
     (if x = c then [] # split_on c xs
      else (case split_on c xs of [] \<Rightarrow> [[x]] | y # ys \<Rightarrow> (x # y) # ys))"

text \<open>\<open>strings.SplitN\<close>: at most \<open>n\<close> parts, the last one unsplit.\<close>

fun split_n :: "nat \<Rightarrow> char \<Rightarrow> string \<Rightarrow> string list" where
  "split_n 0 c s = []"
| "split_n (Suc 0) c s = [s]"
| "split_n (Suc (Suc n)) c s =
     (if c \<in> set s
      then takeWhile (\<lambda>x. x \<noteq> c) s # split_n (Suc n) c (tl (dropWhile (\<lambda>x. x \<noteq> c) s))
      else [s])"

fun join_with :: "string \<Rightarrow> string list \<Rightarrow> string" where
  "join_with sep [] = []"
| "join_with sep [x] = x"
| "join_with sep (x # y # xs) = x @ sep @ join_with sep (y # xs)"

function fields_from :: "string \<Rightarrow> string \<Rightarrow> string list" where
  "fields_from cur s =
     (case s of
        [] \<Rightarrow> (if cur = [] then [] else [cur])
      | c # cs \<Rightarrow>
          (if ws_len s = 0 then fields_from (cur @ [c]) cs
           else (if cur = [] then [] else [cur]) @ fields_from [] (drop (ws_len s) s)))"
  by pat_completeness auto
termination
  by (relation "measure (\<lambda>(cur, s). length s)") auto

declare fields_from.simps [simp del]

definition fields :: "string \<Rightarrow> string list" where
  "fields s = fields_from [] s"

definition has_prefix :: "string \<Rightarrow> string \<Rightarrow> bool" where
  "has_prefix s p = prefix p s"

definition trim_prefix :: "string \<Rightarrow> string \<Rightarrow> string" where
  "trim_prefix s p = (if prefix p s then drop (length p) s else s)"

definition trim_suffix :: "string \<Rightarrow> string \<Rightarrow> string" where
  "trim_suffix s p = (if suffix p s then take (length s - length p) s else s)"

definition index_byte :: "string \<Rightarrow> char \<Rightarrow> nat option" where
  "index_byte s c =
     (if c \<in> set s then Some (length (takeWhile (\<lambda>x. x \<noteq> c) s)) else None)"

definition lower_char :: "char \<Rightarrow> char" where
  "lower_char c = (if 65 \<le> (of_char c :: nat) \<and> (of_char c :: nat) \<le> 90
     then char_of (of_char c + 32 :: nat) else c)"

definition to_lower :: "string \<Rightarrow> string" where
  "to_lower s = map lower_char s"

definition equal_fold :: "string \<Rightarrow> string \<Rightarrow> bool" where
  "equal_fold s t \<longleftrightarrow> to_lower s = to_lower t"

lemma split_on_not_Nil [simp]: "split_on c s \<noteq> []"
  by (induction s) (auto split: list.splits)

lemma split_on_absent: "c \<notin> set s \<Longrightarrow> split_on c s = [s]"
  by (induction s) auto

lemma split_on_append: "c \<notin> set a \<Longrightarrow> split_on c (a @ c # s) = a # split_on c s"
  by (induction a) auto

lemma split_on_absent_app:
  "c \<notin> set a \<Longrightarrow> split_on c (a @ s) = (a @ hd (split_on c s)) # tl (split_on c s)"
proof (induction a)
  case Nil
  then show ?case by simp
next
  case (Cons x a)
  then show ?case by (auto split: list.splits)
qed

text \<open>A separator that no part holds: splitting undoes the concatenation of ended parts.\<close>

lemma split_on_concat:
  "\<forall>p \<in> set parts. c \<notin> set p \<Longrightarrow>
     split_on c (concat (map (\<lambda>p. p @ [c]) parts)) = parts @ [[]]"
  by (induction parts) (auto simp: split_on_append)

lemma split_on_concat_app:
  "\<forall>p \<in> set parts. c \<notin> set p \<Longrightarrow>
     split_on c (concat (map (\<lambda>p. p @ [c]) parts) @ s) = parts @ split_on c s"
  by (induction parts) (auto simp: split_on_append)

lemma split_on_join:
  "parts \<noteq> [] \<Longrightarrow> \<forall>p \<in> set parts. c \<notin> set p \<Longrightarrow> split_on c (join_with [c] parts) = parts"
  by (induction "[c]" parts rule: join_with.induct) (auto simp: split_on_append split_on_absent)

lemma takeWhile_absent: "c \<notin> set a \<Longrightarrow> takeWhile (\<lambda>x. x \<noteq> c) (a @ c # s) = a"
  by (induction a) auto

lemma dropWhile_absent: "c \<notin> set a \<Longrightarrow> dropWhile (\<lambda>x. x \<noteq> c) (a @ c # s) = c # s"
  by (induction a) auto

lemma split_n_hit: "c \<notin> set a \<Longrightarrow> split_n (Suc (Suc n)) c (a @ c # s) = a # split_n (Suc n) c s"
  by (simp add: takeWhile_absent dropWhile_absent)

lemma index_byte_append: "c \<notin> set a \<Longrightarrow> index_byte (a @ c # s) c = Some (length a)"
  by (simp add: index_byte_def takeWhile_absent)

subsection \<open>Numbers: strconv\<close>

definition digit_char :: "nat \<Rightarrow> char" where
  "digit_char d = char_of (if d < 10 then 48 + d else 87 + d)"

definition is_digit :: "char \<Rightarrow> bool" where
  "is_digit c \<longleftrightarrow> 48 \<le> (of_char c :: nat) \<and> (of_char c :: nat) \<le> 57"

definition digit_val :: "char \<Rightarrow> nat" where
  "digit_val c = of_char c - 48"

text \<open>\<open>strconv.FormatUint(n, base)\<close>, for a base from 2 to 36.\<close>

function fmt_nat :: "nat \<Rightarrow> nat \<Rightarrow> string" where
  "fmt_nat b n =
     (if n < b \<or> b < 2 then [digit_char n] else fmt_nat b (n div b) @ [digit_char (n mod b)])"
  by pat_completeness auto
termination
  by (relation "measure snd") auto

declare fmt_nat.simps [simp del]

definition fmt_int :: "int \<Rightarrow> string" where
  "fmt_int i = (if i < 0 then ''-'' @ fmt_nat 10 (nat (- i)) else fmt_nat 10 (nat i))"

datatype num_error = ErrSyntax | ErrRange

text \<open>
  \<open>strconv.ParseUint(s, 10, bits)\<close> with \<open>mx\<close> the greatest value: the value and the error.
  On a syntax error the value is 0, out of range it is \<open>mx\<close>; the digits are read from the
  left and the first of the two errors wins.
\<close>

fun parse_digits :: "nat \<Rightarrow> nat \<Rightarrow> string \<Rightarrow> nat \<times> num_error option" where
  "parse_digits mx n [] = (n, None)"
| "parse_digits mx n (c # cs) =
     (if \<not> is_digit c then (0, Some ErrSyntax)
      else if mx < n * 10 + digit_val c then (mx, Some ErrRange)
      else parse_digits mx (n * 10 + digit_val c) cs)"

definition parse_uint :: "nat \<Rightarrow> string \<Rightarrow> nat \<times> num_error option" where
  "parse_uint mx s = (if s = [] then (0, Some ErrSyntax) else parse_digits mx 0 s)"

definition maxUint64 :: nat where
  "maxUint64 = 18446744073709551615"

text \<open>\<open>strconv.ParseInt(s, 10, 64)\<close>, also \<open>strconv.Atoi\<close>.\<close>

definition parse_int :: "string \<Rightarrow> int \<times> num_error option" where
  "parse_int s =
     (let neg = (s \<noteq> [] \<and> hd s = CHR ''-'');
          digs = (if s \<noteq> [] \<and> (hd s = CHR ''-'' \<or> hd s = CHR ''+'') then tl s else s);
          (un, e) = parse_uint maxUint64 digs in
      if s = [] \<or> e = Some ErrSyntax then (0, Some ErrSyntax)
      else if \<not> neg \<and> 9223372036854775808 \<le> un then (9223372036854775807, Some ErrRange)
      else if neg \<and> 9223372036854775808 < un then (- 9223372036854775808, Some ErrRange)
      else ((if neg then - int un else int un), None))"

lemma digit_char_props:
  assumes "d < 10"
  shows "is_digit (digit_char d)" and "digit_val (digit_char d) = d"
  using assms by (simp_all add: digit_char_def is_digit_def digit_val_def)

lemma digit_char_inj: "d < 36 \<Longrightarrow> d' < 36 \<Longrightarrow> digit_char d = digit_char d' \<Longrightarrow> d = d'"
proof -
  assume d: "d < 36" "d' < 36" and eq: "digit_char d = digit_char d'"
  from eq have "(of_char (digit_char d) :: nat) = of_char (digit_char d')" by simp
  with d show "d = d'" by (auto simp: digit_char_def split: if_splits)
qed

lemma fmt_nat_not_Nil [simp]: "fmt_nat b n \<noteq> []" "[] \<noteq> fmt_nat b n"
  by (subst fmt_nat.simps, simp)+

lemma fmt_nat_digits: "set (fmt_nat 10 n) \<subseteq> Collect is_digit"
proof (induction "10 :: nat" n rule: fmt_nat.induct)
  case (1 n)
  then show ?case by (subst fmt_nat.simps) (auto simp: digit_char_props)
qed

text \<open>Reading what was printed, with anything that follows.\<close>

lemma parse_digits_fmt:
  "n \<le> mx \<Longrightarrow> parse_digits mx 0 (fmt_nat 10 n @ s) = parse_digits mx n s"
proof (induction "10 :: nat" n arbitrary: s rule: fmt_nat.induct)
  case (1 n)
  show ?case
  proof (cases "n < 10")
    case True
    then show ?thesis using "1.prems" by (subst fmt_nat.simps) (simp add: digit_char_props)
  next
    case False
    then have "n div 10 \<le> mx" using "1.prems" by linarith
    with False have "parse_digits mx 0 (fmt_nat 10 (n div 10) @ digit_char (n mod 10) # s) =
        parse_digits mx (n div 10) (digit_char (n mod 10) # s)"
      using "1.hyps" by simp
    moreover have "n div 10 * 10 + n mod 10 = n" by simp
    ultimately show ?thesis
      using False "1.prems" by (subst fmt_nat.simps) (simp add: digit_char_props)
  qed
qed

lemma parse_uint_fmt: "n \<le> mx \<Longrightarrow> parse_uint mx (fmt_nat 10 n) = (n, None)"
  using parse_digits_fmt [of n mx "[]"] by (simp add: parse_uint_def)

lemma fmt_nat_inj:
  assumes "2 \<le> b" and "b \<le> 36" and "fmt_nat b n = fmt_nat b m"
  shows "n = m"
  using assms(3)
proof (induction n arbitrary: m rule: less_induct)
  case (less n)
  have len: "fmt_nat b k = fmt_nat b (k div b) @ [digit_char (k mod b)]" if "\<not> k < b" for k
    using that assms(1) by (subst fmt_nat.simps) simp
  have one: "fmt_nat b k = [digit_char k]" if "k < b" for k
    using that by (subst fmt_nat.simps) simp
  show ?case
  proof (cases "n < b"; cases "m < b")
    assume "n < b" "m < b"
    then show ?thesis using less.prems assms(2) by (auto simp: one intro: digit_char_inj)
  next
    assume "n < b" "\<not> m < b"
    then show ?thesis using less.prems by (simp add: one len)
  next
    assume "\<not> n < b" "m < b"
    then show ?thesis using less.prems by (simp add: one len)
  next
    assume nm: "\<not> n < b" "\<not> m < b"
    then have "fmt_nat b (n div b) = fmt_nat b (m div b)"
      and "digit_char (n mod b) = digit_char (m mod b)"
      using less.prems by (simp_all add: len)
    moreover have "n div b < n" using nm assms(1) by simp
    ultimately have "n div b = m div b" and "n mod b = m mod b"
      using less.IH assms by (auto intro!: digit_char_inj less_le_trans [OF mod_less_divisor])
    then show ?thesis by (metis div_mult_mod_eq)
  qed
qed

text \<open>Signed numbers read back as well, in the range of int64.\<close>

definition int64_range :: "int \<Rightarrow> bool" where
  "int64_range i \<longleftrightarrow> - (2 ^ 63) \<le> i \<and> i < 2 ^ 63"

lemma fmt_nat_hd: "hd (fmt_nat 10 n) \<noteq> CHR ''-''" "hd (fmt_nat 10 n) \<noteq> CHR ''+''"
proof -
  have "hd (fmt_nat 10 n) \<in> Collect is_digit"
    by (rule subsetD [OF fmt_nat_digits hd_in_set]) simp
  then show "hd (fmt_nat 10 n) \<noteq> CHR ''-''" "hd (fmt_nat 10 n) \<noteq> CHR ''+''"
    by (auto simp: is_digit_def)
qed

lemma parse_int_fmt:
  assumes "int64_range i"
  shows "parse_int (fmt_int i) = (i, None)"
proof -
  have "nat \<bar>i\<bar> \<le> maxUint64" using assms by (auto simp: int64_range_def maxUint64_def abs_if)
  from parse_uint_fmt [OF this] show ?thesis
    using assms fmt_nat_hd
    by (cases "i < 0") (auto simp: parse_int_def fmt_int_def int64_range_def Let_def)
qed

lemma fmt_int_chars: "c \<in> set (fmt_int i) \<Longrightarrow> is_digit c \<or> c = CHR ''-''"
  using fmt_nat_digits by (auto simp: fmt_int_def split: if_splits)

end
