(* ===== verification/Float64.thy ===== *)
theory Float64
  imports GoStrings Complex_Main "HOL-Library.Log_Nat"
begin

section \<open>Go's float64: IEEE 754 binary64\<close>

text \<open>
  A float64 is NaN, an infinity with its sign, or \<open>Fin s m e\<close>, the number
  \<open>(-1)^s * m * 2^e\<close>. A canonical number (\<open>f64_wf\<close>) has either 53 significant bits
  (\<open>2^52 \<le> m < 2^53\<close>) or the least exponent -1074. Every operation computes the exact
  rational result and rounds it once, to nearest, ties to even, with overflow to infinity:
  \<open>f64_round\<close>. The arithmetic classes are instantiated, so that the models write \<open>+\<close>,
  \<open>-\<close>, \<open>*\<close>, \<open><\<close> and \<open>\<le>\<close> where the Go code does; \<open>f64_eq\<close> is Go's \<open>==\<close>,
  \<open>f64_div\<close> its \<open>/\<close>.
\<close>

datatype f64 = NaN | Infty bool | Fin bool nat int

definition minExp :: int where "minExp = -1074"
definition maxExp :: int where "maxExp = 971"

fun f64_wf :: "f64 \<Rightarrow> bool" where
  "f64_wf NaN = True"
| "f64_wf (Infty s) = True"
| "f64_wf (Fin s m e) =
     (2 ^ 52 \<le> m \<and> m < 2 ^ 53 \<and> minExp \<le> e \<and> e \<le> maxExp \<or> m < 2 ^ 52 \<and> e = minExp)"

subsection \<open>Rounding a ratio\<close>

definition rne :: "nat \<Rightarrow> nat \<Rightarrow> nat" where
  "rne n d = (let q = n div d; r = n mod d in
     if 2 * r < d \<or> (2 * r = d \<and> even q) then q else Suc q)"

text \<open>\<open>n / d\<close> measured in units of \<open>b^e\<close>: numerator and denominator.\<close>

definition scale_num :: "nat \<Rightarrow> int \<Rightarrow> nat \<Rightarrow> nat" where
  "scale_num b e n = n * b ^ nat (- e)"

definition scale_den :: "nat \<Rightarrow> int \<Rightarrow> nat \<Rightarrow> nat" where
  "scale_den b e d = d * b ^ nat e"

text \<open>The greatest \<open>k\<close> with \<open>2^k \<le> n / d\<close>.\<close>

definition ilog2_ratio :: "nat \<Rightarrow> nat \<Rightarrow> int" where
  "ilog2_ratio n d =
     (let k = int (floorlog 2 n) - int (floorlog 2 d) in
      if scale_den 2 k d \<le> scale_num 2 k n then k else k - 1)"

definition f64_round :: "bool \<Rightarrow> nat \<Rightarrow> nat \<Rightarrow> f64" where
  "f64_round s n d =
     (if n = 0 then Fin s 0 minExp
      else let e = max minExp (ilog2_ratio n d - 52);
               m = rne (scale_num 2 e n) (scale_den 2 e d);
               (m', e') = (if m = 2 ^ 53 then (2 ^ 52, e + 1) else (m, e))
           in if maxExp < e' then Infty s else Fin s m' e')"

definition f64_scaled :: "bool \<Rightarrow> nat \<Rightarrow> int \<Rightarrow> f64" where
  "f64_scaled s n k = f64_round s (n * 2 ^ nat k) (2 ^ nat (- k))"

definition f64_of_nat :: "nat \<Rightarrow> f64" where
  "f64_of_nat n = f64_round False n 1"

definition f64_of_int :: "int \<Rightarrow> f64" where
  "f64_of_int i = f64_round (i < 0) (nat \<bar>i\<bar>) 1"

subsection \<open>Arithmetic and comparison\<close>

definition signed :: "bool \<Rightarrow> nat \<Rightarrow> int" where
  "signed s m = (if s then - int m else int m)"

instantiation f64 :: "{zero, plus, uminus, minus, times, ord}"
begin

definition zero_f64 :: f64 where
  "zero_f64 = Fin False 0 minExp"

fun uminus_f64 :: "f64 \<Rightarrow> f64" where
  "uminus_f64 NaN = NaN"
| "uminus_f64 (Infty s) = Infty (\<not> s)"
| "uminus_f64 (Fin s m e) = Fin (\<not> s) m e"

fun plus_f64 :: "f64 \<Rightarrow> f64 \<Rightarrow> f64" where
  "plus_f64 (Fin s m e) (Fin t n g) =
     (let k = min e g;
          z = signed s m * 2 ^ nat (e - k) + signed t n * 2 ^ nat (g - k) in
      if z = 0 then Fin (s \<and> t) 0 minExp else f64_scaled (z < 0) (nat \<bar>z\<bar>) k)"
| "plus_f64 NaN y = NaN"
| "plus_f64 x NaN = NaN"
| "plus_f64 (Infty s) (Infty t) = (if s = t then Infty s else NaN)"
| "plus_f64 (Infty s) y = Infty s"
| "plus_f64 x (Infty t) = Infty t"

definition minus_f64 :: "f64 \<Rightarrow> f64 \<Rightarrow> f64" where
  "minus_f64 x y = x + (- y)"

fun times_f64 :: "f64 \<Rightarrow> f64 \<Rightarrow> f64" where
  "times_f64 (Fin s m e) (Fin t n g) = f64_scaled (s \<noteq> t) (m * n) (e + g)"
| "times_f64 NaN y = NaN"
| "times_f64 x NaN = NaN"
| "times_f64 (Infty s) (Infty t) = Infty (s \<noteq> t)"
| "times_f64 (Infty s) (Fin t n g) = (if n = 0 then NaN else Infty (s \<noteq> t))"
| "times_f64 (Fin s m e) (Infty t) = (if m = 0 then NaN else Infty (s \<noteq> t))"

fun less_f64 :: "f64 \<Rightarrow> f64 \<Rightarrow> bool" where
  "less_f64 (Fin s m e) (Fin t n g) =
     (signed s m * 2 ^ nat (e - min e g) < signed t n * 2 ^ nat (g - min e g))"
| "less_f64 NaN y = False"
| "less_f64 x NaN = False"
| "less_f64 (Infty s) (Infty t) = (s \<and> \<not> t)"
| "less_f64 (Infty s) y = s"
| "less_f64 x (Infty t) = (\<not> t)"

fun less_eq_f64 :: "f64 \<Rightarrow> f64 \<Rightarrow> bool" where
  "less_eq_f64 (Fin s m e) (Fin t n g) =
     (signed s m * 2 ^ nat (e - min e g) \<le> signed t n * 2 ^ nat (g - min e g))"
| "less_eq_f64 NaN y = False"
| "less_eq_f64 x NaN = False"
| "less_eq_f64 (Infty s) (Infty t) = (s \<or> \<not> t)"
| "less_eq_f64 (Infty s) y = s"
| "less_eq_f64 x (Infty t) = (\<not> t)"

instance ..

end

fun f64_div :: "f64 \<Rightarrow> f64 \<Rightarrow> f64" where
  "f64_div (Fin s m e) (Fin t n g) =
     (if n = 0 then (if m = 0 then NaN else Infty (s \<noteq> t))
      else f64_round (s \<noteq> t) (m * 2 ^ nat (e - g)) (n * 2 ^ nat (g - e)))"
| "f64_div NaN y = NaN"
| "f64_div x NaN = NaN"
| "f64_div (Infty s) (Infty t) = NaN"
| "f64_div (Infty s) (Fin t n g) = Infty (s \<noteq> t)"
| "f64_div (Fin s m e) (Infty t) = Fin (s \<noteq> t) 0 minExp"

definition f64_eq :: "f64 \<Rightarrow> f64 \<Rightarrow> bool" where
  "f64_eq x y \<longleftrightarrow> x \<le> y \<and> y \<le> x"

definition is_nan :: "f64 \<Rightarrow> bool" where
  "is_nan x \<longleftrightarrow> x = NaN"

definition is_inf :: "f64 \<Rightarrow> bool" where
  "is_inf x \<longleftrightarrow> (case x of Infty _ \<Rightarrow> True | _ \<Rightarrow> False)"

subsection \<open>math.Round and the conversion to int64\<close>

text \<open>
  \<open>math.Round\<close> rounds half away from zero. The conversion of a value outside int64 is
  implementation-dependent in Go: \<open>oob\<close> is what the platform gives.
\<close>

fun math_round_int :: "f64 \<Rightarrow> int option" where
  "math_round_int (Fin s m e) =
     (let n = scale_num 2 (- e) m; d = scale_den 2 (- e) 1 in
      Some (signed s ((2 * n + d) div (2 * d))))"
| "math_round_int _ = None"

definition round_int64 :: "(f64 \<Rightarrow> int) \<Rightarrow> f64 \<Rightarrow> int" where
  "round_int64 oob x =
     (case math_round_int x of
        Some i \<Rightarrow> (if - (2 ^ 63) \<le> i \<and> i < 2 ^ 63 then i else oob x)
      | None \<Rightarrow> oob x)"

subsection \<open>Facts on rounding\<close>

lemma scale_ratio:
  assumes "0 < b"
  shows "real (scale_num b e n) / real (scale_den b e d) = (real n / real d) / real b powi e"
  using assms
  by (cases "0 \<le> e") (simp_all add: scale_num_def scale_den_def power_int_def field_simps)

lemma scale_den_pos [simp]: "0 < b \<Longrightarrow> 0 < d \<Longrightarrow> 0 < scale_den b e d"
  by (simp add: scale_den_def)

lemma ratio_le_iff: "0 < d \<Longrightarrow> (d \<le> n) = (1 \<le> real n / real d)"
  by (simp add: field_simps)

lemma floorlog_real_bounds:
  assumes "0 < n"
  shows "2 powi (int (floorlog 2 n) - 1) \<le> real n" and "real n < 2 powi int (floorlog 2 n)"
proof -
  have b: "2 ^ (floorlog 2 n - 1) \<le> n" "n < 2 ^ floorlog 2 n"
    using floorlog_bounds [of n 2] assms by simp_all
  have "floorlog 2 n \<noteq> 0" using assms by (simp add: floorlog_eq_zero_iff)
  then have e: "int (floorlog 2 n) - 1 = int (floorlog 2 n - 1)" by simp
  have "real (2 ^ (floorlog 2 n - 1)) \<le> real n" using b(1) by (simp only: of_nat_le_iff)
  then show "2 powi (int (floorlog 2 n) - 1) \<le> real n"
    unfolding e by simp
  have "real n < real (2 ^ floorlog 2 n)" using b(2) by (simp only: of_nat_less_iff)
  then show "real n < 2 powi int (floorlog 2 n)" by simp
qed

lemma ilog2_ratio_bounds:
  assumes "0 < n" and "0 < d"
  shows "2 powi ilog2_ratio n d \<le> real n / real d"
    and "real n / real d < 2 powi (ilog2_ratio n d + 1)"
proof -
  define k where "k = int (floorlog 2 n) - int (floorlog 2 d)"
  note n = floorlog_real_bounds [OF assms(1)] and d = floorlog_real_bounds [OF assms(2)]
  have up: "real n / real d < 2 powi (k + 1)"
  proof -
    have "real n / real d < 2 powi int (floorlog 2 n) / 2 powi (int (floorlog 2 d) - 1)"
      using n d assms by (intro frac_less) simp_all
    also have "\<dots> = 2 powi (k + 1)" by (simp add: k_def algebra_simps flip: power_int_diff del: power_int_of_nat)
    finally show ?thesis .
  qed
  have lo: "2 powi (k - 1) < real n / real d"
  proof -
    have "(2 :: real) powi (k - 1) = 2 powi (int (floorlog 2 n) - 1) / 2 powi int (floorlog 2 d)"
      by (simp add: k_def algebra_simps flip: power_int_diff del: power_int_of_nat)
    also have "\<dots> < real n / real d" using n d assms by (intro frac_less2) simp_all
    finally show ?thesis .
  qed
  have c: "(scale_den 2 k d \<le> scale_num 2 k n) = (2 powi k \<le> real n / real d)"
    using ratio_le_iff [of "scale_den 2 k d" "scale_num 2 k n"] assms(2)
    by (simp add: scale_ratio field_simps)
  show "2 powi ilog2_ratio n d \<le> real n / real d"
    using c lo by (simp add: ilog2_ratio_def Let_def flip: k_def)
  show "real n / real d < 2 powi (ilog2_ratio n d + 1)"
    using c up by (simp add: ilog2_ratio_def Let_def flip: k_def)
qed

lemma powi_between_unique:
  assumes "2 powi k \<le> x" and "x < 2 powi (k + 1)" and "2 powi j \<le> x" and "x < (2 :: real) powi (j + 1)"
  shows "k = j"
proof -
  have "(2 :: real) powi k < 2 powi (j + 1)" and "(2 :: real) powi j < 2 powi (k + 1)"
    using assms by linarith+
  then have "k < j + 1" and "j < k + 1"
    by (metis not_le one_le_numeral power_int_increasing)+
  then show ?thesis by simp
qed

lemma ilog2_ratio_eq:
  "0 < n \<Longrightarrow> 0 < d \<Longrightarrow> 2 powi k \<le> real n / real d \<Longrightarrow> real n / real d < 2 powi (k + 1) \<Longrightarrow>
     ilog2_ratio n d = k"
  using ilog2_ratio_bounds [of n d] by (blast intro: powi_between_unique)

lemma rne_scale: "0 < c \<Longrightarrow> 0 < d \<Longrightarrow> rne (n * c) (d * c) = rne n d"
proof -
  assume c: "0 < c" "0 < d"
  have "(2 * (n * c mod (d * c)) < d * c) = (2 * (n mod d) < d)"
    and "(2 * (n * c mod (d * c)) = d * c) = (2 * (n mod d) = d)"
    using c by (metis (no_types) mult.assoc mult_less_cancel2 mult_mod_left,
        metis (no_types) mult.assoc mult_cancel2 mult_mod_left less_numeral_extra(3))
  then show ?thesis using c by (simp add: rne_def Let_def)
qed

lemma rne_exact [simp]: "0 < d \<Longrightarrow> rne (m * d) d = m"
  by (simp add: rne_def)

text \<open>Rounding looks at the ratio only.\<close>

lemma f64_round_scale:
  assumes "0 < c" and "0 < d"
  shows "f64_round s (n * c) (d * c) = f64_round s n d"
proof (cases "n = 0")
  case True
  then show ?thesis by (simp add: f64_round_def)
next
  case False
  have "ilog2_ratio (n * c) (d * c) = ilog2_ratio n d"
    using False assms ilog2_ratio_bounds [of n d] by (intro ilog2_ratio_eq) simp_all
  moreover have "rne (scale_num 2 e (n * c)) (scale_den 2 e (d * c)) =
      rne (scale_num 2 e n) (scale_den 2 e d)" for e
    using rne_scale [of c "scale_den 2 e d" "scale_num 2 e n"] assms
    by (simp add: scale_num_def scale_den_def mult_ac)
  ultimately show ?thesis using False assms by (simp add: f64_round_def)
qed

lemma f64_round_ratio:
  assumes "0 < d" and "0 < d'" and "n * d' = n' * d"
  shows "f64_round s n d = f64_round s n' d'"
  using f64_round_scale [of d' d s n] f64_round_scale [of d d' s n'] assms
  by (simp add: mult.commute)

text \<open>A ratio that is a canonical number is not changed by rounding.\<close>

lemma f64_round_exact:
  assumes wf: "f64_wf (Fin s m e)" and m: "0 < m" and d: "0 < d"
    and eq: "real n / real d = real m * 2 powi e"
  shows "f64_round s n d = Fin s m e"
proof -
  have n: "0 < n" using eq m d by (cases "n = 0") auto
  have m53: "m < 2 ^ 53" and emax: "e \<le> maxExp" and emin: "minExp \<le> e"
    using wf by (auto simp: maxExp_def minExp_def)
  have "max minExp (ilog2_ratio n d - 52) = e"
  proof (cases "2 ^ 52 \<le> m")
    case True
    have "2 powi (e + 52) \<le> real n / real d"
    proof -
      have "real (2 ^ 52) \<le> real m" using True by (simp only: of_nat_le_iff)
      then show ?thesis by (simp add: eq power_int_add)
    qed
    moreover have "real n / real d < 2 powi (e + 52 + 1)"
    proof -
      have "real m < real (2 ^ 53)" using m53 by (simp only: of_nat_less_iff)
      then show ?thesis by (simp add: eq power_int_add)
    qed
    ultimately have "ilog2_ratio n d = e + 52" by (rule ilog2_ratio_eq [OF n d])
    then show ?thesis using emin by simp
  next
    case False
    then have e: "e = minExp" and "m < 2 ^ 52" using wf by simp_all
    then have "real m < real (2 ^ 52)" by (simp only: of_nat_less_iff)
    then have "real n / real d < 2 powi (minExp + 52)"
      by (simp add: eq e power_int_add)
    then have "(2 :: real) powi ilog2_ratio n d < 2 powi (minExp + 52)"
      using ilog2_ratio_bounds(1) [OF n d] by linarith
    then have "ilog2_ratio n d < minExp + 52"
      by (metis not_le one_le_numeral power_int_increasing)
    then show ?thesis using e by simp
  qed
  moreover have "rne (scale_num 2 e n) (scale_den 2 e d) = m"
  proof -
    have "real (scale_num 2 e n) / real (scale_den 2 e d) = real m"
      by (simp add: scale_ratio eq)
    then have "real (scale_num 2 e n) = real (m * scale_den 2 e d)"
      using d by (simp add: field_simps scale_den_def)
    then have "scale_num 2 e n = m * scale_den 2 e d" by (simp only: of_nat_eq_iff)
    then show ?thesis using d by simp
  qed
  ultimately show ?thesis using n m53 emax by (simp add: f64_round_def Let_def)
qed

subsection \<open>The real number a finite float64 stands for\<close>

fun f64_real :: "f64 \<Rightarrow> real" where
  "f64_real (Fin s m e) = of_int (signed s m) * 2 powi e"
| "f64_real _ = 0"

lemma powi_split: "k \<le> e \<Longrightarrow> (2 :: real) powi e = 2 ^ nat (e - k) * 2 powi k"
proof -
  assume "k \<le> e"
  have "(2 :: real) powi (e - k + k) = 2 powi (e - k) * 2 powi k" by (rule power_int_add) simp
  with \<open>k \<le> e\<close> show ?thesis by (simp add: power_int_nonneg_exp)
qed

lemma aligned_real:
  "k \<le> e \<Longrightarrow> of_int (i * 2 ^ nat (e - k)) * 2 powi k = (of_int i * 2 powi e :: real)"
  by (simp add: powi_split)

lemma f64_less_real: "Fin s m e < Fin t n g \<longleftrightarrow> f64_real (Fin s m e) < f64_real (Fin t n g)"
proof -
  have "(signed s m * 2 ^ nat (e - min e g) < signed t n * 2 ^ nat (g - min e g)) =
    (of_int (signed s m * 2 ^ nat (e - min e g)) * 2 powi min e g
      < (of_int (signed t n * 2 ^ nat (g - min e g)) * 2 powi min e g :: real))"
    by (simp only: mult_less_cancel_right_pos zero_less_power_int zero_less_numeral of_int_less_iff)
  then show ?thesis by (simp only: aligned_real min.cobounded1 min.cobounded2 f64_real.simps less_f64.simps)
qed

lemma f64_le_real: "Fin s m e \<le> Fin t n g \<longleftrightarrow> f64_real (Fin s m e) \<le> f64_real (Fin t n g)"
proof -
  have "(signed s m * 2 ^ nat (e - min e g) \<le> signed t n * 2 ^ nat (g - min e g)) =
    (of_int (signed s m * 2 ^ nat (e - min e g)) * 2 powi min e g
      \<le> (of_int (signed t n * 2 ^ nat (g - min e g)) * 2 powi min e g :: real))"
    by (simp only: mult_le_cancel_right_pos zero_less_power_int zero_less_numeral of_int_le_iff)
  then show ?thesis by (simp only: aligned_real min.cobounded1 min.cobounded2 f64_real.simps less_eq_f64.simps)
qed

lemma f64_scaled_int:
  assumes "of_int z * 2 powi k = (of_int i :: real)"
  shows "f64_scaled (z < 0) (nat \<bar>z\<bar>) k = f64_of_int i"
proof -
  have sgn: "(z < 0) = (i < 0)"
  proof -
    have "0 < (2 :: real) powi k" by simp
    then have "(z < 0) = ((of_int z * 2 powi k :: real) < 0)"
      by (metis mult_less_0_iff of_int_less_0_iff order_less_asym)
    then show ?thesis by (simp add: assms)
  qed
  have "real (nat \<bar>z\<bar>) * 2 powi k = real (nat \<bar>i\<bar>)"
    using arg_cong [OF assms, of abs] by (simp add: abs_mult)
  then have "real (nat \<bar>z\<bar> * 2 ^ nat k) = real (nat \<bar>i\<bar> * 2 ^ nat (- k))"
    by (cases "0 \<le> k") (auto simp: power_int_def field_simps)
  then have "nat \<bar>z\<bar> * 2 ^ nat k * 1 = nat \<bar>i\<bar> * 2 ^ nat (- k)"
    by (simp only: of_nat_eq_iff mult_1_right)
  then show ?thesis
    unfolding f64_scaled_def f64_of_int_def sgn by (intro f64_round_ratio) simp_all
qed

lemma f64_plus_int:
  assumes "f64_real (Fin s m e) = of_int a" and "f64_real (Fin t n g) = of_int b"
  shows "Fin s m e + Fin t n g =
    (if a + b = 0 then Fin (s \<and> t) 0 minExp else f64_of_int (a + b))"
proof -
  define k z where "k = min e g" and "z = signed s m * 2 ^ nat (e - k) + signed t n * 2 ^ nat (g - k)"
  have "of_int z * 2 powi k = (of_int (a + b) :: real)"
    using assms aligned_real [of k e "signed s m"] aligned_real [of k g "signed t n"]
    by (simp add: z_def k_def distrib_right)
  moreover from this have "z = 0 \<longleftrightarrow> a + b = 0"
    by (metis mult_eq_0_iff of_int_eq_0_iff power_int_not_zero zero_neq_numeral)
  ultimately show ?thesis
    by (simp add: f64_scaled_int Let_def flip: k_def z_def)
qed

subsection \<open>Integers below 2^53 are exact\<close>

lemma f64_of_int_Fin:
  assumes "\<bar>i\<bar> < 2 ^ 53"
  obtains m e where "f64_of_int i = Fin (i < 0) m e" and "f64_wf (Fin (i < 0) m e)"
    and "f64_real (Fin (i < 0) m e) = of_int i"
proof (cases "i = 0")
  case True
  then show ?thesis using that [of 0 minExp] by (simp add: f64_of_int_def f64_round_def signed_def)
next
  case False
  define n L m e where "n = nat \<bar>i\<bar>" and "L = floorlog 2 n" and "m = n * 2 ^ (53 - L)"
    and "e = int L - 53"
  have n: "0 < n" "n < 2 ^ 53" using False assms by (simp_all add: n_def)
  then have L: "2 ^ (L - 1) \<le> n" "n < 2 ^ L" and L1: "1 \<le> L"
    using floorlog_bounds [of n 2] floorlog_eq_zero_iff [of 2 n] by (auto simp: L_def)
  have L53: "L \<le> 53" using n floorlog_leI [of n 2 53] by (simp add: L_def)
  have "2 ^ 52 = (2 :: nat) ^ (L - 1) * 2 ^ (53 - L)"
    using L1 L53 by (simp flip: power_add)
  then have lo: "2 ^ 52 \<le> m" using L(1) by (simp only: m_def mult_le_mono1)
  have "2 ^ 53 = (2 :: nat) ^ L * 2 ^ (53 - L)"
    using L53 by (simp flip: power_add)
  then have hi: "m < 2 ^ 53" using L(2) by (simp only: m_def mult_less_mono1 zero_less_power zero_less_numeral)
  have wf: "f64_wf (Fin (i < 0) m e)"
    using lo hi L53 L1 by (simp add: e_def minExp_def maxExp_def)
  have val: "real m * 2 powi e = real n"
  proof -
    have "(2 :: real) powi e * 2 ^ (53 - L) = 2 powi (e + int (53 - L))"
      by (simp add: power_int_add)
    also have "\<dots> = 1" using L53 by (simp add: e_def)
    finally show ?thesis by (simp add: m_def mult.commute mult.left_commute)
  qed
  have m0: "0 < m" using n by (simp add: m_def)
  have "f64_of_int i = Fin (i < 0) m e"
    unfolding f64_of_int_def n_def [symmetric]
    by (rule f64_round_exact [OF wf m0]) (simp_all add: val)
  moreover have "f64_real (Fin (i < 0) m e) = of_int i"
    using val by (simp add: signed_def n_def)
  ultimately show ?thesis using wf that by blast
qed

lemma f64_int_add:
  assumes "\<bar>a\<bar> < 2 ^ 53" and "\<bar>b\<bar> < 2 ^ 53"
  shows "f64_of_int a + f64_of_int b = f64_of_int (a + b)"
proof -
  from assms(1) obtain m e where a: "f64_of_int a = Fin (a < 0) m e"
    "f64_real (Fin (a < 0) m e) = of_int a" by (rule f64_of_int_Fin)
  from assms(2) obtain n g where b: "f64_of_int b = Fin (b < 0) n g"
    "f64_real (Fin (b < 0) n g) = of_int b" by (rule f64_of_int_Fin)
  show ?thesis
    unfolding a(1) b(1) f64_plus_int [OF a(2) b(2)] by (auto simp: f64_of_int_def f64_round_def)
qed

lemma f64_int_sub:
  assumes "\<bar>a\<bar> < 2 ^ 53" and "\<bar>b\<bar> < 2 ^ 53"
  shows "f64_of_int a - f64_of_int b = f64_of_int (a - b)"
proof -
  from assms(1) obtain m e where a: "f64_of_int a = Fin (a < 0) m e"
    "f64_real (Fin (a < 0) m e) = of_int a" by (rule f64_of_int_Fin)
  from assms(2) obtain n g where b: "f64_of_int b = Fin (b < 0) n g"
    "f64_real (Fin (b < 0) n g) = of_int b" by (rule f64_of_int_Fin)
  then have nb: "f64_real (Fin (\<not> b < 0) n g) = of_int (- b)"
    by (simp add: signed_def split: if_splits)
  show ?thesis
    unfolding a(1) b(1) minus_f64_def uminus_f64.simps f64_plus_int [OF a(2) nb]
    by (auto simp: f64_of_int_def f64_round_def)
qed

lemma f64_int_less:
  assumes "\<bar>a\<bar> < 2 ^ 53" and "\<bar>b\<bar> < 2 ^ 53"
  shows "f64_of_int a < f64_of_int b \<longleftrightarrow> a < b" and "f64_of_int a \<le> f64_of_int b \<longleftrightarrow> a \<le> b"
proof -
  from assms(1) obtain m e where a: "f64_of_int a = Fin (a < 0) m e"
    "f64_real (Fin (a < 0) m e) = of_int a" by (rule f64_of_int_Fin)
  from assms(2) obtain n g where b: "f64_of_int b = Fin (b < 0) n g"
    "f64_real (Fin (b < 0) n g) = of_int b" by (rule f64_of_int_Fin)
  show "f64_of_int a < f64_of_int b \<longleftrightarrow> a < b"
    unfolding a(1) b(1) f64_less_real a(2) b(2) by simp
  show "f64_of_int a \<le> f64_of_int b \<longleftrightarrow> a \<le> b"
    unfolding a(1) b(1) f64_le_real a(2) b(2) by simp
qed

lemma f64_zero_int: "(0 :: f64) = f64_of_int 0"
  by (simp add: zero_f64_def f64_of_int_def f64_round_def)

text \<open>\<open>math.Round\<close> and the conversion to int64 give such an integer back.\<close>

lemma round_half_up: "0 < d \<Longrightarrow> (2 * (k * d) + d) div (2 * d) = (k :: nat)"
  by (simp add: div_mult2_eq algebra_simps)

lemma round_int64_of_int:
  assumes "\<bar>i\<bar> < 2 ^ 53"
  shows "round_int64 oob (f64_of_int i) = i"
proof -
  from assms obtain m e where i: "f64_of_int i = Fin (i < 0) m e"
    "f64_real (Fin (i < 0) m e) = of_int i" by (rule f64_of_int_Fin)
  have "real m * 2 powi e = real (nat \<bar>i\<bar>)" using i(2) by (auto simp: signed_def split: if_splits)
  then have "real (scale_num 2 (- e) m) = real (nat \<bar>i\<bar> * scale_den 2 (- e) 1)"
    by (cases "0 \<le> e") (simp_all add: scale_num_def scale_den_def power_int_def field_simps)
  then have eq: "scale_num 2 (- e) m = nat \<bar>i\<bar> * scale_den 2 (- e) 1" by (simp only: of_nat_eq_iff)
  have "math_round_int (f64_of_int i) = Some i"
    by (simp add: i(1) eq round_half_up Let_def) (simp add: signed_def)
  then show ?thesis using assms by (auto simp: round_int64_def abs_less_iff)
qed

end
