(* ===== verification/FloatFormat.thy ===== *)
theory FloatFormat
  imports Float64
begin

section \<open>strconv.FormatFloat(x, 'f', -1, 64)\<close>

text \<open>
  The shortest decimal that reads back as the same float64, without an exponent. For each
  number of digits from 1 the two neighbouring decimals of the exact value are tried, the
  nearer first. The search stops at 17 digits, where the exact decimal expansion (which
  every binary fraction has) would be the answer; it is never needed, since 17 digits
  identify a float64, and makes the function total and its round trip provable without that
  fact. \<open>read_float\<close> is the reader used in the statements: plain decimals only.
\<close>

text \<open>\<open>c * 10^p\<close> rounded to a float64.\<close>

definition dec_round :: "bool \<Rightarrow> nat \<Rightarrow> int \<Rightarrow> f64" where
  "dec_round s c p = f64_round s (scale_num 10 (- p) c) (scale_den 10 (- p) 1)"

text \<open>The \<open>k\<close> with \<open>10^(k-1) \<le> n / d < 10^k\<close>.\<close>

definition dec_exp :: "nat \<Rightarrow> nat \<Rightarrow> int" where
  "dec_exp n d =
     (if d \<le> n then int (floorlog 10 (n div d))
      else let j = floorlog 10 (d div n) in if d = n * 10 ^ (j - 1) then 2 - int j else 1 - int j)"

fun shortest_from :: "nat \<Rightarrow> nat \<Rightarrow> bool \<Rightarrow> nat \<Rightarrow> int \<Rightarrow> nat \<times> int" where
  "shortest_from 0 nd s m e =
     (if 0 \<le> e then (m * 2 ^ nat e, 0) else (m * 5 ^ nat (- e), e))"
| "shortest_from (Suc fuel) nd s m e =
     (let n = scale_num 2 (- e) m; d = scale_den 2 (- e) 1;
          p = dec_exp n d - int nd;
          c0 = scale_num 10 p n div scale_den 10 p d;
          c = rne (scale_num 10 p n) (scale_den 10 p d);
          c' = (if c = c0 then Suc c0 else c0) in
      if dec_round s c p = Fin s m e then (c, p)
      else if dec_round s c' p = Fin s m e then (c', p)
      else shortest_from fuel (Suc nd) s m e)"

text \<open>Trailing zeros after the decimal point are not printed.\<close>

fun strip_zeros :: "nat \<Rightarrow> nat \<Rightarrow> nat \<times> nat" where
  "strip_zeros c 0 = (c, 0)"
| "strip_zeros c (Suc q) = (if c mod 10 = 0 then strip_zeros (c div 10) q else (c, Suc q))"

definition pad_digits :: "nat \<Rightarrow> string \<Rightarrow> string" where
  "pad_digits q ds = replicate (q - length ds) (CHR ''0'') @ ds"

definition fmt_dec :: "nat \<Rightarrow> int \<Rightarrow> string" where
  "fmt_dec c p =
     (if 0 \<le> p then fmt_nat 10 (c * 10 ^ nat p)
      else let (c', q) = strip_zeros c (nat (- p)) in
        if q = 0 then fmt_nat 10 c'
        else fmt_nat 10 (c' div 10 ^ q) @ ''.'' @ pad_digits q (fmt_nat 10 (c' mod 10 ^ q)))"

fun fmt_float :: "f64 \<Rightarrow> string" where
  "fmt_float NaN = ''NaN''"
| "fmt_float (Infty s) = (if s then ''-Inf'' else ''+Inf'')"
| "fmt_float (Fin s m e) =
     (if s then ''-'' else []) @
     (if m = 0 then ''0'' else case shortest_from 17 1 s m e of (c, p) \<Rightarrow> fmt_dec c p)"

definition digits_val :: "string \<Rightarrow> nat" where
  "digits_val ds = foldl (\<lambda>n c. n * 10 + digit_val c) 0 ds"

definition read_dec :: "bool \<Rightarrow> string \<Rightarrow> f64 option" where
  "read_dec s t =
     (case split_on (CHR ''.'') t of
        [a] \<Rightarrow> if a \<noteq> [] \<and> list_all is_digit a then Some (f64_round s (digits_val a) 1) else None
      | [a, b] \<Rightarrow>
          if a \<noteq> [] \<and> list_all is_digit (a @ b)
          then Some (f64_round s (digits_val (a @ b)) (10 ^ length b)) else None
      | _ \<Rightarrow> None)"

definition read_float :: "string \<Rightarrow> f64 option" where
  "read_float t =
     (if t = ''NaN'' then Some NaN
      else if t = ''+Inf'' then Some (Infty False)
      else if t = ''-Inf'' then Some (Infty True)
      else if t \<noteq> [] \<and> hd t = CHR ''-'' then read_dec True (tl t)
      else read_dec False t)"

subsection \<open>Reading back\<close>

lemma digits_val_snoc [simp]: "digits_val (ds @ [c]) = digits_val ds * 10 + digit_val c"
  by (simp add: digits_val_def)

lemma digits_val_append: "digits_val (a @ b) = digits_val a * 10 ^ length b + digits_val b"
  by (induction b rule: rev_induct)
    (simp_all add: digits_val_def [of "[]"] algebra_simps flip: append_assoc)

lemma digits_val_zeros [simp]: "digits_val (replicate k (CHR ''0'')) = 0"
  by (induction k) (simp_all add: digits_val_def digit_val_def)

lemma digits_val_fmt [simp]: "digits_val (fmt_nat 10 n) = n"
proof (induction "10 :: nat" n rule: fmt_nat.induct)
  case (1 n)
  show ?case
  proof (cases "n < 10")
    case True
    then show ?thesis by (subst fmt_nat.simps) (simp add: digits_val_def digit_char_props)
  next
    case False
    then have "digits_val (fmt_nat 10 (n div 10)) = n div 10" using 1 by simp
    with False show ?thesis by (subst fmt_nat.simps) (simp add: digit_char_props)
  qed
qed

lemma length_fmt_nat: "n < 10 ^ q \<Longrightarrow> 0 < q \<Longrightarrow> length (fmt_nat 10 n) \<le> q"
proof (induction q arbitrary: n)
  case 0
  then show ?case by simp
next
  case (Suc q)
  show ?case
  proof (cases "n < 10")
    case True
    then show ?thesis by (subst fmt_nat.simps) simp
  next
    case False
    then have "0 < q" using Suc.prems by (cases q) auto
    moreover have "n div 10 < 10 ^ q" using Suc.prems by (simp add: less_mult_imp_div_less mult.commute)
    ultimately have "length (fmt_nat 10 (n div 10)) \<le> q" by (rule Suc.IH [rotated])
    with False show ?thesis by (subst fmt_nat.simps) simp
  qed
qed

lemma pad_digits_props:
  assumes "n < 10 ^ q" and "0 < q"
  shows "length (pad_digits q (fmt_nat 10 n)) = q" and "digits_val (pad_digits q (fmt_nat 10 n)) = n"
  using length_fmt_nat [OF assms] by (simp_all add: pad_digits_def digits_val_append)

lemma list_all_fmt [simp]: "list_all is_digit (fmt_nat 10 n)"
  using fmt_nat_digits by (auto simp: list_all_iff)

lemma list_all_pad [simp]: "list_all is_digit (pad_digits q (fmt_nat 10 n))"
  by (auto simp: pad_digits_def list_all_iff is_digit_def dest: subsetD [OF fmt_nat_digits])

lemma no_dot: "list_all is_digit ds \<Longrightarrow> CHR ''.'' \<notin> set ds"
  by (auto simp: list_all_iff is_digit_def)

lemma strip_zeros_val:
  "strip_zeros c q = (c', q') \<Longrightarrow> c * 10 ^ q' = c' * 10 ^ q \<and> q' \<le> q"
proof (induction c q arbitrary: c' q' rule: strip_zeros.induct)
  case (2 c q)
  show ?case
  proof (cases "c mod 10 = 0")
    case True
    then have "c div 10 * 10 ^ q' = c' * 10 ^ q \<and> q' \<le> q" using 2 by simp
    moreover have "c = c div 10 * 10" using True by auto
    ultimately show ?thesis by (metis le_SucI mult.assoc mult.commute power_Suc)
  next
    case False
    then show ?thesis using 2 by simp
  qed
qed simp

lemma read_fmt_dec: "read_dec s (fmt_dec c p) = Some (dec_round s c p)"
proof (cases "0 \<le> p")
  case True
  then show ?thesis
    by (simp add: fmt_dec_def read_dec_def split_on_absent [OF no_dot] dec_round_def
        scale_num_def scale_den_def)
next
  case False
  define q where "q = nat (- p)"
  obtain c' q' where cq: "strip_zeros c q = (c', q')" by fastforce
  have val: "c * 10 ^ q' = c' * 10 ^ q" using strip_zeros_val [OF cq] by simp
  have round: "f64_round s c' (10 ^ q') = dec_round s c p"
    using False val
    by (simp add: dec_round_def scale_num_def scale_den_def q_def f64_round_ratio)
  show ?thesis
  proof (cases "q' = 0")
    case True
    then show ?thesis
      using False cq round
      by (simp add: fmt_dec_def read_dec_def split_on_absent [OF no_dot] flip: q_def)
  next
    case q': False
    define a b where "a = fmt_nat 10 (c' div 10 ^ q')" and "b = pad_digits q' (fmt_nat 10 (c' mod 10 ^ q'))"
    have b: "length b = q'" "digits_val b = c' mod 10 ^ q'"
      unfolding b_def using q' by (simp_all add: pad_digits_props)
    then have dv: "digits_val (a @ b) = c'" by (simp add: digits_val_append a_def div_mult_mod_eq)
    have "fmt_dec c p = a @ CHR ''.'' # b"
      using False cq q' by (simp add: fmt_dec_def a_def b_def flip: q_def)
    moreover have "split_on (CHR ''.'') (a @ CHR ''.'' # b) = [a, b]"
      by (simp add: split_on_append split_on_absent no_dot a_def b_def)
    ultimately show ?thesis
      using dv b round by (simp add: read_dec_def) (simp add: a_def b_def)
  qed
qed

lemma shortest_reads_back:
  assumes wf: "f64_wf (Fin s m e)" and m: "0 < m"
  shows "shortest_from fuel nd s m e = (c, p) \<Longrightarrow> dec_round s c p = Fin s m e"
proof (induction fuel arbitrary: nd)
  case 0
  show ?case
  proof (cases "0 \<le> e")
    case True
    then have "f64_round s (m * 2 ^ nat e) 1 = Fin s m e"
      by (intro f64_round_exact [OF wf m]) (simp_all add: power_int_nonneg_exp)
    with True 0 show ?thesis by (auto simp: dec_round_def scale_num_def scale_den_def)
  next
    case False
    have "(10 :: real) ^ nat (- e) = 2 ^ nat (- e) * 5 ^ nat (- e)"
      by (simp flip: power_mult_distrib)
    then have "f64_round s (m * 5 ^ nat (- e)) (10 ^ nat (- e)) = Fin s m e"
      using False by (intro f64_round_exact [OF wf m]) (simp_all add: power_int_def field_simps)
    with False 0 show ?thesis by (auto simp: dec_round_def scale_num_def scale_den_def)
  qed
next
  case (Suc fuel)
  then show ?case by (auto simp: Let_def split: if_splits)
qed

lemma fmt_dec_hd: "fmt_dec c p \<noteq> [] \<and> is_digit (hd (fmt_dec c p))"
proof -
  have "is_digit (hd (fmt_nat 10 n))" for n
    using list_all_fmt [of n] by (cases "fmt_nat 10 n") auto
  then show ?thesis by (auto simp: fmt_dec_def split: prod.splits)
qed

lemma read_float_digit:
  "is_digit (hd t) \<Longrightarrow> read_float t = read_dec False t"
  "t \<noteq> [] \<Longrightarrow> is_digit (hd t) \<Longrightarrow> read_float (CHR ''-'' # t) = read_dec True t"
  by (cases t; auto simp: read_float_def is_digit_def)+

theorem read_fmt_float: "f64_wf x \<Longrightarrow> read_float (fmt_float x) = Some x"
proof (cases x)
  case NaN
  then show ?thesis by (simp add: read_float_def)
next
  case (Infty s)
  then show ?thesis by (cases s) (simp_all add: read_float_def)
next
  case (Fin s m e)
  assume wf: "f64_wf x"
  define t where "t = (if m = 0 then ''0'' else case shortest_from 17 1 s m e of (c, p) \<Rightarrow> fmt_dec c p)"
  have "read_dec s t = Some (Fin s m e)"
  proof (cases "m = 0")
    case True
    then have "e = minExp" using wf Fin by simp
    then show ?thesis
      using True by (simp add: t_def read_dec_def is_digit_def digits_val_def digit_val_def f64_round_def)
  next
    case False
    then show ?thesis
      using wf Fin shortest_reads_back [of s m e 17 1] by (simp add: t_def read_fmt_dec split: prod.splits)
  qed
  moreover have "t \<noteq> [] \<and> is_digit (hd t)"
    using fmt_dec_hd by (auto simp: t_def is_digit_def split: prod.splits)
  moreover have "fmt_float x = (if s then ''-'' else []) @ t" by (simp add: Fin t_def)
  ultimately show ?thesis using Fin by (cases s) (simp_all add: read_float_digit)
qed

text \<open>What the printed text never holds: the separators of the line protocol.\<close>

lemma set_fmt_dec: "c \<in> set (fmt_dec d p) \<Longrightarrow> is_digit c \<or> c = CHR ''.''"
  using list_all_fmt list_all_pad
  by (auto simp: fmt_dec_def list_all_iff split: if_splits prod.splits)

lemma set_fmt_float:
  assumes "c \<in> set (fmt_float x)"
  shows "is_digit c \<or> c \<in> set ''.-+NaInf''"
proof (cases x)
  case NaN
  then show ?thesis using assms by auto
next
  case (Infty s)
  then show ?thesis using assms by (cases s) auto
next
  case (Fin s m e)
  obtain d p where "shortest_from 17 1 s m e = (d, p)" by fastforce
  then have "c = CHR ''-'' \<or> c = CHR ''0'' \<or> c \<in> set (fmt_dec d p)"
    using assms by (cases "m = 0"; cases s) (auto simp: Fin)
  then show ?thesis
    by (elim disjE) (auto simp: is_digit_def dest: set_fmt_dec)
qed

end
