(* ===== verification/SeriesKeys.thy ===== *)
theory SeriesKeys
  imports FloatFormat
begin

section \<open>Labels, series keys and events (labels.go, batch_builder.go, event.go)\<close>

text \<open>
  A series is a metric name and a label list. This theory holds the label formatting and the
  reserved-label check, the text key under which series are stored, the interface
  \<open>series_index\<close> that every keyed store relies on, and the pooled event.
\<close>

subsection \<open>Labels\<close>

definition replace_char :: "char \<Rightarrow> char" where
  "replace_char c =
     (if c \<in> {CHR ''='', CHR ''|'', CHR 0x0A, CHR 0x0D} then CHR ''_'' else c)"

definition labelReplacer :: "string \<Rightarrow> string" where
  "labelReplacer s = map replace_char s"

definition Label :: "string \<Rightarrow> string \<Rightarrow> string" where
  "Label key val = labelReplacer key @ ''='' @ labelReplacer val"

definition cloneLabels :: "string list \<Rightarrow> string list" where
  "cloneLabels labels = (if labels = [] then [] else labels)"

lemma cloneLabels_id [simp]: "cloneLabels labels = labels"
  by (simp add: cloneLabels_def)

text \<open>The loop of \<open>hasWorkloadLabel\<close>, one label at a time.\<close>

fun hasWorkloadLabel :: "string list \<Rightarrow> bool" where
  "hasWorkloadLabel [] = False"
| "hasWorkloadLabel (raw # rest) =
     (let label = trim_space raw in
      if label = [] then hasWorkloadLabel rest
      else if label = ''workload'' then True
      else (case index_byte label (CHR ''='') of
              Some idx \<Rightarrow> (if take idx label = ''workload'' then True else hasWorkloadLabel rest)
            | None \<Rightarrow> hasWorkloadLabel rest))"

text \<open>The key part of a label: the text before the first \<open>=\<close>, or the whole label.\<close>

definition label_key :: "string \<Rightarrow> string" where
  "label_key l = takeWhile (\<lambda>c. c \<noteq> CHR ''='') l"

lemma take_index_byte: "index_byte l c = Some idx \<Longrightarrow> take idx l = takeWhile (\<lambda>x. x \<noteq> c) l"
  by (auto simp: index_byte_def simp flip: takeWhile_eq_take split: if_splits)

lemma index_byte_None: "index_byte l c = None \<longleftrightarrow> c \<notin> set l"
  by (simp add: index_byte_def)

lemma label_key_whole: "CHR ''='' \<notin> set l \<Longrightarrow> label_key l = l"
  unfolding label_key_def by (rule iffD2 [OF takeWhile_eq_all_conv]) auto

lemma hasWorkloadLabel_iff:
  "hasWorkloadLabel labels \<longleftrightarrow> (\<exists>l \<in> set labels. label_key (trim_space l) = ''workload'')"
proof (induction labels)
  case (Cons raw rest)
  let ?l = "trim_space raw"
  have "(if ?l = [] then False else if ?l = ''workload'' then True
         else (case index_byte ?l (CHR ''='') of Some idx \<Rightarrow> take idx ?l = ''workload'' | None \<Rightarrow> False)) =
        (label_key ?l = ''workload'')"
    using label_key_whole [of ?l]
    by (auto simp: take_index_byte index_byte_None split: option.split)
      (auto simp: label_key_def)
  then show ?case using Cons.IH by (auto simp: Let_def split: if_splits option.splits)
qed simp

text \<open>Characters that would break a line of the protocol.\<close>

definition wire_safe :: "string \<Rightarrow> bool" where
  "wire_safe s \<longleftrightarrow> CHR ''|'' \<notin> set s \<and> CHR 0x0A \<notin> set s"

lemma labelReplacer_chars:
  "set (labelReplacer s) \<inter> {CHR ''='', CHR ''|'', CHR 0x0A, CHR 0x0D} = {}"
  by (auto simp: labelReplacer_def replace_char_def split: if_splits)

lemma Label_wire_safe: "wire_safe (Label k v)"
proof -
  have "CHR ''|'' \<notin> set (labelReplacer s) \<and> CHR 0x0A \<notin> set (labelReplacer s)" for s
    using labelReplacer_chars [of s] by blast
  then show ?thesis by (simp add: wire_safe_def Label_def)
qed

lemma label_key_Label: "label_key (Label k v) = labelReplacer k"
proof -
  have "CHR ''='' \<notin> set (labelReplacer k)" using labelReplacer_chars [of k] by blast
  from takeWhile_absent [OF this, of "labelReplacer v"] show ?thesis
    by (simp add: label_key_def Label_def)
qed

subsection \<open>Series keys\<close>

definition seriesKey :: "string \<Rightarrow> string list \<Rightarrow> string" where
  "seriesKey metric labels =
     metric @ [CHR 0x00] @ concat (map (\<lambda>l. l @ [CHR 0x00]) labels)"

fun labelsEqual :: "string list \<Rightarrow> string list \<Rightarrow> bool" where
  "labelsEqual a b = (length a = length b \<and> list_all (\<lambda>i. a ! i = b ! i) [0..<length a])"

lemma labelsEqual_iff [simp]: "labelsEqual a b \<longleftrightarrow> a = b"
  by (auto simp: list_all_iff intro: nth_equalityI)

declare labelsEqual.simps [simp del]

definition nul_free :: "string \<Rightarrow> string list \<Rightarrow> bool" where
  "nul_free metric labels \<longleftrightarrow> (\<forall>s \<in> set (metric # labels). CHR 0x00 \<notin> set s)"

text \<open>
  The interface of a keyed store of series: the key identifies the series, on the series
  that satisfy \<open>ok\<close>. Its clients are the totals cache, the dictionary and the
  unique-event set.
\<close>

locale series_index =
  fixes key :: "string \<Rightarrow> string list \<Rightarrow> 'k"
    and ok :: "string \<Rightarrow> string list \<Rightarrow> bool"
  assumes key_inj: "ok m ls \<Longrightarrow> ok m' ls' \<Longrightarrow> key m ls = key m' ls' \<Longrightarrow> m = m' \<and> ls = ls'"
begin

lemma key_eq_iff: "ok m ls \<Longrightarrow> ok m' ls' \<Longrightarrow> key m ls = key m' ls' \<longleftrightarrow> m = m' \<and> ls = ls'"
  using key_inj by blast

lemma lookup_update:
  "ok m ls \<Longrightarrow> ok m' ls' \<Longrightarrow>
   map_of (AList.update (key m ls) v al) (key m' ls') =
     (if m = m' \<and> ls = ls' then Some v else map_of al (key m' ls'))"
  by (cases "m = m' \<and> ls = ls'") (auto simp: key_eq_iff)

end

lemma seriesKey_split:
  "nul_free metric labels \<Longrightarrow> split_on (CHR 0x00) (seriesKey metric labels) = metric # labels @ [[]]"
  using split_on_concat [of "metric # labels" "CHR 0x00"]
  by (simp add: seriesKey_def nul_free_def)

interpretation sk: series_index seriesKey nul_free
proof
  fix m ls m' ls'
  assume "nul_free m ls" "nul_free m' ls'" "seriesKey m ls = seriesKey m' ls'"
  then have "m # ls @ [[]] = m' # ls' @ [[]]" by (metis seriesKey_split)
  then show "m = m' \<and> ls = ls'" by simp
qed

subsection \<open>Events and their pool\<close>

datatype metricType = MtNone | MtCounter | MtValue | MtTotal | MtUnique

record event =
  etyp :: metricType
  ename :: string
  evalue :: f64
  uniqueID :: string
  elabels :: "string list"
  ets :: int  \<comment> \<open>nanoseconds since the epoch\<close>

definition new_event :: event where
  "new_event = \<lparr>etyp = MtNone, ename = [], evalue = 0, uniqueID = [], elabels = [], ets = 0\<rparr>"

text \<open>\<open>time.Time.Unix\<close>: whole seconds, rounded down.\<close>

definition unix_sec :: "int \<Rightarrow> int" where
  "unix_sec ns = ns div 1000000000"

fun trim_labels :: "string list \<Rightarrow> string list" where
  "trim_labels [] = []"
| "trim_labels (l # ls) =
     (let trimmed = trim_space l in if trimmed \<noteq> [] then trimmed # trim_labels ls else trim_labels ls)"

text \<open>\<open>e\<close> is what the pool returned: a new event or any released one.\<close>

definition borrowEvent ::
  "event \<Rightarrow> metricType \<Rightarrow> string \<Rightarrow> f64 \<Rightarrow> string list \<Rightarrow> int \<Rightarrow> event" where
  "borrowEvent e t name value labels now =
     e\<lparr>etyp := t, ename := name, evalue := value, elabels := trim_labels labels, ets := now\<rparr>"

definition borrowUniqueEvent ::
  "event \<Rightarrow> string \<Rightarrow> string \<Rightarrow> string list \<Rightarrow> int \<Rightarrow> event" where
  "borrowUniqueEvent e name uid labels now =
     (borrowEvent e MtUnique name 0 labels now)\<lparr>uniqueID := uid\<rparr>"

definition releaseEvent :: "event \<Rightarrow> event" where
  "releaseEvent e = e\<lparr>etyp := MtNone, ename := [], evalue := 0, uniqueID := [], elabels := []\<rparr>"

text \<open>Nothing of a released event shows in the events built from it.\<close>

lemma borrow_released:
  "borrowEvent (releaseEvent e) t name value labels now = borrowEvent new_event t name value labels now"
  "borrowUniqueEvent (releaseEvent e) name uid labels now = borrowUniqueEvent new_event name uid labels now"
  by (simp_all add: borrowEvent_def borrowUniqueEvent_def releaseEvent_def new_event_def)

lemma trim_labels_set: "l \<in> set (trim_labels ls) \<longleftrightarrow> l \<noteq> [] \<and> (\<exists>r \<in> set ls. l = trim_space r)"
  by (induction ls) (auto simp: Let_def)

lemma trim_labels_no_workload:
  "\<not> hasWorkloadLabel labels \<Longrightarrow> l \<in> set (trim_labels labels) \<Longrightarrow> label_key l \<noteq> ''workload''"
  by (auto simp: hasWorkloadLabel_iff trim_labels_set)

lemma trim_labels_not_Nil: "[] \<notin> set (trim_labels labels)"
  by (simp add: trim_labels_set)

end
