(* ===== verification/Batch.thy ===== *)
theory Batch
  imports SeriesKeys
begin

section \<open>The batch builder (batch_builder.go)\<close>

text \<open>
  A batch of events becomes one payload: counters of the same series are summed, value samples
  are forwarded, unique occurrences are deduplicated. The counter table is a hash map with
  collision chains threaded through \<open>counterEntries\<close>: \<open>counterAggs\<close> holds the index of the
  newest entry of a hash plus one (0 for none), \<open>aNext\<close> the same for the next entry. The hash
  (a seeded maphash) is a parameter; nothing is assumed of it.
\<close>

record counterEvent =
  cMetric :: string
  cValue :: f64
  cLabels :: "string list"
  cTs :: int

record valueEvent =
  vMetric :: string
  vValue :: f64
  vLabels :: "string list"
  vTs :: int

record uniqueEvent =
  uMetric :: string
  uUniqueID :: string
  uLabels :: "string list"
  uTs :: int

record payload =
  batchID :: string
  pCounters :: "counterEvent list"
  pValues :: "valueEvent list"
  pUniques :: "uniqueEvent list"

definition payload_empty :: "payload \<Rightarrow> bool" where
  "payload_empty p \<longleftrightarrow> length (pCounters p) = 0 \<and> length (pValues p) = 0 \<and> length (pUniques p) = 0"

definition defaultMaxSeriesPerBatch :: nat where
  "defaultMaxSeriesPerBatch = 2048"

record counterAggEntry =
  aMetric :: string
  aLabels :: "string list"
  payloadIndex :: nat
  aNext :: nat

record batchBuilder =
  bPayload :: payload
  counterAggs :: "(u64 \<times> nat) list"
  counterEntries :: "counterAggEntry list"
  uniqueSeen :: "string list"

definition newBatchBuilder :: batchBuilder where
  "newBatchBuilder =
     \<lparr>bPayload = \<lparr>batchID = [], pCounters = [], pValues = [], pUniques = []\<rparr>,
      counterAggs = [], counterEntries = [], uniqueSeen = []\<rparr>"

definition agg_head :: "(u64 \<times> nat) list \<Rightarrow> u64 \<Rightarrow> nat" where
  "agg_head aggs h = (case map_of aggs h of None \<Rightarrow> 0 | Some i \<Rightarrow> i)"

text \<open>
  The search loop over a chain: \<open>Stuck\<close> is an index out of range (a panic) or a loop that
  does not end (the fuel, the number of entries, runs out).
\<close>

datatype chain_result = Found nat | Absent | Stuck

fun chain_find :: "nat \<Rightarrow> counterAggEntry list \<Rightarrow> string \<Rightarrow> string list \<Rightarrow> nat \<Rightarrow> chain_result" where
  "chain_find fuel entries m ls 0 = Absent"
| "chain_find 0 entries m ls (Suc idx) = Stuck"
| "chain_find (Suc fuel) entries m ls (Suc idx) =
     (if length entries \<le> idx then Stuck
      else let entry = entries ! idx in
        if aMetric entry \<noteq> m \<or> \<not> labelsEqual (aLabels entry) ls
        then chain_find fuel entries m ls (aNext entry)
        else Found (payloadIndex entry))"

definition event_counter :: "event \<Rightarrow> counterEvent" where
  "event_counter e =
     \<lparr>cMetric = ename e, cValue = evalue e, cLabels = cloneLabels (elabels e), cTs = unix_sec (ets e)\<rparr>"

definition agg_add :: "counterEvent \<Rightarrow> event \<Rightarrow> counterEvent" where
  "agg_add agg e =
     (let agg = agg\<lparr>cValue := cValue agg + evalue e\<rparr>; ts = unix_sec (ets e) in
      if ts > cTs agg then agg\<lparr>cTs := ts\<rparr> else agg)"

definition push_counter :: "event \<Rightarrow> batchBuilder \<Rightarrow> batchBuilder" where
  "push_counter e b =
     b\<lparr>bPayload := (bPayload b)\<lparr>pCounters := pCounters (bPayload b) @ [event_counter e]\<rparr>\<rparr>"

definition addCounter ::
  "(string \<Rightarrow> string list \<Rightarrow> u64) \<Rightarrow> event \<Rightarrow> batchBuilder \<Rightarrow> batchBuilder option" where
  "addCounter seriesHash e b =
     (let hash = seriesHash (ename e) (elabels e);
          entries = counterEntries b; counters = pCounters (bPayload b) in
      case chain_find (length entries) entries (ename e) (elabels e) (agg_head (counterAggs b) hash) of
        Stuck \<Rightarrow> None
      | Found i \<Rightarrow>
          (if length counters \<le> i then None
           else Some (b\<lparr>bPayload := (bPayload b)
                  \<lparr>pCounters := counters[i := agg_add (counters ! i) e]\<rparr>\<rparr>))
      | Absent \<Rightarrow>
          (if defaultMaxSeriesPerBatch \<le> length entries then Some (push_counter e b)
           else Some ((push_counter e b)
                  \<lparr>counterEntries := entries @
                     [\<lparr>aMetric = ename e, aLabels = cloneLabels (elabels e),
                       payloadIndex = length counters, aNext = agg_head (counterAggs b) hash\<rparr>],
                   counterAggs := AList.update hash (Suc (length entries)) (counterAggs b)\<rparr>)))"

definition uniqueKey :: "event \<Rightarrow> string" where
  "uniqueKey e = seriesKey (ename e) (elabels e) @ [CHR 0x01] @ uniqueID e"

definition addUnique :: "event \<Rightarrow> batchBuilder \<Rightarrow> batchBuilder" where
  "addUnique e b =
     (if uniqueID e = [] then b
      else let k = uniqueKey e in
        if k \<in> set (uniqueSeen b) then b
        else b\<lparr>uniqueSeen := k # uniqueSeen b,
               bPayload := (bPayload b)\<lparr>pUniques := pUniques (bPayload b) @
                 [\<lparr>uMetric = ename e, uUniqueID = uniqueID e, uLabels = cloneLabels (elabels e),
                   uTs = unix_sec (ets e)\<rparr>]\<rparr>\<rparr>)"

definition addValue :: "event \<Rightarrow> batchBuilder \<Rightarrow> batchBuilder" where
  "addValue e b =
     b\<lparr>bPayload := (bPayload b)\<lparr>pValues := pValues (bPayload b) @
       [\<lparr>vMetric = ename e, vValue = evalue e, vLabels = cloneLabels (elabels e),
         vTs = unix_sec (ets e)\<rparr>]\<rparr>\<rparr>"

definition add_event ::
  "(string \<Rightarrow> string list \<Rightarrow> u64) \<Rightarrow> event \<Rightarrow> batchBuilder \<Rightarrow> batchBuilder option" where
  "add_event seriesHash e b =
     (case etyp e of
        MtCounter \<Rightarrow> addCounter seriesHash e b
      | MtValue \<Rightarrow> Some (addValue e b)
      | MtUnique \<Rightarrow> Some (addUnique e b)
      | _ \<Rightarrow> Some b)"

fun add_events ::
  "(string \<Rightarrow> string list \<Rightarrow> u64) \<Rightarrow> event list \<Rightarrow> batchBuilder \<Rightarrow> batchBuilder option" where
  "add_events seriesHash [] b = Some b"
| "add_events seriesHash (e # es) b =
     (case add_event seriesHash e b of None \<Rightarrow> None | Some b' \<Rightarrow> add_events seriesHash es b')"

definition build :: "batchBuilder \<Rightarrow> payload option" where
  "build b = (if payload_empty (bPayload b) then None else Some (bPayload b))"

subsection \<open>The chains always lead to the entry of a series\<close>

definition wf_builder :: "(string \<Rightarrow> string list \<Rightarrow> u64) \<Rightarrow> batchBuilder \<Rightarrow> bool" where
  "wf_builder seriesHash b \<longleftrightarrow>
     (let entries = counterEntries b; counters = pCounters (bPayload b) in
      (\<forall>i < length entries. aNext (entries ! i) \<le> i \<and>
         payloadIndex (entries ! i) < length counters \<and>
         cMetric (counters ! payloadIndex (entries ! i)) = aMetric (entries ! i) \<and>
         cLabels (counters ! payloadIndex (entries ! i)) = aLabels (entries ! i) \<and>
         chain_find (length entries) entries (aMetric (entries ! i)) (aLabels (entries ! i))
           (agg_head (counterAggs b) (seriesHash (aMetric (entries ! i)) (aLabels (entries ! i)))) =
           Found (payloadIndex (entries ! i))) \<and>
      (\<forall>h. agg_head (counterAggs b) h \<le> length entries))"

lemma wf_newBatchBuilder [simp]: "wf_builder seriesHash newBatchBuilder"
  by (simp add: wf_builder_def newBatchBuilder_def agg_head_def)

definition chained :: "counterAggEntry list \<Rightarrow> bool" where
  "chained entries \<longleftrightarrow> (\<forall>i < length entries. aNext (entries ! i) \<le> i)"

lemma chain_find_cases:
  assumes "chained entries" and "n \<le> length entries" and "n \<le> fuel"
  shows "chain_find fuel entries m ls n = Absent \<or>
    (\<exists>i < length entries. aMetric (entries ! i) = m \<and> aLabels (entries ! i) = ls \<and>
       chain_find fuel entries m ls n = Found (payloadIndex (entries ! i)))"
  using assms
proof (induction fuel entries m ls n rule: chain_find.induct)
  case (3 fuel entries m ls idx)
  then have nx: "aNext (entries ! idx) \<le> idx" by (simp add: chained_def)
  show ?case
  proof (cases "aMetric (entries ! idx) = m \<and> aLabels (entries ! idx) = ls")
    case True
    then show ?thesis using "3.prems" by (intro disjI2 exI [of _ idx]) simp
  next
    case False
    then have eq: "chain_find (Suc fuel) entries m ls (Suc idx) =
        chain_find fuel entries m ls (aNext (entries ! idx))"
      using "3.prems" by auto
    have "\<not> length entries \<le> idx" using "3.prems" by simp
    from "3.IH" [OF this refl] show ?thesis
      unfolding eq using False "3.prems" nx by simp
  qed
qed auto

lemma chain_find_fuel:
  assumes "chained entries" and "n \<le> length entries" and "n \<le> fuel" and "n \<le> fuel'"
  shows "chain_find fuel entries m ls n = chain_find fuel' entries m ls n"
  using assms
proof (induction fuel entries m ls n arbitrary: fuel' rule: chain_find.induct)
  case (3 fuel entries m ls idx)
  then have nx: "aNext (entries ! idx) \<le> idx" by (simp add: chained_def)
  obtain f where f: "fuel' = Suc f" using 3 by (cases fuel') auto
  have idx: "\<not> length entries \<le> idx" using "3.prems" by simp
  show ?case
  proof (cases "aMetric (entries ! idx) = m \<and> aLabels (entries ! idx) = ls")
    case True
    then show ?thesis by (simp add: f)
  next
    case False
    then have "chain_find fuel entries m ls (aNext (entries ! idx)) =
        chain_find f entries m ls (aNext (entries ! idx))"
      using "3.prems" nx f by (intro "3.IH" [OF idx refl]) auto
    then show ?thesis by (simp add: f Let_def)
  qed
qed auto

lemma chain_find_append:
  assumes "chained entries" and "n \<le> length entries"
  shows "chain_find fuel (entries @ [x]) m ls n = chain_find fuel entries m ls n"
  using assms
proof (induction fuel entries m ls n rule: chain_find.induct)
  case (3 fuel entries m ls idx)
  then have "aNext (entries ! idx) \<le> idx" by (simp add: chained_def)
  with 3 show ?case by (auto simp: Let_def nth_append)
qed auto

declare chain_find.simps(3) [simp del]

subsection \<open>Refinement: any hash behaves like the search through the registered entries\<close>

text \<open>
  The reference: the counters of the payload and the positions that still aggregate, searched
  from the front, with no hash and no chain.
\<close>

definition same_series :: "counterEvent \<Rightarrow> event \<Rightarrow> bool" where
  "same_series c e \<longleftrightarrow> cMetric c = ename e \<and> cLabels c = elabels e"

definition ref_addCounter ::
  "event \<Rightarrow> counterEvent list \<times> nat list \<Rightarrow> counterEvent list \<times> nat list" where
  "ref_addCounter e = (\<lambda>(cs, regs).
     case find (\<lambda>p. same_series (cs ! p) e) regs of
       Some p \<Rightarrow> (cs[p := agg_add (cs ! p) e], regs)
     | None \<Rightarrow>
         (cs @ [event_counter e],
          if defaultMaxSeriesPerBatch \<le> length regs then regs else regs @ [length cs]))"

definition abs_counters :: "batchBuilder \<Rightarrow> counterEvent list \<times> nat list" where
  "abs_counters b = (pCounters (bPayload b), map payloadIndex (counterEntries b))"

lemma agg_head_update:
  "agg_head (AList.update h v aggs) h' = (if h' = h then v else agg_head aggs h')"
  by (cases "h' = h") (auto simp: agg_head_def)

lemma agg_add_series [simp]:
  "cMetric (agg_add c e) = cMetric c" "cLabels (agg_add c e) = cLabels c"
  by (simp_all add: agg_add_def Let_def)

lemma event_counter_series [simp]:
  "cMetric (event_counter e) = ename e" "cLabels (event_counter e) = elabels e"
  "cValue (event_counter e) = evalue e" "cTs (event_counter e) = unix_sec (ets e)"
  by (simp_all add: event_counter_def)

lemma wf_builder_chained: "wf_builder seriesHash b \<Longrightarrow> chained (counterEntries b)"
  by (simp add: wf_builder_def chained_def Let_def)

lemma addCounter_absent:
  assumes wf: "wf_builder seriesHash b"
    and absent: "chain_find (length (counterEntries b)) (counterEntries b) (ename e) (elabels e)
      (agg_head (counterAggs b) (seriesHash (ename e) (elabels e))) = Absent"
    and i: "i < length (counterEntries b)"
  shows "\<not> same_series (pCounters (bPayload b) ! payloadIndex (counterEntries b ! i)) e"
proof
  let ?en = "counterEntries b ! i"
  assume "same_series (pCounters (bPayload b) ! payloadIndex ?en) e"
  then have "aMetric ?en = ename e" and "aLabels ?en = elabels e"
    using wf i by (simp_all add: wf_builder_def Let_def same_series_def)
  then have "chain_find (length (counterEntries b)) (counterEntries b) (ename e) (elabels e)
      (agg_head (counterAggs b) (seriesHash (ename e) (elabels e))) = Found (payloadIndex ?en)"
    using wf i by (simp add: wf_builder_def Let_def) metis
  with absent show False by simp
qed

lemma addCounter_found:
  assumes wf: "wf_builder seriesHash b"
    and found: "chain_find (length (counterEntries b)) (counterEntries b) (ename e) (elabels e)
      (agg_head (counterAggs b) (seriesHash (ename e) (elabels e))) = Found p"
  shows "p < length (pCounters (bPayload b))"
    and "find (\<lambda>q. same_series (pCounters (bPayload b) ! q) e) (map payloadIndex (counterEntries b)) = Some p"
proof -
  let ?es = "counterEntries b" and ?cs = "pCounters (bPayload b)"
  let ?r = "chain_find (length ?es) ?es (ename e) (elabels e)
      (agg_head (counterAggs b) (seriesHash (ename e) (elabels e)))"
  have le: "agg_head (counterAggs b) h \<le> length ?es" for h
    using wf by (simp add: wf_builder_def Let_def)
  have "?r = Absent \<or> (\<exists>i < length ?es. aMetric (?es ! i) = ename e \<and>
      aLabels (?es ! i) = elabels e \<and> ?r = Found (payloadIndex (?es ! i)))"
    by (rule chain_find_cases [OF wf_builder_chained [OF wf] le le])
  then obtain i where i: "i < length ?es" "aMetric (?es ! i) = ename e" "aLabels (?es ! i) = elabels e"
      "p = payloadIndex (?es ! i)"
    using found by auto
  show "p < length ?cs" using wf i by (simp add: wf_builder_def Let_def)
  have same: "same_series (?cs ! payloadIndex (?es ! j)) e \<longrightarrow> payloadIndex (?es ! j) = p"
    if "j < length ?es" for j
  proof
    assume "same_series (?cs ! payloadIndex (?es ! j)) e"
    then have "aMetric (?es ! j) = ename e" "aLabels (?es ! j) = elabels e"
      using wf that by (simp_all add: wf_builder_def Let_def same_series_def)
    then show "payloadIndex (?es ! j) = p"
      using wf that found by (simp add: wf_builder_def Let_def) (metis chain_result.inject)
  qed
  have "same_series (?cs ! p) e" using wf i by (simp add: wf_builder_def Let_def same_series_def)
  then have "find (\<lambda>q. same_series (?cs ! q) e) (map payloadIndex ?es) \<noteq> None"
    using i by (auto simp: find_None_iff)
  then obtain q where q: "find (\<lambda>q. same_series (?cs ! q) e) (map payloadIndex ?es) = Some q" by auto
  then obtain j where "j < length ?es" "q = payloadIndex (?es ! j)" "same_series (?cs ! q) e"
    by (auto simp: find_Some_iff)
  with q same show "find (\<lambda>q. same_series (?cs ! q) e) (map payloadIndex ?es) = Some p" by auto
qed

lemma wf_update_counter:
  "wf_builder seriesHash b \<Longrightarrow> p < length (pCounters (bPayload b)) \<Longrightarrow>
   wf_builder seriesHash (b\<lparr>bPayload := (bPayload b)
     \<lparr>pCounters := (pCounters (bPayload b))[p := agg_add (pCounters (bPayload b) ! p) e]\<rparr>\<rparr>)"
  by (auto simp: wf_builder_def Let_def nth_list_update)

lemma wf_push_counter: "wf_builder seriesHash b \<Longrightarrow> wf_builder seriesHash (push_counter e b)"
  by (auto simp: wf_builder_def Let_def push_counter_def nth_append)

lemma wf_register:
  assumes wf: "wf_builder seriesHash b"
    and absent: "chain_find (length (counterEntries b)) (counterEntries b) (ename e) (elabels e)
      (agg_head (counterAggs b) (seriesHash (ename e) (elabels e))) = Absent"
  shows "wf_builder seriesHash ((push_counter e b)
     \<lparr>counterEntries := counterEntries b @
        [\<lparr>aMetric = ename e, aLabels = cloneLabels (elabels e),
          payloadIndex = length (pCounters (bPayload b)),
          aNext = agg_head (counterAggs b) (seriesHash (ename e) (elabels e))\<rparr>],
      counterAggs := AList.update (seriesHash (ename e) (elabels e))
        (Suc (length (counterEntries b))) (counterAggs b)\<rparr>)"
    (is "wf_builder seriesHash ?b'")
proof -
  let ?es = "counterEntries b" and ?cs = "pCounters (bPayload b)" and ?h = "seriesHash (ename e) (elabels e)"
  let ?x = "\<lparr>aMetric = ename e, aLabels = elabels e, payloadIndex = length ?cs, aNext = agg_head (counterAggs b) ?h\<rparr>"
  have le: "agg_head (counterAggs b) h \<le> length ?es" for h
    using wf by (simp add: wf_builder_def Let_def)
  note ch = wf_builder_chained [OF wf]
  have old: "chain_find (Suc (length ?es)) (?es @ [?x]) m ls (agg_head (counterAggs b) h) =
      chain_find (length ?es) ?es m ls (agg_head (counterAggs b) h)" for m ls h
    using chain_find_append [OF ch le] chain_find_fuel [OF ch le, of h "Suc (length ?es)" "length ?es"]
      le [of h] by (simp add: le_SucI)
  have keep: "chain_find (Suc (length ?es)) (?es @ [?x]) (aMetric en) (aLabels en)
      (agg_head (AList.update ?h (Suc (length ?es)) (counterAggs b)) (seriesHash (aMetric en) (aLabels en)))
      = Found (payloadIndex en)"
    if "en = ?es ! i" "i < length ?es" for en i
  proof -
    have f: "chain_find (length ?es) ?es (aMetric en) (aLabels en)
        (agg_head (counterAggs b) (seriesHash (aMetric en) (aLabels en))) = Found (payloadIndex en)"
      using wf that by (simp add: wf_builder_def Let_def)
    show ?thesis
    proof (cases "seriesHash (aMetric en) (aLabels en) = ?h")
      case True
      have "aMetric en \<noteq> ename e \<or> aLabels en \<noteq> elabels e" using f absent by auto
      then show ?thesis
        using f True chain_find_append [OF ch le] by (auto simp: agg_head_update chain_find.simps(3))
    next
      case False
      then show ?thesis using f old by (simp add: agg_head_update)
    qed
  qed
  have new: "chain_find (Suc (length ?es)) (?es @ [?x]) (ename e) (elabels e)
      (agg_head (AList.update ?h (Suc (length ?es)) (counterAggs b)) ?h) = Found (length ?cs)"
    by (simp add: agg_head_update chain_find.simps)
  have bound: "agg_head (AList.update ?h (Suc (length ?es)) (counterAggs b)) h \<le> Suc (length ?es)" for h
    by (simp add: agg_head_update le le_SucI)
  show ?thesis
    using wf le keep [OF refl] new bound
    by (auto simp: wf_builder_def Let_def push_counter_def nth_append less_Suc_eq)
qed

lemma addCounter_refines_lemma:
  assumes wf: "wf_builder seriesHash b"
  shows "\<exists>b'. addCounter seriesHash e b = Some b' \<and> wf_builder seriesHash b' \<and>
    abs_counters b' = ref_addCounter e (abs_counters b)"
proof -
  let ?es = "counterEntries b" and ?cs = "pCounters (bPayload b)"
  let ?r = "chain_find (length ?es) ?es (ename e) (elabels e)
      (agg_head (counterAggs b) (seriesHash (ename e) (elabels e)))"
  show ?thesis
  proof (cases ?r)
    case (Found p)
    then show ?thesis
      using addCounter_found [OF wf Found] wf_update_counter [OF wf]
      by (simp add: addCounter_def Let_def abs_counters_def ref_addCounter_def)
  next
    case Absent
    have "find (\<lambda>q. same_series (?cs ! q) e) (map payloadIndex ?es) = None"
      using addCounter_absent [OF wf Absent] by (auto simp: find_None_iff in_set_conv_nth)
    then show ?thesis
      using Absent wf_register [OF wf Absent] wf_push_counter [OF wf]
      by (simp add: addCounter_def Let_def abs_counters_def ref_addCounter_def push_counter_def)
  next
    case Stuck
    have le: "agg_head (counterAggs b) h \<le> length ?es" for h
      using wf by (simp add: wf_builder_def Let_def)
    have "?r = Absent \<or> (\<exists>i < length ?es. aMetric (?es ! i) = ename e \<and>
        aLabels (?es ! i) = elabels e \<and> ?r = Found (payloadIndex (?es ! i)))"
      by (rule chain_find_cases [OF wf_builder_chained [OF wf] le le])
    with Stuck show ?thesis by simp
  qed
qed

subsection \<open>What a batch contains\<close>

text \<open>The first occurrences in a list, in order.\<close>

definition first_occ :: "'a list \<Rightarrow> 'a list" where
  "first_occ xs = rev (remdups (rev xs))"

lemma first_occ_simps [simp]:
  "first_occ [] = []"
  "first_occ (xs @ [x]) = (if x \<in> set xs then first_occ xs else first_occ xs @ [x])"
  by (simp_all add: first_occ_def)

lemma first_occ_props [simp]:
  "set (first_occ xs) = set xs" "distinct (first_occ xs)" "length (first_occ xs) \<le> length xs"
  using length_remdups_leq [of "rev xs"] by (simp_all add: first_occ_def)

definition series_of :: "event \<Rightarrow> string \<times> string list" where
  "series_of e = (ename e, elabels e)"

text \<open>
  The specification: one counter per series, in the order of the first event of each series,
  with the sum of its deltas in order and the latest second.
\<close>

definition agg_series :: "event list \<Rightarrow> string \<times> string list \<Rightarrow> counterEvent" where
  "agg_series es s =
     (let es' = filter (\<lambda>e. series_of e = s) es in
      foldl agg_add (event_counter (hd es')) (tl es'))"

definition spec_counters :: "event list \<Rightarrow> counterEvent list" where
  "spec_counters es = map (agg_series es) (first_occ (map series_of es))"

lemma foldl_agg_series [simp]:
  "cMetric (foldl agg_add c es) = cMetric c" "cLabels (foldl agg_add c es) = cLabels c"
  by (induction es arbitrary: c) auto

lemma agg_series_series:
  assumes "s \<in> series_of ` set es"
  shows "(cMetric (agg_series es s), cLabels (agg_series es s)) = s"
proof -
  have "filter (\<lambda>e. series_of e = s) es \<noteq> []" using assms by (auto simp: filter_empty_conv)
  then have "hd (filter (\<lambda>e. series_of e = s) es) \<in> set (filter (\<lambda>e. series_of e = s) es)"
    by (rule hd_in_set)
  then show ?thesis by (auto simp: agg_series_def Let_def series_of_def)
qed

lemma agg_series_snoc:
  "agg_series (es @ [e]) s =
     (if series_of e \<noteq> s then agg_series es s
      else if s \<in> series_of ` set es then agg_add (agg_series es s) e
      else event_counter e)"
proof (cases "filter (\<lambda>e. series_of e = s) es")
  case Nil
  then have "s \<notin> series_of ` set es" by (auto simp: filter_empty_conv)
  with Nil show ?thesis by (simp add: agg_series_def)
next
  case (Cons x xs)
  then have "x \<in> set es" "series_of x = s" by (auto simp: filter_eq_Cons_iff)
  then have "s \<in> series_of ` set es" by blast
  with Cons show ?thesis by (simp add: agg_series_def)
qed

lemma find_SomeD: "find P xs = Some x \<Longrightarrow> P x \<and> x \<in> set xs"
  by (induction xs) (auto split: if_splits)

lemma find_upt_unique:
  assumes "p < n" and "P p" and "\<And>q. q < n \<Longrightarrow> P q \<Longrightarrow> q = p"
  shows "find P [0..<n] = Some p"
proof -
  have "find P [0..<n] \<noteq> None" using assms(1,2) by (simp add: find_None_iff) blast
  then obtain q where q: "find P [0..<n] = Some q" by blast
  from find_SomeD [OF q] assms(3) have "q = p" by simp
  with q show ?thesis by simp
qed

lemma map_update_distinct:
  assumes "distinct xs" and "p < length xs" and "\<And>x. x \<in> set xs \<Longrightarrow> x \<noteq> xs ! p \<Longrightarrow> g x = f x"
  shows "(map f xs)[p := g (xs ! p)] = map g xs"
proof (rule nth_equalityI)
  fix i assume i: "i < length ((map f xs)[p := g (xs ! p)])"
  show "(map f xs)[p := g (xs ! p)] ! i = map g xs ! i"
  proof (cases "i = p")
    case True
    with assms(2) show ?thesis by simp
  next
    case False
    with i assms(1,2) have "xs ! i \<noteq> xs ! p" by (simp add: nth_eq_iff_index_eq)
    with i False assms(3) [of "xs ! i"] show ?thesis by simp
  qed
qed simp

lemma length_spec_counters: "length (spec_counters es) = length (first_occ (map series_of es))"
  by (simp add: spec_counters_def)

lemma spec_counters_nth:
  assumes "q < length (first_occ (map series_of es))"
  shows "same_series (spec_counters es ! q) e \<longleftrightarrow> first_occ (map series_of es) ! q = series_of e"
proof -
  have "first_occ (map series_of es) ! q \<in> series_of ` set es" using nth_mem [OF assms] by simp
  from agg_series_series [OF this] show ?thesis
    using assms by (auto simp: spec_counters_def same_series_def series_of_def)
qed

lemma spec_counters_old:
  assumes "series_of e \<in> series_of ` set es" and "p < length (first_occ (map series_of es))"
    and "first_occ (map series_of es) ! p = series_of e"
  shows "(spec_counters es)[p := agg_add (spec_counters es ! p) e] = spec_counters (es @ [e])"
proof -
  let ?fo = "first_occ (map series_of es)"
  have new: "spec_counters (es @ [e]) = map (agg_series (es @ [e])) ?fo"
    using assms(1) by (simp add: spec_counters_def)
  have "agg_add (spec_counters es ! p) e = agg_series (es @ [e]) (?fo ! p)"
    using assms by (simp add: spec_counters_def agg_series_snoc)
  moreover have "(map (agg_series es) ?fo)[p := agg_series (es @ [e]) (?fo ! p)] = map (agg_series (es @ [e])) ?fo"
    using assms(2,3) by (intro map_update_distinct) (simp_all add: agg_series_snoc)
  ultimately show ?thesis unfolding new by (simp add: spec_counters_def)
qed

lemma spec_counters_new:
  assumes "series_of e \<notin> series_of ` set es"
  shows "spec_counters (es @ [e]) = spec_counters es @ [event_counter e]"
proof -
  have "agg_series (es @ [e]) s = agg_series es s" if "s \<in> set (first_occ (map series_of es))" for s
    using that assms by (auto simp: agg_series_snoc)
  then show ?thesis using assms by (simp add: spec_counters_def agg_series_snoc)
qed

lemma spec_counters_snoc:
  assumes "length es < defaultMaxSeriesPerBatch"
  shows "ref_addCounter e (spec_counters es, [0..<length (spec_counters es)]) =
    (spec_counters (es @ [e]), [0..<length (spec_counters (es @ [e]))])"
proof -
  let ?fo = "first_occ (map series_of es)" and ?cs = "spec_counters es"
  show ?thesis
  proof (cases "series_of e \<in> series_of ` set es")
    case True
    then have "series_of e \<in> set ?fo" by simp
    then obtain p where p: "p < length ?fo" "?fo ! p = series_of e"
      by (meson in_set_conv_nth)
    have uniq: "q = p" if "q < length ?fo" "?fo ! q = series_of e" for q
      using that p nth_eq_iff_index_eq [OF first_occ_props(2), of q "map series_of es" p] by simp
    have "find (\<lambda>q. same_series (?cs ! q) e) [0..<length ?fo] = Some p"
      by (rule find_upt_unique [OF p(1)]) (simp_all add: spec_counters_nth p uniq)
    moreover have "length (spec_counters (es @ [e])) = length ?cs"
      using spec_counters_old [OF True p] by (metis length_list_update)
    ultimately show ?thesis
      by (simp add: ref_addCounter_def spec_counters_old [OF True p] flip: length_spec_counters)
  next
    case False
    have "?fo ! q \<noteq> series_of e" if "q < length ?fo" for q
      using nth_mem [OF that] False by auto
    then have "find (\<lambda>q. same_series (?cs ! q) e) [0..<length ?fo] = None"
      by (simp add: find_None_iff spec_counters_nth)
    moreover have "length ?fo < defaultMaxSeriesPerBatch"
      using assms first_occ_props(3) [of "map series_of es"] by simp
    ultimately show ?thesis
      by (simp add: ref_addCounter_def spec_counters_new [OF False] flip: length_spec_counters)
  qed
qed

lemma ref_fold_spec:
  "length es \<le> defaultMaxSeriesPerBatch \<Longrightarrow>
   fold ref_addCounter es ([], []) = (spec_counters es, [0..<length (spec_counters es)])"
proof (induction es rule: rev_induct)
  case Nil
  then show ?case by (simp add: spec_counters_def)
next
  case (snoc e es)
  then show ?case by (simp add: spec_counters_snoc)
qed

definition event_value :: "event \<Rightarrow> valueEvent" where
  "event_value e = \<lparr>vMetric = ename e, vValue = evalue e, vLabels = elabels e, vTs = unix_sec (ets e)\<rparr>"

definition event_unique :: "event \<Rightarrow> uniqueEvent" where
  "event_unique e =
     \<lparr>uMetric = ename e, uUniqueID = uniqueID e, uLabels = elabels e, uTs = unix_sec (ets e)\<rparr>"

text \<open>Keep the first element of each value of \<open>f\<close>.\<close>

fun dedup_on :: "('a \<Rightarrow> 'b) \<Rightarrow> 'b list \<Rightarrow> 'a list \<Rightarrow> 'a list" where
  "dedup_on f seen [] = []"
| "dedup_on f seen (x # xs) =
     (if f x \<in> set seen then dedup_on f seen xs else x # dedup_on f (f x # seen) xs)"

lemma dedup_on_cong:
  assumes "\<And>x y. x \<in> A \<Longrightarrow> y \<in> A \<Longrightarrow> f x = f y \<longleftrightarrow> g x = g y"
  shows "set xs \<subseteq> A \<Longrightarrow> set ys \<subseteq> A \<Longrightarrow> dedup_on f (map f ys) xs = dedup_on g (map g ys) xs"
proof (induction xs arbitrary: ys)
  case (Cons x xs)
  have "f x = f y \<longleftrightarrow> g x = g y" if "y \<in> set ys" for y
    using assms [of x y] that Cons.prems by auto
  then have "f x \<in> set (map f ys) \<longleftrightarrow> g x \<in> set (map g ys)" by (auto simp: image_iff)
  moreover have "dedup_on f (map f ys) xs = dedup_on g (map g ys) xs"
    and "dedup_on f (f x # map f ys) xs = dedup_on g (g x # map g ys) xs"
    using Cons.IH [of ys] Cons.IH [of "x # ys"] Cons.prems by simp_all
  ultimately show ?case by simp
qed simp

definition counters_of :: "event list \<Rightarrow> event list" where
  "counters_of es = filter (\<lambda>e. etyp e = MtCounter) es"

definition values_of :: "event list \<Rightarrow> event list" where
  "values_of es = filter (\<lambda>e. etyp e = MtValue) es"

definition uniques_of :: "event list \<Rightarrow> event list" where
  "uniques_of es = filter (\<lambda>e. etyp e = MtUnique \<and> uniqueID e \<noteq> []) es"

lemma wf_builder_cong:
  "pCounters (bPayload b') = pCounters (bPayload b) \<Longrightarrow> counterEntries b' = counterEntries b \<Longrightarrow>
   counterAggs b' = counterAggs b \<Longrightarrow> wf_builder seriesHash b' = wf_builder seriesHash b"
  by (simp add: wf_builder_def)

lemmas parts_defs = counters_of_def values_of_def uniques_of_def

lemma addCounter_frame:
  assumes "addCounter seriesHash e b = Some b'"
  shows "pValues (bPayload b') = pValues (bPayload b) \<and> pUniques (bPayload b') = pUniques (bPayload b) \<and>
    uniqueSeen b' = uniqueSeen b \<and> batchID (bPayload b') = batchID (bPayload b)"
  using assms
  by (auto simp: addCounter_def Let_def push_counter_def split: chain_result.split_asm if_split_asm)

definition event_effect ::
  "(string \<Rightarrow> string list \<Rightarrow> u64) \<Rightarrow> event list \<Rightarrow> batchBuilder \<Rightarrow> batchBuilder \<Rightarrow> bool" where
  "event_effect seriesHash es b b' \<longleftrightarrow>
     wf_builder seriesHash b' \<and>
     abs_counters b' = fold ref_addCounter (counters_of es) (abs_counters b) \<and>
     pValues (bPayload b') = pValues (bPayload b) @ map event_value (values_of es) \<and>
     pUniques (bPayload b') =
       pUniques (bPayload b) @ map event_unique (dedup_on uniqueKey (uniqueSeen b) (uniques_of es)) \<and>
     uniqueSeen b' =
       rev (map uniqueKey (dedup_on uniqueKey (uniqueSeen b) (uniques_of es))) @ uniqueSeen b \<and>
     batchID (bPayload b') = batchID (bPayload b)"

lemma add_event_effect:
  assumes wf: "wf_builder seriesHash b"
  shows "\<exists>b'. add_event seriesHash e b = Some b' \<and> event_effect seriesHash [e] b b'"
proof (cases "etyp e")
  case MtCounter
  obtain b' where b': "addCounter seriesHash e b = Some b'" "wf_builder seriesHash b'"
      "abs_counters b' = ref_addCounter e (abs_counters b)"
    using addCounter_refines_lemma [OF wf, of e] by blast
  have "event_effect seriesHash [e] b b'"
    using addCounter_frame [OF b'(1)] b'(2,3) by (simp add: event_effect_def MtCounter parts_defs)
  then show ?thesis using b'(1) MtCounter by (simp add: add_event_def)
next
  case MtValue
  have "wf_builder seriesHash (addValue e b)"
    using wf by (subst wf_builder_cong [where b = b]) (simp_all add: addValue_def)
  then have "event_effect seriesHash [e] b (addValue e b)"
    by (simp add: event_effect_def MtValue parts_defs)
      (simp add: addValue_def abs_counters_def event_value_def)
  then show ?thesis using MtValue by (simp add: add_event_def)
next
  case MtUnique
  have "wf_builder seriesHash (addUnique e b)"
    using wf by (subst wf_builder_cong [where b = b]) (simp_all add: addUnique_def Let_def)
  then have "event_effect seriesHash [e] b (addUnique e b)"
    by (simp add: event_effect_def MtUnique parts_defs)
      (simp add: addUnique_def Let_def abs_counters_def event_unique_def)
  then show ?thesis using MtUnique by (simp add: add_event_def)
next
  case MtNone
  then show ?thesis using wf by (simp add: add_event_def event_effect_def parts_defs)
next
  case MtTotal
  then show ?thesis using wf by (simp add: add_event_def event_effect_def parts_defs)
qed

subsection \<open>Adding a whole batch\<close>

lemma dedup_on_append:
  "dedup_on f seen (xs @ ys) =
     dedup_on f seen xs @ dedup_on f (rev (map f (dedup_on f seen xs)) @ seen) ys"
  by (induction xs arbitrary: seen) auto

lemma parts_append:
  "counters_of (xs @ ys) = counters_of xs @ counters_of ys"
  "values_of (xs @ ys) = values_of xs @ values_of ys"
  "uniques_of (xs @ ys) = uniques_of xs @ uniques_of ys"
  by (simp_all add: parts_defs)

lemma event_effect_trans:
  assumes "event_effect seriesHash xs b b1" and "event_effect seriesHash ys b1 b2"
  shows "event_effect seriesHash (xs @ ys) b b2"
  using assms by (simp add: event_effect_def parts_append dedup_on_append)

lemma add_events_effect:
  "wf_builder seriesHash b \<Longrightarrow>
   \<exists>b'. add_events seriesHash es b = Some b' \<and> event_effect seriesHash es b b'"
proof (induction es arbitrary: b)
  case Nil
  then show ?case by (simp add: event_effect_def parts_defs)
next
  case (Cons e es)
  obtain b1 where b1: "add_event seriesHash e b = Some b1" "event_effect seriesHash [e] b b1"
    using add_event_effect [OF Cons.prems] by blast
  then have "wf_builder seriesHash b1" by (simp add: event_effect_def)
  then obtain b2 where b2: "add_events seriesHash es b1 = Some b2" "event_effect seriesHash es b1 b2"
    using Cons.IH by blast
  show ?case using b1 b2 event_effect_trans [OF b1(2) b2(2)] by simp
qed

lemma new_builder_simps [simp]:
  "pCounters (bPayload newBatchBuilder) = []" "pValues (bPayload newBatchBuilder) = []"
  "pUniques (bPayload newBatchBuilder) = []" "uniqueSeen newBatchBuilder = []"
  "abs_counters newBatchBuilder = ([], [])"
  by (simp_all add: newBatchBuilder_def abs_counters_def)

text \<open>The seen-set key tells unique events apart when no part of it holds a NUL.\<close>

definition unique_nul_free :: "event \<Rightarrow> bool" where
  "unique_nul_free e \<longleftrightarrow> nul_free (ename e) (elabels e) \<and> CHR 0x00 \<notin> set (uniqueID e)"

lemma uniqueKey_split:
  "unique_nul_free e \<Longrightarrow>
   split_on (CHR 0x00) (uniqueKey e) = ename e # elabels e @ [CHR 0x01 # uniqueID e]"
  using split_on_concat_app [of "ename e # elabels e" "CHR 0x00" "CHR 0x01 # uniqueID e"]
  by (simp add: uniqueKey_def seriesKey_def unique_nul_free_def nul_free_def split_on_absent)

lemma uniqueKey_inj:
  assumes "unique_nul_free x" and "unique_nul_free y"
  shows "uniqueKey x = uniqueKey y \<longleftrightarrow> (series_of x, uniqueID x) = (series_of y, uniqueID y)"
proof
  assume "uniqueKey x = uniqueKey y"
  then have "ename x # elabels x @ [CHR 0x01 # uniqueID x] = ename y # elabels y @ [CHR 0x01 # uniqueID y]"
    using uniqueKey_split [OF assms(1)] uniqueKey_split [OF assms(2)] by simp
  then show "(series_of x, uniqueID x) = (series_of y, uniqueID y)" by (simp add: series_of_def)
qed (simp add: uniqueKey_def series_of_def)

definition spec_uniques :: "event list \<Rightarrow> uniqueEvent list" where
  "spec_uniques es = map event_unique (dedup_on (\<lambda>e. (series_of e, uniqueID e)) [] (uniques_of es))"

lemma spec_uniques_key:
  assumes "\<forall>e \<in> set es. etyp e = MtUnique \<longrightarrow> unique_nul_free e"
  shows "map event_unique (dedup_on uniqueKey [] (uniques_of es)) = spec_uniques es"
proof -
  have "dedup_on uniqueKey (map uniqueKey []) (uniques_of es) =
      dedup_on (\<lambda>e. (series_of e, uniqueID e)) (map (\<lambda>e. (series_of e, uniqueID e)) []) (uniques_of es)"
    by (rule dedup_on_cong [where A = "Collect unique_nul_free"])
      (use uniqueKey_inj assms in \<open>auto simp: uniques_of_def\<close>)
  then show ?thesis by (simp add: spec_uniques_def)
qed

subsection \<open>Conservation of integer deltas\<close>

definition counter_series :: "counterEvent \<Rightarrow> string \<times> string list" where
  "counter_series c = (cMetric c, cLabels c)"

definition series_total :: "(string \<times> string list) \<Rightarrow> counterEvent list \<Rightarrow> int list \<Rightarrow> int" where
  "series_total s cs ks = sum_list (map snd (filter (\<lambda>(c, k). counter_series c = s) (zip cs ks)))"

lemma series_total_snoc [simp]:
  "length cs = length ks \<Longrightarrow>
   series_total s (cs @ [c]) (ks @ [k]) = series_total s cs ks + (if counter_series c = s then k else 0)"
  by (simp add: series_total_def)

lemma series_total_update:
  "length cs = length ks \<Longrightarrow> p < length cs \<Longrightarrow> counter_series c = counter_series (cs ! p) \<Longrightarrow>
   series_total s (cs[p := c]) (ks[p := ks ! p + d]) =
     series_total s cs ks + (if counter_series c = s then d else 0)"
proof (induction cs ks arbitrary: p rule: list_induct2)
  case (Cons x xs y ys)
  then show ?case by (cases p) (auto simp: series_total_def)
qed simp

definition abs_total :: "(event \<Rightarrow> int) \<Rightarrow> event list \<Rightarrow> int" where
  "abs_total d es = sum_list (map (\<lambda>e. \<bar>d e\<bar>) es)"

definition conserved :: "(event \<Rightarrow> int) \<Rightarrow> event list \<Rightarrow> counterEvent list \<times> nat list \<Rightarrow> int list \<Rightarrow> bool" where
  "conserved d es = (\<lambda>(cs, regs) ks.
     map cValue cs = map f64_of_int ks \<and> (\<forall>p \<in> set regs. p < length cs) \<and>
     (\<forall>k \<in> set ks. \<bar>k\<bar> \<le> abs_total d es) \<and>
     (\<forall>s. series_total s cs ks = sum_list (map d (filter (\<lambda>e. series_of e = s) es))))"

lemma conserved_snoc:
  assumes c: "conserved d es st ks" and bound: "abs_total d (es @ [e]) < 2 ^ 53"
    and e: "evalue e = f64_of_int (d e)"
  shows "\<exists>ks'. conserved d (es @ [e]) (ref_addCounter e st) ks'"
proof -
  obtain cs regs where st: "st = (cs, regs)" by (cases st)
  have vals: "map cValue cs = map f64_of_int ks" and regs: "\<forall>p \<in> set regs. p < length cs"
    and ks: "\<forall>k \<in> set ks. \<bar>k\<bar> \<le> abs_total d es"
    and tot: "\<And>s. series_total s cs ks = sum_list (map d (filter (\<lambda>e. series_of e = s) es))"
    using c by (auto simp: conserved_def st)
  have len: "length cs = length ks" using vals by (metis length_map)
  have at: "abs_total d (es @ [e]) = abs_total d es + \<bar>d e\<bar>" by (simp add: abs_total_def)
  have at0: "0 \<le> abs_total d es" unfolding abs_total_def by (rule sum_list_nonneg) auto
  show ?thesis
  proof (cases "find (\<lambda>p. same_series (cs ! p) e) regs")
    case None
    then show ?thesis
      using vals regs ks tot len e at at0
      by (intro exI [of _ "ks @ [d e]"])
        (force simp: conserved_def st ref_addCounter_def counter_series_def series_of_def)
  next
    case (Some p)
    then have "same_series (cs ! p) e" and p: "p < length cs" using find_SomeD [OF Some] regs by auto
    then have ser: "counter_series (cs ! p) = series_of e"
      by (simp add: same_series_def counter_series_def series_of_def)
    have kp: "ks ! p \<in> set ks" "cValue (cs ! p) = f64_of_int (ks ! p)"
      using p len arg_cong [OF vals, of "\<lambda>xs. xs ! p"] by simp_all
    have lim: "\<bar>ks ! p\<bar> < 2 ^ 53" "\<bar>d e\<bar> < 2 ^ 53" using ks kp(1) bound at at0 by fastforce+
    have "cValue (agg_add (cs ! p) e) = f64_of_int (ks ! p + d e)"
      by (simp add: agg_add_def Let_def kp e f64_int_add [OF lim])
    then have "map cValue (cs[p := agg_add (cs ! p) e]) = map f64_of_int (ks[p := ks ! p + d e])"
      by (simp add: map_update vals)
    moreover have "\<forall>k \<in> set (ks[p := ks ! p + d e]). \<bar>k\<bar> \<le> abs_total d (es @ [e])"
      using set_update_subset_insert [of ks p "ks ! p + d e"] ks kp(1) at by fastforce
    moreover have "series_total s (cs[p := agg_add (cs ! p) e]) (ks[p := ks ! p + d e]) =
        sum_list (map d (filter (\<lambda>e. series_of e = s) (es @ [e])))" for s
      using series_total_update [OF len p, of "agg_add (cs ! p) e" s "d e"] tot ser
      by (simp add: counter_series_def)
    ultimately show ?thesis
      using regs Some by (intro exI [of _ "ks[p := ks ! p + d e]"])
        (simp add: conserved_def st ref_addCounter_def)
  qed
qed

lemma conserved_fold:
  assumes "\<forall>e \<in> set es. evalue e = f64_of_int (d e)" and "abs_total d es < 2 ^ 53"
  shows "\<exists>ks. conserved d es (fold ref_addCounter es ([], [])) ks"
  using assms
proof (induction es rule: rev_induct)
  case Nil
  then show ?case by (simp add: conserved_def series_total_def)
next
  case (snoc e es)
  have "abs_total d es \<le> abs_total d (es @ [e])" by (simp add: abs_total_def)
  with snoc obtain ks where "conserved d es (fold ref_addCounter es ([], [])) ks" by auto
  then show ?case using conserved_snoc snoc.prems by simp
qed

subsection \<open>Properties\<close>

text \<open>
  C7 (refinement). For every hash function, collisions included, and every list of events, the
  builder's hash table with its collision chains never fails (no index out of range, no endless
  chain) and its counters are those of the plain reference search: each counter event is added to
  the first registered counter of its series, or starts a new one, which is registered while
  fewer than \<open>defaultMaxSeriesPerBatch\<close> are. Value samples are forwarded in order.
\<close>

theorem batch_refines_reference:
  "\<exists>b. add_events seriesHash es newBatchBuilder = Some b \<and>
     abs_counters b = fold ref_addCounter (counters_of es) ([], []) \<and>
     pValues (bPayload b) = map event_value (values_of es)"
  using add_events_effect [OF wf_newBatchBuilder, of seriesHash es] by (auto simp: event_effect_def)

text \<open>
  C13 (functional). What a batch of at most \<open>defaultMaxSeriesPerBatch\<close> counter events contains (the
  worker's batches hold 512 events): one counter per series in the order of first occurrence, with
  the deltas summed in order and the latest second; every value sample in order; every unique
  occurrence once per series and ID, the first one kept, when no name, label or ID holds a NUL.
\<close>

theorem batch_contents:
  assumes "length (counters_of es) \<le> defaultMaxSeriesPerBatch"
    and "\<forall>e \<in> set es. etyp e = MtUnique \<longrightarrow> unique_nul_free e"
  shows "\<exists>b. add_events seriesHash es newBatchBuilder = Some b \<and>
     bPayload b = \<lparr>batchID = [], pCounters = spec_counters (counters_of es),
       pValues = map event_value (values_of es), pUniques = spec_uniques es\<rparr>"
proof -
  obtain b where "add_events seriesHash es newBatchBuilder = Some b"
      "event_effect seriesHash es newBatchBuilder b"
    using add_events_effect [OF wf_newBatchBuilder] by blast
  then show ?thesis
    using ref_fold_spec [OF assms(1)] spec_uniques_key [OF assms(2)]
    by (intro exI [of _ b]) (simp add: event_effect_def abs_counters_def newBatchBuilder_def payload.equality)
qed

definition batch_sample :: "event list" where
  "batch_sample =
     [\<lparr>etyp = MtCounter, ename = ''a'', evalue = f64_of_int 2, uniqueID = [], elabels = [''k=v''], ets = 1000000000\<rparr>,
      \<lparr>etyp = MtUnique, ename = ''u'', evalue = 0, uniqueID = ''7'', elabels = [], ets = 1000000000\<rparr>,
      \<lparr>etyp = MtCounter, ename = ''b'', evalue = f64_of_int 5, uniqueID = [], elabels = [''k=v''], ets = 1000000000\<rparr>,
      \<lparr>etyp = MtUnique, ename = ''u'', evalue = 0, uniqueID = ''7'', elabels = [], ets = 1000000000\<rparr>,
      \<lparr>etyp = MtCounter, ename = ''a'', evalue = f64_of_int 3, uniqueID = [], elabels = [''k=v''], ets = 3000000000\<rparr>]"

theorem batch_contents_witness:
  "\<exists>b. add_events (\<lambda>m ls. 0) batch_sample newBatchBuilder = Some b \<and>
     bPayload b = \<lparr>batchID = [], pCounters = spec_counters (counters_of batch_sample),
       pValues = [], pUniques = spec_uniques batch_sample\<rparr> \<and>
     length (pCounters (bPayload b)) = 2 \<and> length (pUniques (bPayload b)) = 1"
proof -
  have "values_of batch_sample = []" by (simp add: values_of_def batch_sample_def)
  moreover have "length (spec_counters (counters_of batch_sample)) = 2"
    by (simp add: length_spec_counters first_occ_def counters_of_def batch_sample_def series_of_def)
  moreover have "length (spec_uniques batch_sample) = 1"
    by (simp add: spec_uniques_def uniques_of_def batch_sample_def series_of_def)
  ultimately show ?thesis
    using batch_contents [of batch_sample "\<lambda>m ls. 0"]
    by (force simp: counters_of_def batch_sample_def unique_nul_free_def nul_free_def defaultMaxSeriesPerBatch_def)
qed

text \<open>
  C14 (invariant). Aggregation loses nothing: with integer deltas whose absolute values sum to less
  than \<open>2 ^ 53\<close>, the counters sent for each series add up to exactly the deltas recorded for it,
  whatever the hash and the number of series (also past the aggregation limit).
\<close>

theorem batch_conserves_counts:
  assumes "\<forall>e \<in> set (counters_of es). evalue e = f64_of_int (delta e)"
    and "abs_total delta (counters_of es) < 2 ^ 53"
  shows "\<exists>b ks. add_events seriesHash es newBatchBuilder = Some b \<and>
     map cValue (pCounters (bPayload b)) = map f64_of_int ks \<and>
     (\<forall>s. series_total s (pCounters (bPayload b)) ks =
        sum_list (map delta (filter (\<lambda>e. series_of e = s) (counters_of es))))"
proof -
  obtain b where b: "add_events seriesHash es newBatchBuilder = Some b"
      "event_effect seriesHash es newBatchBuilder b"
    using add_events_effect [OF wf_newBatchBuilder] by blast
  obtain ks where "conserved delta (counters_of es) (fold ref_addCounter (counters_of es) ([], [])) ks"
    using conserved_fold [OF assms] by blast
  moreover have "fold ref_addCounter (counters_of es) ([], []) = abs_counters b"
    using b(2) by (simp add: event_effect_def)
  ultimately show ?thesis
    using b(1) by (intro exI [of _ b] exI [of _ ks]) (simp add: conserved_def abs_counters_def)
qed

definition sample_delta :: "event \<Rightarrow> int" where
  "sample_delta e = (if ename e = ''b'' then 5 else if unix_sec (ets e) = 1 then 2 else 3)"

theorem batch_conserves_counts_witness:
  "\<exists>b ks. add_events (\<lambda>m ls. 0) batch_sample newBatchBuilder = Some b \<and>
     map cValue (pCounters (bPayload b)) = map f64_of_int ks \<and>
     series_total (''a'', [''k=v'']) (pCounters (bPayload b)) ks = 5"
proof -
  have "\<forall>e \<in> set (counters_of batch_sample). evalue e = f64_of_int (sample_delta e)"
    by (simp add: counters_of_def batch_sample_def sample_delta_def unix_sec_def)
  moreover have "abs_total sample_delta (counters_of batch_sample) < 2 ^ 53"
    by (simp add: counters_of_def batch_sample_def sample_delta_def unix_sec_def abs_total_def)
  moreover have "sum_list (map sample_delta
      (filter (\<lambda>e. series_of e = (''a'', [''k=v''])) (counters_of batch_sample))) = 5"
    by (simp add: counters_of_def batch_sample_def sample_delta_def unix_sec_def series_of_def)
  ultimately show ?thesis
    using batch_conserves_counts [of batch_sample sample_delta "\<lambda>m ls. 0"] by metis
qed

end
