(* ===== verification/LineProtocol.thy ===== *)
theory LineProtocol
  imports Batch
begin

section \<open>Line protocol v4 (line_protocol_v4.go)\<close>

text \<open>
  A payload is written as lines that refer to series by number. The numbers live in a
  dictionary that survives from one payload to the next: a definition line is sent when a
  series first appears. \<open>encodeLinePayloadV4\<close> mutates the dictionary, so it returns it.
  The conversion of a counter value outside int64 is the platform's (\<open>oob\<close>).
\<close>

record seriesDef =
  sdMetric :: string
  sdLabels :: "string list"

record dictionaryState =
  sessionID :: string
  revision :: u64
  seriesMap :: "(string \<times> nat) list"
  series :: "seriesDef list"

text \<open>\<open>now\<close> is the clock in nanoseconds.\<close>

definition newDictionaryState :: "int \<Rightarrow> dictionaryState" where
  "newDictionaryState now = \<lparr>sessionID = fmt_int now, revision = 0, seriesMap = [], series = []\<rparr>"

record encodedEvent =
  evMetricType :: char
  evSeriesID :: nat
  evIntValue :: int
  evFloatValue :: f64
  evUniqueID :: string
  evTimestamp :: int

text \<open>The variables that the closure \<open>getSeriesID\<close> and the three loops share.\<close>

record encoderState =
  esDict :: dictionaryState
  esNew :: "nat list"
  esChanged :: bool
  esEvents :: "encodedEvent list"

definition getSeriesID :: "string \<Rightarrow> string list \<Rightarrow> encoderState \<Rightarrow> nat \<times> encoderState" where
  "getSeriesID metric labels es =
     (let state = esDict es; key = seriesKey metric labels in
      case map_of (seriesMap state) key of
        Some i \<Rightarrow> (i, es)
      | None \<Rightarrow>
          (let i = length (series state) in
           (i, es\<lparr>esDict := state\<lparr>seriesMap := AList.update key i (seriesMap state),
                    series := series state @ [\<lparr>sdMetric = metric, sdLabels = cloneLabels labels\<rparr>]\<rparr>,
                 esNew := esNew es @ [i], esChanged := True\<rparr>)))"

definition encode_counter :: "(f64 \<Rightarrow> int) \<Rightarrow> counterEvent \<Rightarrow> encoderState \<Rightarrow> encoderState" where
  "encode_counter oob c es =
     (let (i, es') = getSeriesID (cMetric c) (cLabels c) es in
      es'\<lparr>esEvents := esEvents es' @
        [\<lparr>evMetricType = CHR ''c'', evSeriesID = i, evIntValue = round_int64 oob (cValue c),
          evFloatValue = 0, evUniqueID = [], evTimestamp = cTs c\<rparr>]\<rparr>)"

definition encode_value :: "valueEvent \<Rightarrow> encoderState \<Rightarrow> encoderState" where
  "encode_value v es =
     (let (i, es') = getSeriesID (vMetric v) (vLabels v) es in
      es'\<lparr>esEvents := esEvents es' @
        [\<lparr>evMetricType = CHR ''v'', evSeriesID = i, evIntValue = 0, evFloatValue = vValue v,
          evUniqueID = [], evTimestamp = vTs v\<rparr>]\<rparr>)"

definition encode_unique :: "uniqueEvent \<Rightarrow> encoderState \<Rightarrow> encoderState" where
  "encode_unique u es =
     (let (i, es') = getSeriesID (uMetric u) (uLabels u) es in
      es'\<lparr>esEvents := esEvents es' @
        [\<lparr>evMetricType = CHR ''u'', evSeriesID = i, evIntValue = 0, evFloatValue = 0,
          evUniqueID = uUniqueID u, evTimestamp = uTs u\<rparr>]\<rparr>)"

definition writeSeriesDefinition :: "nat \<Rightarrow> seriesDef \<Rightarrow> string" where
  "writeSeriesDefinition i s =
     ''S|'' @ fmt_nat 10 i @ ''|'' @ sdMetric s @
     concat (map (\<lambda>lbl. if lbl = [] then [] else ''|'' @ lbl) (sdLabels s)) @ [CHR 0x0A]"

definition event_text :: "encodedEvent \<Rightarrow> string" where
  "event_text ev =
     (if evMetricType ev = CHR ''c'' then fmt_int (evIntValue ev)
      else if evMetricType ev = CHR ''v'' then fmt_float (evFloatValue ev)
      else if evMetricType ev = CHR ''u'' then evUniqueID ev
      else [])"

definition write_event :: "encodedEvent \<Rightarrow> string" where
  "write_event ev =
     [evMetricType ev] @ ''|'' @ fmt_nat 10 (evSeriesID ev) @ ''|'' @ event_text ev @ ''|'' @
     fmt_int (evTimestamp ev) @ [CHR 0x0A]"

definition write_header :: "dictionaryState \<Rightarrow> string" where
  "write_header state =
     ''H|4|s|'' @ sessionID state @ ''|'' @ fmt_nat 10 (unat (revision state)) @ [CHR 0x0A]"

definition encode_events :: "(f64 \<Rightarrow> int) \<Rightarrow> payload \<Rightarrow> dictionaryState \<Rightarrow> encoderState" where
  "encode_events oob p state =
     fold encode_unique (pUniques p)
       (fold encode_value (pValues p)
         (fold (encode_counter oob) (pCounters p)
           \<lparr>esDict = state, esNew = [], esChanged = False, esEvents = []\<rparr>))"

definition write_definitions :: "bool \<Rightarrow> encoderState \<Rightarrow> string" where
  "write_definitions forceDefinitions es =
     (if forceDefinitions \<or> esChanged es
      then if forceDefinitions
        then concat (map (\<lambda>(i, s). writeSeriesDefinition i s)
               (enumerate 0 (series (esDict es))))
        else concat (map (\<lambda>i. writeSeriesDefinition i (series (esDict es) ! i)) (esNew es))
      else [])"

text \<open>The empty body stands for the nil slice of the early return.\<close>

definition encodeLinePayloadV4 ::
  "(f64 \<Rightarrow> int) \<Rightarrow> payload option \<Rightarrow> dictionaryState option \<Rightarrow> bool \<Rightarrow> string \<times> dictionaryState option" where
  "encodeLinePayloadV4 oob payload state forceDefinitions =
     (case (payload, state) of
        (Some p, Some st) \<Rightarrow>
          (if payload_empty p then ([], state)
           else
             let es = encode_events oob p st;
                 es = (if esChanged es
                       then es\<lparr>esDict := (esDict es)\<lparr>revision := revision (esDict es) + 1\<rparr>\<rparr> else es) in
             (write_header (esDict es) @ write_definitions forceDefinitions es @
              concat (map write_event (esEvents es)), Some (esDict es)))
      | _ \<Rightarrow> ([], state))"

subsection \<open>The dictionary\<close>

definition sd_key :: "seriesDef \<Rightarrow> string" where
  "sd_key s = seriesKey (sdMetric s) (sdLabels s)"

text \<open>
  A series the protocol can carry: no NUL (the key separator), no \<open>|\<close> and no line feed in its
  name and labels.
\<close>

definition series_safe :: "string \<Rightarrow> string list \<Rightarrow> bool" where
  "series_safe m ls \<longleftrightarrow> nul_free m ls \<and> list_all wire_safe (m # ls)"

definition dict_ok :: "dictionaryState \<Rightarrow> bool" where
  "dict_ok st \<longleftrightarrow>
     wire_safe (sessionID st) \<and> length (seriesMap st) = length (series st) \<and>
     (\<forall>s \<in> set (series st). series_safe (sdMetric s) (sdLabels s)) \<and>
     (\<forall>k i. map_of (seriesMap st) k = Some i \<longrightarrow>
        i < length (series st) \<and> sd_key (series st ! i) = k) \<and>
     (\<forall>i < length (series st). map_of (seriesMap st) (sd_key (series st ! i)) = Some i)"

lemma digits_wire_safe: "(\<And>c. c \<in> set s \<Longrightarrow> is_digit c \<or> c \<in> set ''.-+NaInf'') \<Longrightarrow> wire_safe s"
  by (force simp: wire_safe_def is_digit_def)

lemma number_wire_safe [simp]:
  "wire_safe (fmt_nat 10 n)" "wire_safe (fmt_int i)" "wire_safe (fmt_float x)"
proof -
  have "c \<in> set (fmt_nat 10 n) \<Longrightarrow> is_digit c" for c using subsetD [OF fmt_nat_digits] by blast
  then show "wire_safe (fmt_nat 10 n)" by (intro digits_wire_safe) blast
  show "wire_safe (fmt_int i)" by (rule digits_wire_safe) (drule fmt_int_chars, force)
  show "wire_safe (fmt_float x)" by (rule digits_wire_safe) (rule set_fmt_float)
qed

lemma dict_ok_new [simp]: "dict_ok (newDictionaryState now)"
  by (simp add: dict_ok_def newDictionaryState_def)

lemma dict_okD:
  assumes "dict_ok st"
  shows "wire_safe (sessionID st)" and "length (seriesMap st) = length (series st)"
    and "s \<in> set (series st) \<Longrightarrow> series_safe (sdMetric s) (sdLabels s)"
    and "map_of (seriesMap st) k = Some i \<Longrightarrow> i < length (series st)"
    and "map_of (seriesMap st) k = Some i \<Longrightarrow> sd_key (series st ! i) = k"
    and "i < length (series st) \<Longrightarrow> map_of (seriesMap st) (sd_key (series st ! i)) = Some i"
  using assms unfolding dict_ok_def by blast+

lemma dict_ok_distinct: "dict_ok st \<Longrightarrow> distinct (map sd_key (series st))"
  unfolding distinct_conv_nth dict_ok_def by (metis length_map nth_map option.inject)

text \<open>One event of any type: its series, and the record it becomes once the number is known.\<close>

type_synonym item = "string \<times> string list \<times> (nat \<Rightarrow> encodedEvent)"

definition counter_item :: "(f64 \<Rightarrow> int) \<Rightarrow> counterEvent \<Rightarrow> item" where
  "counter_item oob c = (cMetric c, cLabels c, \<lambda>i.
     \<lparr>evMetricType = CHR ''c'', evSeriesID = i, evIntValue = round_int64 oob (cValue c),
      evFloatValue = 0, evUniqueID = [], evTimestamp = cTs c\<rparr>)"

definition value_item :: "valueEvent \<Rightarrow> item" where
  "value_item v = (vMetric v, vLabels v, \<lambda>i.
     \<lparr>evMetricType = CHR ''v'', evSeriesID = i, evIntValue = 0, evFloatValue = vValue v,
      evUniqueID = [], evTimestamp = vTs v\<rparr>)"

definition unique_item :: "uniqueEvent \<Rightarrow> item" where
  "unique_item u = (uMetric u, uLabels u, \<lambda>i.
     \<lparr>evMetricType = CHR ''u'', evSeriesID = i, evIntValue = 0, evFloatValue = 0,
      evUniqueID = uUniqueID u, evTimestamp = uTs u\<rparr>)"

definition payload_items :: "(f64 \<Rightarrow> int) \<Rightarrow> payload \<Rightarrow> item list" where
  "payload_items oob p =
     map (counter_item oob) (pCounters p) @ map value_item (pValues p) @ map unique_item (pUniques p)"

definition encode_item :: "item \<Rightarrow> encoderState \<Rightarrow> encoderState" where
  "encode_item = (\<lambda>(m, ls, mk) es.
     let (i, es') = getSeriesID m ls es in es'\<lparr>esEvents := esEvents es' @ [mk i]\<rparr>)"

lemma encode_events_items:
  "encode_events oob p st =
     fold encode_item (payload_items oob p) \<lparr>esDict = st, esNew = [], esChanged = False, esEvents = []\<rparr>"
proof -
  have "encode_counter oob = (\<lambda>c. encode_item (counter_item oob c))"
    and "encode_value = (\<lambda>v. encode_item (value_item v))"
    and "encode_unique = (\<lambda>u. encode_item (unique_item u))"
    by (simp_all add: fun_eq_iff encode_item_def counter_item_def value_item_def unique_item_def
        encode_counter_def encode_value_def encode_unique_def)
  then show ?thesis by (simp add: encode_events_def payload_items_def fold_map comp_def)
qed

text \<open>What the loops keep: the dictionary grows by exactly the series recorded as new.\<close>

definition encoded_as :: "seriesDef list \<Rightarrow> item \<Rightarrow> encodedEvent \<Rightarrow> bool" where
  "encoded_as sds = (\<lambda>(m, ls, mk) ev.
     \<exists>i < length sds. sds ! i = \<lparr>sdMetric = m, sdLabels = ls\<rparr> \<and> ev = mk i)"

definition enc_inv :: "dictionaryState \<Rightarrow> item list \<Rightarrow> encoderState \<Rightarrow> bool" where
  "enc_inv st items es \<longleftrightarrow>
     dict_ok (esDict es) \<and> sessionID (esDict es) = sessionID st \<and> revision (esDict es) = revision st \<and>
     take (length (series st)) (series (esDict es)) = series st \<and>
     length (series st) \<le> length (series (esDict es)) \<and>
     esNew es = [length (series st) ..< length (series (esDict es))] \<and>
     (esChanged es \<longleftrightarrow> esNew es \<noteq> []) \<and>
     list_all2 (encoded_as (series (esDict es))) items (esEvents es) \<and>
     length (series (esDict es)) \<le> length (series st) + length items"

lemma encoded_as_mono: "encoded_as sds it ev \<Longrightarrow> encoded_as (sds @ sds') it ev"
  by (fastforce simp: encoded_as_def nth_append split: prod.split_asm)

lemma getSeriesID_known:
  assumes ok: "dict_ok st" and m: "map_of (seriesMap st) (seriesKey m ls) = Some i"
    and safe: "nul_free m ls"
  shows "i < length (series st)" "series st ! i = \<lparr>sdMetric = m, sdLabels = ls\<rparr>"
proof -
  show i: "i < length (series st)" by (rule dict_okD [OF ok]) (rule m)
  have "nul_free (sdMetric (series st ! i)) (sdLabels (series st ! i))"
    using dict_okD(3) [OF ok nth_mem [OF i]] by (simp add: series_safe_def)
  moreover have "seriesKey (sdMetric (series st ! i)) (sdLabels (series st ! i)) = seriesKey m ls"
    using dict_okD(5) [OF ok m] by (simp add: sd_key_def)
  ultimately have "sdMetric (series st ! i) = m \<and> sdLabels (series st ! i) = ls"
    using safe by (simp add: sk.key_eq_iff)
  then show "series st ! i = \<lparr>sdMetric = m, sdLabels = ls\<rparr>" by simp
qed

lemma dict_ok_grow:
  assumes ok: "dict_ok st" and fresh: "map_of (seriesMap st) (seriesKey m ls) = None"
    and safe: "series_safe m ls"
  shows "dict_ok (st\<lparr>seriesMap := AList.update (seriesKey m ls) (length (series st)) (seriesMap st),
    series := series st @ [\<lparr>sdMetric = m, sdLabels = ls\<rparr>]\<rparr>)"
proof -
  let ?n = "length (series st)" and ?sds = "series st @ [\<lparr>sdMetric = m, sdLabels = ls\<rparr>]"
  let ?map = "AList.update (seriesKey m ls) ?n (seriesMap st)"
  note D = dict_okD [OF ok]
  have old: "sd_key (series st ! i) \<noteq> seriesKey m ls" if "i < ?n" for i
    using D(6) [OF that] fresh by auto
  have "seriesKey m ls \<notin> fst ` set (seriesMap st)" using fresh by (simp add: map_of_None_fst)
  then have "length ?map = length ?sds" using D(2) by simp
  moreover have "\<forall>s \<in> set ?sds. series_safe (sdMetric s) (sdLabels s)" using D(3) safe by simp
  moreover have "i < length ?sds \<and> sd_key (?sds ! i) = k" if "map_of ?map k = Some i" for k i
  proof (cases "k = seriesKey m ls")
    case True
    with that have "i = ?n" by simp
    with True show ?thesis by (simp add: sd_key_def)
  next
    case False
    with that have "map_of (seriesMap st) k = Some i" by simp
    from D(4) [OF this] D(5) [OF this] show ?thesis by (simp add: nth_append)
  qed
  moreover have "map_of ?map (sd_key (?sds ! i)) = Some i" if "i < length ?sds" for i
  proof (cases "i = ?n")
    case True
    then show ?thesis by (simp add: sd_key_def)
  next
    case False
    with that have i: "i < ?n" by simp
    then show ?thesis using old [OF i] D(6) [OF i] by (simp add: nth_append)
  qed
  ultimately show ?thesis using D(1) unfolding dict_ok_def by simp
qed

lemma encode_item_inv:
  assumes inv: "enc_inv st items es" and safe: "series_safe m ls"
  shows "enc_inv st (items @ [(m, ls, mk)]) (encode_item (m, ls, mk) es)"
proof (cases "map_of (seriesMap (esDict es)) (seriesKey m ls)")
  case (Some i)
  have ok: "dict_ok (esDict es)" using inv by (simp add: enc_inv_def)
  have "nul_free m ls" using safe by (simp add: series_safe_def)
  from getSeriesID_known [OF ok Some this]
  have "encoded_as (series (esDict es)) (m, ls, mk) (mk i)" by (auto simp: encoded_as_def)
  then have "list_all2 (encoded_as (series (esDict es))) (items @ [(m, ls, mk)]) (esEvents es @ [mk i])"
    using inv by (simp add: enc_inv_def list_all2_appendI)
  moreover have "encode_item (m, ls, mk) es = es\<lparr>esEvents := esEvents es @ [mk i]\<rparr>"
    by (simp add: encode_item_def getSeriesID_def Let_def Some)
  ultimately show ?thesis using inv by (simp add: enc_inv_def)
next
  case None
  have ok: "dict_ok (esDict es)" using inv by (simp add: enc_inv_def)
  let ?sd = "\<lparr>sdMetric = m, sdLabels = ls\<rparr>"
  let ?n = "length (series (esDict es))"
  have eq: "encode_item (m, ls, mk) es = es\<lparr>esDict := (esDict es)
      \<lparr>seriesMap := AList.update (seriesKey m ls) ?n (seriesMap (esDict es)),
       series := series (esDict es) @ [?sd]\<rparr>,
      esNew := esNew es @ [?n], esChanged := True, esEvents := esEvents es @ [mk ?n]\<rparr>"
    by (simp add: encode_item_def getSeriesID_def Let_def None)
  have "list_all2 (encoded_as (series (esDict es) @ [?sd])) items (esEvents es)"
    using inv unfolding enc_inv_def by (blast intro: list_all2_mono encoded_as_mono)
  moreover have "encoded_as (series (esDict es) @ [?sd]) (m, ls, mk) (mk ?n)"
    by (auto simp: encoded_as_def intro!: exI [of _ ?n])
  ultimately have "list_all2 (encoded_as (series (esDict es) @ [?sd])) (items @ [(m, ls, mk)]) (esEvents es @ [mk ?n])"
    by (simp add: list_all2_appendI)
  then show ?thesis
    unfolding eq using inv dict_ok_grow [OF ok None safe] by (simp add: enc_inv_def)
qed

definition item_safe :: "item \<Rightarrow> bool" where
  "item_safe = (\<lambda>(m, ls, mk). series_safe m ls)"

lemma encode_items_inv:
  assumes "dict_ok st" and "\<forall>it \<in> set items. item_safe it"
  shows "enc_inv st items (fold encode_item items \<lparr>esDict = st, esNew = [], esChanged = False, esEvents = []\<rparr>)"
  using assms(2)
proof (induction items rule: rev_induct)
  case Nil
  then show ?case using assms(1) by (simp add: enc_inv_def)
next
  case (snoc it items)
  obtain m ls mk where it: "it = (m, ls, mk)" by (cases it) auto
  show ?case using snoc by (auto simp: it item_safe_def intro: encode_item_inv)
qed

subsection \<open>A reader of the grammar\<close>

text \<open>
  The grammar in the comment above \<open>encodeLinePayloadV4\<close>, read: the specification the encoder is
  checked against. A reader keeps the definitions of one dictionary session; a header of
  another session starts afresh; an event that refers to an undefined number is rejected (the
  \<open>unknown_series_dictionary\<close> response the transport resynchronises on).
\<close>

record reader =
  rdSession :: string
  rdRevision :: nat
  rdSeries :: "nat \<Rightarrow> (string \<times> string list) option"

datatype read_event =
    ReadCounter string "string list" int int
  | ReadValue string "string list" f64 int
  | ReadUnique string "string list" string int

datatype read_error = BadLine | UnknownSeries

definition read_nat :: "string \<Rightarrow> nat option" where
  "read_nat s = (if s \<noteq> [] \<and> list_all is_digit s then Some (digits_val s) else None)"

definition read_int :: "string \<Rightarrow> int option" where
  "read_int s =
     (if s \<noteq> [] \<and> hd s = CHR ''-'' then map_option (\<lambda>n. - int n) (read_nat (tl s))
      else map_option int (read_nat s))"

definition read_event_line :: "string \<Rightarrow> string \<times> string list \<Rightarrow> string \<Rightarrow> int \<Rightarrow> read_event option" where
  "read_event_line k = (\<lambda>(m, ls) t ts.
     if k = ''c'' then map_option (\<lambda>v. ReadCounter m ls v ts) (read_int t)
     else if k = ''v'' then map_option (\<lambda>v. ReadValue m ls v ts) (read_float t)
     else if k = ''u'' then Some (ReadUnique m ls t ts)
     else None)"

definition read_header :: "reader \<Rightarrow> string list \<Rightarrow> read_error + reader \<times> read_event list" where
  "read_header rd parts =
     (case parts of
        [_, v, md, sess, rv] \<Rightarrow>
          (case read_nat rv of
             Some r \<Rightarrow>
               if v = ''4'' \<and> md = ''s''
               then Inr (rd\<lparr>rdSession := sess, rdRevision := r,
                          rdSeries := if sess = rdSession rd then rdSeries rd else Map.empty\<rparr>, [])
               else Inl BadLine
           | None \<Rightarrow> Inl BadLine)
      | _ \<Rightarrow> Inl BadLine)"

definition read_definition :: "reader \<Rightarrow> string list \<Rightarrow> read_error + reader \<times> read_event list" where
  "read_definition rd parts =
     (case parts of
        _ # i # m # ls \<Rightarrow>
          (case read_nat i of
             Some n \<Rightarrow> Inr (rd\<lparr>rdSeries := (rdSeries rd)(n \<mapsto> (m, ls))\<rparr>, [])
           | None \<Rightarrow> Inl BadLine)
      | _ \<Rightarrow> Inl BadLine)"

definition read_event_parts :: "reader \<Rightarrow> string list \<Rightarrow> read_error + reader \<times> read_event list" where
  "read_event_parts rd parts =
     (case parts of
        [k, i, t, ts] \<Rightarrow>
          (case (read_nat i, read_int ts) of
             (Some n, Some z) \<Rightarrow>
               (case rdSeries rd n of
                  None \<Rightarrow> Inl UnknownSeries
                | Some sd \<Rightarrow>
                    (case read_event_line k sd t z of
                       Some e \<Rightarrow> Inr (rd, [e])
                     | None \<Rightarrow> Inl BadLine))
           | _ \<Rightarrow> Inl BadLine)
      | _ \<Rightarrow> Inl BadLine)"

definition read_line :: "reader \<Rightarrow> string \<Rightarrow> read_error + reader \<times> read_event list" where
  "read_line rd line =
     (let parts = split_on (CHR ''|'') line in
      if line = [] then Inr (rd, [])
      else if hd parts = ''H'' then read_header rd parts
      else if hd parts = ''S'' then read_definition rd parts
      else read_event_parts rd parts)"

fun read_lines :: "reader \<Rightarrow> string list \<Rightarrow> read_error + reader \<times> read_event list" where
  "read_lines rd [] = Inr (rd, [])"
| "read_lines rd (line # lines) =
     (case read_line rd line of
        Inl err \<Rightarrow> Inl err
      | Inr (rd', evs) \<Rightarrow>
          (case read_lines rd' lines of
             Inl err \<Rightarrow> Inl err
           | Inr (rd'', evs') \<Rightarrow> Inr (rd'', evs @ evs')))"

definition read_body :: "reader \<Rightarrow> string \<Rightarrow> read_error + reader \<times> read_event list" where
  "read_body rd body = read_lines rd (split_on (CHR 0x0A) body)"

text \<open>What a payload says, and what a reader must hold to follow the encoder.\<close>

definition wire_labels :: "string list \<Rightarrow> string list" where
  "wire_labels ls = filter (\<lambda>l. l \<noteq> []) ls"

definition payload_events :: "(f64 \<Rightarrow> int) \<Rightarrow> payload \<Rightarrow> read_event list" where
  "payload_events oob p =
     map (\<lambda>c. ReadCounter (cMetric c) (wire_labels (cLabels c)) (round_int64 oob (cValue c)) (cTs c)) (pCounters p) @
     map (\<lambda>v. ReadValue (vMetric v) (wire_labels (vLabels v)) (vValue v) (vTs v)) (pValues p) @
     map (\<lambda>u. ReadUnique (uMetric u) (wire_labels (uLabels u)) (uUniqueID u) (uTs u)) (pUniques p)"

definition payload_safe :: "payload \<Rightarrow> bool" where
  "payload_safe p \<longleftrightarrow>
     (\<forall>c \<in> set (pCounters p). series_safe (cMetric c) (cLabels c)) \<and>
     (\<forall>v \<in> set (pValues p). series_safe (vMetric v) (vLabels v) \<and> f64_wf (vValue v)) \<and>
     (\<forall>u \<in> set (pUniques p). series_safe (uMetric u) (uLabels u) \<and> wire_safe (uUniqueID u))"

definition sd_wire :: "seriesDef \<Rightarrow> string \<times> string list" where
  "sd_wire s = (sdMetric s, wire_labels (sdLabels s))"

definition rd_defines :: "reader \<Rightarrow> seriesDef list \<Rightarrow> bool" where
  "rd_defines rd sds \<longleftrightarrow> (\<forall>i < length sds. rdSeries rd i = Some (sd_wire (sds ! i)))"

definition in_sync :: "reader \<Rightarrow> dictionaryState \<Rightarrow> bool" where
  "in_sync rd st \<longleftrightarrow> (series st = [] \<or> rdSession rd = sessionID st) \<and> rd_defines rd (series st)"

subsection \<open>The written text, line by line\<close>

definition end_line :: "string \<Rightarrow> string" where
  "end_line l = l @ [CHR 0x0A]"

definition bar_line :: "string list \<Rightarrow> string" where
  "bar_line parts = join_with ''|'' parts"

definition def_parts :: "nat \<Rightarrow> seriesDef \<Rightarrow> string list" where
  "def_parts i s = [''S'', fmt_nat 10 i, sdMetric s] @ wire_labels (sdLabels s)"

definition ev_parts :: "encodedEvent \<Rightarrow> string list" where
  "ev_parts ev = [[evMetricType ev], fmt_nat 10 (evSeriesID ev), event_text ev, fmt_int (evTimestamp ev)]"

definition hd_parts :: "dictionaryState \<Rightarrow> string list" where
  "hd_parts st = [''H'', ''4'', ''s'', sessionID st, fmt_nat 10 (unat (revision st))]"

lemma join_with_Cons: "xs \<noteq> [] \<Longrightarrow> join_with sep (x # xs) = x @ sep @ join_with sep xs"
  by (cases xs) auto

lemma join_labels:
  "join_with ''|'' (m # wire_labels ls) = m @ concat (map (\<lambda>lbl. if lbl = [] then [] else ''|'' @ lbl) ls)"
proof (induction ls arbitrary: m)
  case (Cons l ls)
  then show ?case by (cases "l = []") (simp_all add: wire_labels_def)
qed (simp add: wire_labels_def)

lemma written_lines:
  "write_header st = end_line (bar_line (hd_parts st))"
  "writeSeriesDefinition i s = end_line (bar_line (def_parts i s))"
  "write_event ev = end_line (bar_line (ev_parts ev))"
  by (simp_all add: write_header_def hd_parts_def write_event_def ev_parts_def writeSeriesDefinition_def
      def_parts_def end_line_def bar_line_def join_with_Cons join_labels)

lemma wire_safe_join: "list_all wire_safe parts \<Longrightarrow> CHR 0x0A \<notin> set (bar_line parts)"
  unfolding bar_line_def
  by (induction "''|''" parts rule: join_with.induct) (auto simp: wire_safe_def)

lemma split_bar_line: "parts \<noteq> [] \<Longrightarrow> list_all wire_safe parts \<Longrightarrow> split_on (CHR ''|'') (bar_line parts) = parts"
  unfolding bar_line_def
  by (rule split_on_join) (auto simp: wire_safe_def list_all_iff)

lemma bar_line_Nil: "bar_line ((c # cs) # parts) \<noteq> []"
  unfolding bar_line_def by (cases parts) auto

lemma read_nat_fmt [simp]: "read_nat (fmt_nat 10 n) = Some n"
  by (simp add: read_nat_def)

lemma read_int_fmt [simp]: "read_int (fmt_int i) = Some i"
  using fmt_nat_hd by (simp add: read_int_def fmt_int_def)

lemma wire_labels_safe: "list_all wire_safe ls \<Longrightarrow> list_all wire_safe (wire_labels ls)"
  by (simp add: wire_labels_def list_all_iff)

lemma read_line_header:
  assumes "wire_safe (sessionID st)"
  shows "read_line rd (bar_line (hd_parts st)) =
    Inr (rd\<lparr>rdSession := sessionID st, rdRevision := unat (revision st),
      rdSeries := if sessionID st = rdSession rd then rdSeries rd else Map.empty\<rparr>, [])"
proof -
  have "split_on (CHR ''|'') (bar_line (hd_parts st)) = hd_parts st"
    using assms by (intro split_bar_line) (simp_all add: hd_parts_def wire_safe_def [of "''H''"]
        wire_safe_def [of "''4''"] wire_safe_def [of "''s''"])
  moreover have "bar_line (hd_parts st) \<noteq> []" unfolding hd_parts_def by (rule bar_line_Nil)
  ultimately show ?thesis by (simp add: read_line_def) (simp add: hd_parts_def read_header_def)
qed

lemma read_line_definition:
  assumes "list_all wire_safe (sdMetric s # sdLabels s)"
  shows "read_line rd (bar_line (def_parts i s)) = Inr (rd\<lparr>rdSeries := (rdSeries rd)(i \<mapsto> sd_wire s)\<rparr>, [])"
proof -
  have "split_on (CHR ''|'') (bar_line (def_parts i s)) = def_parts i s"
    using assms wire_labels_safe
    by (intro split_bar_line) (simp_all add: def_parts_def wire_safe_def [of "''S''"])
  moreover have "bar_line (def_parts i s) \<noteq> []" unfolding def_parts_def by (simp add: bar_line_Nil)
  ultimately show ?thesis
    by (simp add: read_line_def) (simp add: def_parts_def read_definition_def sd_wire_def)
qed

lemma read_line_event:
  assumes "rdSeries rd (evSeriesID ev) = Some sd" and "wire_safe (event_text ev)"
    and "read_event_line [evMetricType ev] sd (event_text ev) (evTimestamp ev) = Some e"
    and "evMetricType ev \<in> {CHR ''c'', CHR ''v'', CHR ''u''}"
  shows "read_line rd (bar_line (ev_parts ev)) = Inr (rd, [e])"
proof -
  have "wire_safe [evMetricType ev]" using assms(4) by (auto simp: wire_safe_def)
  then have "split_on (CHR ''|'') (bar_line (ev_parts ev)) = ev_parts ev"
    using assms(2) by (intro split_bar_line) (simp_all add: ev_parts_def)
  moreover have "bar_line (ev_parts ev) \<noteq> []" unfolding ev_parts_def by (rule bar_line_Nil)
  moreover have "hd (ev_parts ev) \<noteq> ''H''" "hd (ev_parts ev) \<noteq> ''S''"
    using assms(4) by (auto simp: ev_parts_def)
  ultimately show ?thesis
    using assms(1,3) by (simp add: read_line_def) (simp add: ev_parts_def read_event_parts_def)
qed

subsection \<open>Reading a whole body\<close>

lemma read_lines_app:
  "read_lines rd (xs @ ys) =
     (case read_lines rd xs of
        Inl err \<Rightarrow> Inl err
      | Inr (rd', evs) \<Rightarrow>
          (case read_lines rd' ys of
             Inl err \<Rightarrow> Inl err
           | Inr (rd'', evs') \<Rightarrow> Inr (rd'', evs @ evs')))"
  by (induction xs arbitrary: rd) (auto split: sum.split)

definition def_lines :: "nat list \<Rightarrow> seriesDef list \<Rightarrow> string list" where
  "def_lines ids sds = map (\<lambda>i. bar_line (def_parts i (sds ! i))) ids"

lemma read_def_lines:
  assumes "\<forall>s \<in> set sds. list_all wire_safe (sdMetric s # sdLabels s)"
  shows "set ids \<subseteq> {..<length sds} \<Longrightarrow> read_lines rd (def_lines ids sds) =
    Inr (rd\<lparr>rdSeries := \<lambda>j. if j \<in> set ids then Some (sd_wire (sds ! j)) else rdSeries rd j\<rparr>, [])"
proof (induction ids arbitrary: rd)
  case Nil
  then show ?case by (simp add: def_lines_def)
next
  case (Cons i ids)
  then have "sds ! i \<in> set sds" by simp
  then have "read_line rd (bar_line (def_parts i (sds ! i))) =
      Inr (rd\<lparr>rdSeries := (rdSeries rd)(i \<mapsto> sd_wire (sds ! i))\<rparr>, [])"
    using assms by (intro read_line_definition) blast
  moreover have "read_lines (rd\<lparr>rdSeries := (rdSeries rd)(i \<mapsto> sd_wire (sds ! i))\<rparr>) (def_lines ids sds) =
      Inr (rd\<lparr>rdSeries := \<lambda>j. if j \<in> set (i # ids) then Some (sd_wire (sds ! j)) else rdSeries rd j\<rparr>, [])"
    using Cons by (subst Cons.IH) (auto simp: fun_eq_iff)
  ultimately show ?case by (simp add: def_lines_def)
qed

definition item_reads :: "item \<Rightarrow> read_event \<Rightarrow> bool" where
  "item_reads = (\<lambda>(m, ls, mk) e. \<forall>i. evSeriesID (mk i) = i \<and> wire_safe (event_text (mk i)) \<and>
     evMetricType (mk i) \<in> {CHR ''c'', CHR ''v'', CHR ''u''} \<and>
     read_event_line [evMetricType (mk i)] (m, wire_labels ls) (event_text (mk i)) (evTimestamp (mk i)) = Some e)"

lemma payload_items_read:
  assumes "payload_safe p"
  shows "list_all2 item_reads (payload_items oob p) (payload_events oob p)"
proof -
  have "list_all2 item_reads (map (counter_item oob) cs)
      (map (\<lambda>c. ReadCounter (cMetric c) (wire_labels (cLabels c)) (round_int64 oob (cValue c)) (cTs c)) cs)" for cs
    by (simp add: list_all2_conv_all_nth item_reads_def counter_item_def event_text_def read_event_line_def)
  moreover have "list_all2 item_reads (map value_item vs)
      (map (\<lambda>v. ReadValue (vMetric v) (wire_labels (vLabels v)) (vValue v) (vTs v)) vs)"
    if "\<forall>v \<in> set vs. f64_wf (vValue v)" for vs
    using that
    by (simp add: list_all2_conv_all_nth item_reads_def value_item_def event_text_def read_event_line_def read_fmt_float)
  moreover have "list_all2 item_reads (map unique_item us)
      (map (\<lambda>u. ReadUnique (uMetric u) (wire_labels (uLabels u)) (uUniqueID u) (uTs u)) us)"
    if "\<forall>u \<in> set us. wire_safe (uUniqueID u)" for us
    using that
    by (simp add: list_all2_conv_all_nth item_reads_def unique_item_def event_text_def read_event_line_def)
  ultimately show ?thesis
    using assms unfolding payload_items_def payload_events_def payload_safe_def
    by (intro list_all2_appendI) blast+
qed

lemma read_event_lines:
  assumes "rd_defines rd sds"
  shows "list_all2 (encoded_as sds) items evs \<Longrightarrow> list_all2 item_reads items es \<Longrightarrow>
    read_lines rd (map (\<lambda>ev. bar_line (ev_parts ev)) evs) = Inr (rd, es)"
proof (induction items arbitrary: evs es)
  case (Cons it items)
  obtain m ls mk where it: "it = (m, ls, mk)" by (cases it) auto
  obtain ev evs' e es' where evs: "evs = ev # evs'" and es: "es = e # es'"
    and tl: "list_all2 (encoded_as sds) items evs'" "list_all2 item_reads items es'"
    and hd: "encoded_as sds it ev" "item_reads it e"
    using Cons.prems by (auto simp: list_all2_Cons1)
  obtain i where i: "i < length sds" "sds ! i = \<lparr>sdMetric = m, sdLabels = ls\<rparr>" "ev = mk i"
    using hd(1) by (auto simp: encoded_as_def it)
  have "rdSeries rd i = Some (m, wire_labels ls)"
    using assms i by (simp add: rd_defines_def sd_wire_def)
  moreover have "evSeriesID ev = i \<and> wire_safe (event_text ev) \<and>
      evMetricType ev \<in> {CHR ''c'', CHR ''v'', CHR ''u''} \<and>
      read_event_line [evMetricType ev] (m, wire_labels ls) (event_text ev) (evTimestamp ev) = Some e"
    using hd(2) unfolding item_reads_def it i(3) prod.case by blast
  ultimately have "read_line rd (bar_line (ev_parts ev)) = Inr (rd, [e])"
    by (intro read_line_event [where sd = "(m, wire_labels ls)"]) simp_all
  with Cons.IH [OF tl] show ?case by (simp add: evs es)
qed simp

lemma event_lines_safe:
  assumes "list_all2 (encoded_as sds) items evs" and "list_all2 item_reads items es" and "ev \<in> set evs"
  shows "CHR 0x0A \<notin> set (bar_line (ev_parts ev))"
proof -
  obtain j where j: "j < length evs" "ev = evs ! j" using assms(3) by (metis in_set_conv_nth)
  obtain m ls mk where it: "items ! j = (m, ls, mk)" by (cases "items ! j") auto
  have "encoded_as sds (items ! j) ev" and "item_reads (items ! j) (es ! j)"
    using assms(1,2) j by (auto simp: list_all2_conv_all_nth)
  then obtain i where "ev = mk i" and "wire_safe (event_text (mk i))"
      and "evMetricType (mk i) \<in> {CHR ''c'', CHR ''v'', CHR ''u''}"
    unfolding encoded_as_def item_reads_def it prod.case by blast
  then have "list_all wire_safe (ev_parts ev)" by (auto simp: ev_parts_def wire_safe_def [of "[_]"])
  then show ?thesis by (rule wire_safe_join)
qed

lemma header_line_safe: "wire_safe (sessionID st) \<Longrightarrow> CHR 0x0A \<notin> set (bar_line (hd_parts st))"
  by (rule wire_safe_join) (simp add: hd_parts_def wire_safe_def [of "''H''"]
      wire_safe_def [of "''4''"] wire_safe_def [of "''s''"])

lemma def_lines_safe:
  assumes "\<forall>s \<in> set sds. list_all wire_safe (sdMetric s # sdLabels s)" and "set ids \<subseteq> {..<length sds}"
    and "l \<in> set (def_lines ids sds)"
  shows "CHR 0x0A \<notin> set l"
proof -
  obtain i where i: "i \<in> set ids" "l = bar_line (def_parts i (sds ! i))"
    using assms(3) by (auto simp: def_lines_def)
  with assms(2) have "sds ! i \<in> set sds" by auto
  with assms(1) have "list_all wire_safe (sdMetric (sds ! i) # sdLabels (sds ! i))" by blast
  then have "list_all wire_safe (def_parts i (sds ! i))"
    using wire_labels_safe by (simp add: def_parts_def wire_safe_def [of "''S''"])
  then show ?thesis unfolding i(2) by (rule wire_safe_join)
qed

lemma split_lines:
  assumes "\<forall>l \<in> set lines. CHR 0x0A \<notin> set l"
  shows "split_on (CHR 0x0A) (concat (map end_line lines)) = lines @ [[]]"
  using split_on_concat [OF assms] by (simp add: end_line_def [abs_def])

lemma read_line_Nil [simp]: "read_line rd [] = Inr (rd, [])"
  by (simp add: read_line_def)

definition written_ids :: "bool \<Rightarrow> dictionaryState \<Rightarrow> dictionaryState \<Rightarrow> nat list" where
  "written_ids force st st' = [if force then 0 else length (series st) ..< length (series st')]"

lemma written_definitions:
  assumes "enc_inv st items es"
  shows "write_definitions force es =
    concat (map end_line (def_lines (written_ids force st (esDict es)) (series (esDict es))))"
proof (cases force)
  case True
  let ?sds = "series (esDict es)"
  have "enumerate 0 ?sds = map (\<lambda>i. (i, ?sds ! i)) [0..<length ?sds]"
    by (rule nth_equalityI) (simp_all add: nth_enumerate_eq)
  then show ?thesis
    using True by (simp add: write_definitions_def def_lines_def comp_def written_lines written_ids_def)
next
  case False
  have "esNew es = [length (series st) ..< length (series (esDict es))]" "esChanged es \<longleftrightarrow> esNew es \<noteq> []"
    using assms by (simp_all add: enc_inv_def)
  then show ?thesis
    using False by (auto simp: write_definitions_def def_lines_def comp_def written_lines written_ids_def)
qed

definition bump_revision :: "encoderState \<Rightarrow> encoderState" where
  "bump_revision es =
     (if esChanged es then es\<lparr>esDict := (esDict es)\<lparr>revision := revision (esDict es) + 1\<rparr>\<rparr> else es)"

lemma bump_revision_simps [simp]:
  "series (esDict (bump_revision es)) = series (esDict es)"
  "sessionID (esDict (bump_revision es)) = sessionID (esDict es)"
  "esEvents (bump_revision es) = esEvents es"
  "dict_ok (esDict (bump_revision es)) = dict_ok (esDict es)"
  "write_definitions force (bump_revision es) = write_definitions force es"
  by (simp_all add: bump_revision_def dict_ok_def write_definitions_def)

lemma encode_eq:
  "\<not> payload_empty p \<Longrightarrow> encodeLinePayloadV4 oob (Some p) (Some st) force =
     (let es = bump_revision (encode_events oob p st) in
      (write_header (esDict es) @ write_definitions force es @ concat (map write_event (esEvents es)),
       Some (esDict es)))"
  by (simp add: encodeLinePayloadV4_def bump_revision_def Let_def)

text \<open>The lines of a body, and what they say about the dictionary that the encoder leaves.\<close>

definition body_lines :: "bool \<Rightarrow> dictionaryState \<Rightarrow> dictionaryState \<Rightarrow> encodedEvent list \<Rightarrow> string list" where
  "body_lines force st st' evs =
     bar_line (hd_parts st') # def_lines (written_ids force st st') (series st') @
     map (\<lambda>ev. bar_line (ev_parts ev)) evs"

definition encodes_to ::
  "(f64 \<Rightarrow> int) \<Rightarrow> payload \<Rightarrow> dictionaryState \<Rightarrow> bool \<Rightarrow> dictionaryState \<Rightarrow> encodedEvent list \<Rightarrow> bool" where
  "encodes_to oob p st force st' evs \<longleftrightarrow>
     encodeLinePayloadV4 oob (Some p) (Some st) force =
       (concat (map end_line (body_lines force st st' evs)), Some st') \<and>
     (\<forall>l \<in> set (body_lines force st st' evs). CHR 0x0A \<notin> set l) \<and>
     dict_ok st' \<and> sessionID st' = sessionID st \<and>
     take (length (series st)) (series st') = series st \<and>
     length (series st) \<le> length (series st') \<and>
     length (series st') \<le> length (series st) + length (payload_items oob p) \<and>
     revision st' = (if length (series st') = length (series st) then revision st else revision st + 1) \<and>
     list_all2 (encoded_as (series st')) (payload_items oob p) evs"

lemma payload_items_safe: "payload_safe p \<Longrightarrow> \<forall>it \<in> set (payload_items oob p). item_safe it"
  by (auto simp: payload_items_def payload_safe_def item_safe_def counter_item_def value_item_def unique_item_def)

lemma dict_safe_series: "dict_ok st \<Longrightarrow> \<forall>s \<in> set (series st). list_all wire_safe (sdMetric s # sdLabels s)"
  using dict_okD(3) by (auto simp: series_safe_def)

lemma written_ids_below: "set (written_ids force st st') \<subseteq> {..<length (series st')}"
  by (auto simp: written_ids_def)

lemma encode_encodes_to:
  assumes ok: "dict_ok st" and safe: "payload_safe p" and ne: "\<not> payload_empty p"
  shows "\<exists>st' evs. encodes_to oob p st force st' evs"
proof -
  let ?es0 = "encode_events oob p st"
  define es where "es = bump_revision ?es0"
  let ?st' = "esDict es" and ?lines = "body_lines force st (esDict es) (esEvents es)"
  have inv: "enc_inv st (payload_items oob p) ?es0"
    using encode_items_inv [OF ok payload_items_safe [OF safe, of oob]] by (simp add: encode_events_items)
  then have ok': "dict_ok ?st'" and evs: "list_all2 (encoded_as (series ?st')) (payload_items oob p) (esEvents es)"
    by (simp_all add: enc_inv_def es_def)
  have ids: "written_ids force st ?st' = written_ids force st (esDict ?es0)"
    by (simp add: written_ids_def es_def)
  have we: "write_event = (\<lambda>ev. end_line (bar_line (ev_parts ev)))" by (simp add: fun_eq_iff written_lines)
  have body: "write_header ?st' @ write_definitions force es @ concat (map write_event (esEvents es)) =
      concat (map end_line ?lines)"
    using written_definitions [OF inv, of force]
    by (simp add: body_lines_def ids [unfolded es_def] we comp_def written_lines(1) es_def)
  then have enc: "encodeLinePayloadV4 oob (Some p) (Some st) force = (concat (map end_line ?lines), Some ?st')"
    by (simp add: encode_eq [OF ne] Let_def flip: es_def)
  have "\<forall>l \<in> set ?lines. CHR 0x0A \<notin> set l"
    using header_line_safe [OF dict_okD(1) [OF ok']] def_lines_safe [OF dict_safe_series [OF ok'] written_ids_below]
      event_lines_safe [OF evs payload_items_read [OF safe]] by (auto simp: body_lines_def)
  moreover have "revision ?st' = (if length (series ?st') = length (series st) then revision st else revision st + 1)"
    using inv by (auto simp: enc_inv_def es_def bump_revision_def)
  moreover have "sessionID ?st' = sessionID st \<and> take (length (series st)) (series ?st') = series st \<and>
      length (series st) \<le> length (series ?st') \<and>
      length (series ?st') \<le> length (series st) + length (payload_items oob p)"
    using inv by (simp add: enc_inv_def es_def)
  ultimately show ?thesis
    unfolding encodes_to_def using enc ok' evs by blast
qed

lemma read_body_lines:
  "\<forall>l \<in> set lines. CHR 0x0A \<notin> set l \<Longrightarrow>
   read_body rd (concat (map end_line lines)) = read_lines rd (lines @ [[]])"
  by (simp add: read_body_def split_lines)

text \<open>What the reader holds when it comes to the events.\<close>

definition rd_defined :: "bool \<Rightarrow> dictionaryState \<Rightarrow> dictionaryState \<Rightarrow> reader \<Rightarrow> reader" where
  "rd_defined force st st' rd =
     rd\<lparr>rdSession := sessionID st', rdRevision := unat (revision st'),
        rdSeries := \<lambda>j. if j \<in> set (written_ids force st st') then Some (sd_wire (series st' ! j))
          else (if sessionID st' = rdSession rd then rdSeries rd else Map.empty) j\<rparr>"

lemma read_until_events:
  assumes enc: "encodes_to oob p st force st' evs"
  shows "read_body rd (fst (encodeLinePayloadV4 oob (Some p) (Some st) force)) =
    (case read_lines (rd_defined force st st' rd) (map (\<lambda>ev. bar_line (ev_parts ev)) evs) of
       Inl err \<Rightarrow> Inl err
     | Inr (rd', es) \<Rightarrow> Inr (rd', es))"
proof -
  let ?evl = "map (\<lambda>ev. bar_line (ev_parts ev)) evs" and ?ids = "written_ids force st st'"
  let ?rd1 = "rd\<lparr>rdSession := sessionID st', rdRevision := unat (revision st'),
      rdSeries := if sessionID st' = rdSession rd then rdSeries rd else Map.empty\<rparr>"
  have ok': "dict_ok st'" using enc by (simp add: encodes_to_def)
  have r1: "read_line rd (bar_line (hd_parts st')) = Inr (?rd1, [])"
    by (rule read_line_header [OF dict_okD(1) [OF ok']])
  have r2: "read_lines ?rd1 (def_lines ?ids (series st')) = Inr (rd_defined force st st' rd, [])"
    using read_def_lines [OF dict_safe_series [OF ok'] written_ids_below, of ?rd1 force st]
    by (simp add: rd_defined_def cong: if_cong)
  have "read_lines rd (body_lines force st st' evs @ [[]]) =
      (case read_lines ?rd1 (def_lines ?ids (series st') @ (?evl @ [[]])) of Inl err \<Rightarrow> Inl err | Inr (rd', es) \<Rightarrow> Inr (rd', es))"
    using r1 by (simp add: body_lines_def split: sum.split)
  also have "\<dots> = (case read_lines (rd_defined force st st' rd) (?evl @ [[]]) of Inl err \<Rightarrow> Inl err | Inr (rd', es) \<Rightarrow> Inr (rd', es))"
    unfolding read_lines_app r2 by (simp split: sum.split)
  also have "\<dots> = (case read_lines (rd_defined force st st' rd) ?evl of Inl err \<Rightarrow> Inl err | Inr (rd', es) \<Rightarrow> Inr (rd', es))"
    unfolding read_lines_app by (auto split: sum.split)
  finally show ?thesis
    using enc by (auto simp: encodes_to_def read_body_lines)
qed

lemma defines_after:
  assumes enc: "encodes_to oob p st force st' evs" and sync: "force \<or> in_sync rd st"
  shows "rd_defines (rd_defined force st st' rd) (series st')"
  unfolding rd_defines_def
proof (intro allI impI)
  fix i assume i: "i < length (series st')"
  show "rdSeries (rd_defined force st st' rd) i = Some (sd_wire (series st' ! i))"
  proof (cases "i \<in> set (written_ids force st st')")
    case False
    with i have f: "\<not> force" "i < length (series st)" by (auto simp: written_ids_def split: if_splits)
    with sync have s: "rdSession rd = sessionID st" "rdSeries rd i = Some (sd_wire (series st ! i))"
      by (auto simp: in_sync_def rd_defines_def)
    have "take (length (series st)) (series st') = series st" using enc by (simp add: encodes_to_def)
    then have "series st' ! i = series st ! i" using f(2) by (metis nth_take)
    with False s enc show ?thesis by (simp add: rd_defined_def encodes_to_def)
  qed (simp add: rd_defined_def)
qed

lemma encode_reads_back:
  assumes ok: "dict_ok st" and safe: "payload_safe p" and ne: "\<not> payload_empty p"
    and sync: "force \<or> in_sync rd st"
  shows "\<exists>body st' rd'. encodeLinePayloadV4 oob (Some p) (Some st) force = (body, Some st') \<and>
    read_body rd body = Inr (rd', payload_events oob p) \<and>
    dict_ok st' \<and> sessionID st' = sessionID st \<and> in_sync rd' st' \<and>
    rdRevision rd' = unat (revision st')"
proof -
  obtain st' evs where enc: "encodes_to oob p st force st' evs"
    using encode_encodes_to [OF ok safe ne] by blast
  let ?rd2 = "rd_defined force st st' rd"
  have defs: "rd_defines ?rd2 (series st')" by (rule defines_after [OF enc sync])
  have "list_all2 (encoded_as (series st')) (payload_items oob p) evs" using enc by (simp add: encodes_to_def)
  from read_event_lines [OF defs this payload_items_read [OF safe]]
  have "read_body rd (fst (encodeLinePayloadV4 oob (Some p) (Some st) force)) = Inr (?rd2, payload_events oob p)"
    unfolding read_until_events [OF enc] by simp
  moreover have "in_sync ?rd2 st'" using defs by (simp add: in_sync_def rd_defined_def)
  ultimately show ?thesis
    using enc by (intro exI [of _ "fst (encodeLinePayloadV4 oob (Some p) (Some st) force)"] exI [of _ st'] exI [of _ ?rd2])
      (simp add: encodes_to_def rd_defined_def)
qed

text \<open>
  A reader that lost definitions (or never had them) but holds no wrong one: a body is then read
  right or rejected as a whole.
\<close>

definition rd_right :: "reader \<Rightarrow> seriesDef list \<Rightarrow> bool" where
  "rd_right rd sds \<longleftrightarrow> (\<forall>i d. rdSeries rd i = Some d \<longrightarrow> i < length sds \<and> d = sd_wire (sds ! i))"

definition consistent :: "reader \<Rightarrow> dictionaryState \<Rightarrow> bool" where
  "consistent rd st \<longleftrightarrow> (rdSession rd = sessionID st \<longrightarrow> rd_right rd (series st))"

lemma rd_rightD: "rd_right rd sds \<Longrightarrow> rdSeries rd i = Some d \<Longrightarrow> i < length sds \<and> d = sd_wire (sds ! i)"
  unfolding rd_right_def by blast

lemma read_line_unknown:
  assumes "rdSeries rd (evSeriesID ev) = None" and "wire_safe (event_text ev)"
    and "evMetricType ev \<in> {CHR ''c'', CHR ''v'', CHR ''u''}"
  shows "read_line rd (bar_line (ev_parts ev)) = Inl UnknownSeries"
proof -
  have "wire_safe [evMetricType ev]" using assms(3) by (auto simp: wire_safe_def)
  then have "split_on (CHR ''|'') (bar_line (ev_parts ev)) = ev_parts ev"
    using assms(2) by (intro split_bar_line) (simp_all add: ev_parts_def)
  moreover have "bar_line (ev_parts ev) \<noteq> []" unfolding ev_parts_def by (rule bar_line_Nil)
  moreover have "hd (ev_parts ev) \<noteq> ''H''" "hd (ev_parts ev) \<noteq> ''S''"
    using assms(3) by (auto simp: ev_parts_def)
  ultimately show ?thesis
    using assms(1) by (simp add: read_line_def) (simp add: ev_parts_def read_event_parts_def)
qed

lemma read_events_right:
  assumes "rd_right rd sds"
  shows "list_all2 (encoded_as sds) items evs \<Longrightarrow> list_all2 item_reads items es \<Longrightarrow>
    read_lines rd (map (\<lambda>ev. bar_line (ev_parts ev)) evs) \<in> {Inr (rd, es), Inl UnknownSeries}"
proof (induction items arbitrary: evs es)
  case (Cons it items)
  obtain m ls mk where it: "it = (m, ls, mk)" by (cases it) auto
  obtain ev evs' e es' where evs: "evs = ev # evs'" and es: "es = e # es'"
    and tl: "list_all2 (encoded_as sds) items evs'" "list_all2 item_reads items es'"
    and hd: "encoded_as sds it ev" "item_reads it e"
    using Cons.prems by (auto simp: list_all2_Cons1)
  obtain i where i: "i < length sds" "sds ! i = \<lparr>sdMetric = m, sdLabels = ls\<rparr>" "ev = mk i"
    using hd(1) by (auto simp: encoded_as_def it)
  have ev: "evSeriesID ev = i" "wire_safe (event_text ev)" "evMetricType ev \<in> {CHR ''c'', CHR ''v'', CHR ''u''}"
      "read_event_line [evMetricType ev] (m, wire_labels ls) (event_text ev) (evTimestamp ev) = Some e"
    using hd(2) unfolding item_reads_def it i(3) prod.case by blast+
  have "read_line rd (bar_line (ev_parts ev)) \<in> {Inr (rd, [e]), Inl UnknownSeries}"
  proof (cases "rdSeries rd i")
    case None
    then show ?thesis using read_line_unknown [OF _ ev(2,3), of rd] ev(1) by simp
  next
    case (Some d)
    then have "d = (m, wire_labels ls)" using rd_rightD [OF assms Some] i by (simp add: sd_wire_def)
    then show ?thesis using read_line_event [OF _ ev(2,4,3), of rd] ev(1) Some by simp
  qed
  with Cons.IH [OF tl] show ?case by (auto simp: evs es)
qed simp

lemma rd_defined_right:
  assumes enc: "encodes_to oob p st force st' evs" and cons: "consistent rd st"
  shows "rd_right (rd_defined force st st' rd) (series st')"
  unfolding rd_right_def
proof (intro allI impI)
  fix i d assume d: "rdSeries (rd_defined force st st' rd) i = Some d"
  have le: "length (series st) \<le> length (series st')" and tk: "take (length (series st)) (series st') = series st"
    and sess: "sessionID st' = sessionID st"
    using enc by (simp_all add: encodes_to_def)
  show "i < length (series st') \<and> d = sd_wire (series st' ! i)"
  proof (cases "i \<in> set (written_ids force st st')")
    case True
    then show ?thesis using d written_ids_below [of force st st'] by (auto simp: rd_defined_def)
  next
    case False
    then have "rdSession rd = sessionID st" "rdSeries rd i = Some d"
      using d sess by (auto simp: rd_defined_def split: if_split_asm)
    then have i: "i < length (series st)" "d = sd_wire (series st ! i)"
      using cons rd_rightD [of rd "series st" i d] by (simp_all add: consistent_def)
    then have "series st' ! i = series st ! i" using tk by (metis nth_take)
    with i le show ?thesis by simp
  qed
qed

lemma read_consistent:
  assumes enc: "encodes_to oob p st force st' evs" and safe: "payload_safe p" and cons: "consistent rd st"
  shows "read_body rd (fst (encodeLinePayloadV4 oob (Some p) (Some st) force)) \<in>
      {Inr (rd_defined force st st' rd, payload_events oob p), Inl UnknownSeries}"
    and "consistent (rd_defined force st st' rd) st'"
proof -
  have right: "rd_right (rd_defined force st st' rd) (series st')" by (rule rd_defined_right [OF enc cons])
  then show "consistent (rd_defined force st st' rd) st'" by (simp add: consistent_def)
  have "list_all2 (encoded_as (series st')) (payload_items oob p) evs" using enc by (simp add: encodes_to_def)
  from read_events_right [OF right this payload_items_read [OF safe]]
  show "read_body rd (fst (encodeLinePayloadV4 oob (Some p) (Some st) force)) \<in>
      {Inr (rd_defined force st st' rd, payload_events oob p), Inl UnknownSeries}"
    unfolding read_until_events [OF enc] by auto
qed

subsection \<open>Sequences of payloads\<close>

fun encode_stream ::
  "(f64 \<Rightarrow> int) \<Rightarrow> payload list \<Rightarrow> dictionaryState \<Rightarrow> string list \<times> dictionaryState" where
  "encode_stream oob [] st = ([], st)"
| "encode_stream oob (p # ps) st =
     (case encodeLinePayloadV4 oob (Some p) (Some st) False of
        (body, Some st') \<Rightarrow> (let (bodies, st'') = encode_stream oob ps st' in (body # bodies, st''))
      | (body, None) \<Rightarrow> ([body], st))"

fun read_stream :: "reader \<Rightarrow> string list \<Rightarrow> read_error + reader \<times> read_event list" where
  "read_stream rd [] = Inr (rd, [])"
| "read_stream rd (body # bodies) =
     (case read_body rd body of
        Inl err \<Rightarrow> Inl err
      | Inr (rd', evs) \<Rightarrow>
          (case read_stream rd' bodies of
             Inl err \<Rightarrow> Inl err
           | Inr (rd'', evs') \<Rightarrow> Inr (rd'', evs @ evs')))"

lemma stream_reads_back:
  assumes "dict_ok st" and "in_sync rd st" and "\<forall>p \<in> set ps. payload_safe p \<and> \<not> payload_empty p"
  shows "\<exists>rd'. read_stream rd (fst (encode_stream oob ps st)) =
      Inr (rd', concat (map (payload_events oob) ps)) \<and>
    dict_ok (snd (encode_stream oob ps st)) \<and> in_sync rd' (snd (encode_stream oob ps st))"
  using assms
proof (induction ps arbitrary: st rd)
  case (Cons p ps)
  obtain body st' rd' where e: "encodeLinePayloadV4 oob (Some p) (Some st) False = (body, Some st')"
      and r: "read_body rd body = Inr (rd', payload_events oob p)" "dict_ok st'" "in_sync rd' st'"
    using encode_reads_back [of st p False rd oob] Cons.prems by auto
  obtain rd'' where "read_stream rd' (fst (encode_stream oob ps st')) =
      Inr (rd'', concat (map (payload_events oob) ps))"
      "dict_ok (snd (encode_stream oob ps st'))" "in_sync rd'' (snd (encode_stream oob ps st'))"
    using Cons.IH [OF r(2,3)] Cons.prems(3) by auto
  then show ?case using e r(1) by (simp add: case_prod_beta)
qed simp

lemma in_sync_fresh [simp]: "in_sync rd (newDictionaryState now)"
  by (simp add: in_sync_def rd_defines_def newDictionaryState_def)

definition payload_size :: "payload \<Rightarrow> nat" where
  "payload_size p = length (pCounters p) + length (pValues p) + length (pUniques p)"

lemma length_payload_items [simp]: "length (payload_items oob p) = payload_size p"
  by (simp add: payload_items_def payload_size_def)

subsection \<open>Properties\<close>

text \<open>
  A body written for a safe, non-empty payload reads back as exactly the events
  of the payload (counter values rounded to integers, values bit for bit, empty labels dropped),
  for any reader that is in step with the dictionary, and for any reader at all when the
  definitions are forced; the reader stays in step with the dictionary the encoder leaves, and
  holds its revision.
\<close>

theorem body_roundtrip:
  assumes "dict_ok st" and "payload_safe p" and "\<not> payload_empty p" and "forceDefinitions \<or> in_sync rd st"
  shows "\<exists>body st' rd'. encodeLinePayloadV4 oob (Some p) (Some st) forceDefinitions = (body, Some st') \<and>
    read_body rd body = Inr (rd', payload_events oob p) \<and>
    dict_ok st' \<and> sessionID st' = sessionID st \<and> in_sync rd' st' \<and>
    rdRevision rd' = unat (revision st')"
  by (rule encode_reads_back [OF assms])

definition wire_sample :: payload where
  "wire_sample = \<lparr>batchID = ''b'',
     pCounters = [\<lparr>cMetric = ''requests'', cValue = f64_of_int 3, cLabels = [''env=prod''], cTs = 7\<rparr>],
     pValues = [\<lparr>vMetric = ''load'', vValue = 0, vLabels = [], vTs = 8\<rparr>],
     pUniques = [\<lparr>uMetric = ''users'', uUniqueID = ''42'', uLabels = [''env=prod''], uTs = 9\<rparr>]\<rparr>"

lemma wire_sample_safe: "payload_safe wire_sample" "\<not> payload_empty wire_sample"
  by (simp_all add: payload_safe_def wire_sample_def series_safe_def nul_free_def wire_safe_def
      payload_empty_def zero_f64_def minExp_def)

lemma wire_sample_events:
  "payload_events oob wire_sample =
     [ReadCounter ''requests'' [''env=prod''] 3 7, ReadValue ''load'' [] 0 8,
      ReadUnique ''users'' [''env=prod''] ''42'' 9]"
  by (simp add: payload_events_def wire_sample_def wire_labels_def round_int64_of_int)

theorem body_roundtrip_witness:
  "\<exists>body st' rd'. encodeLinePayloadV4 (\<lambda>x. 0) (Some wire_sample) (Some (newDictionaryState 1)) False = (body, Some st') \<and>
    read_body \<lparr>rdSession = ''old'', rdRevision = 4, rdSeries = Map.empty\<rparr> body =
      Inr (rd', [ReadCounter ''requests'' [''env=prod''] 3 7, ReadValue ''load'' [] 0 8,
        ReadUnique ''users'' [''env=prod''] ''42'' 9])"
  using body_roundtrip [of "newDictionaryState 1" wire_sample False
      "\<lparr>rdSession = ''old'', rdRevision = 4, rdSeries = Map.empty\<rparr>" "\<lambda>x. 0"]
    wire_sample_safe wire_sample_events by fastforce

text \<open>
  C6 (roundtrip). From a fresh dictionary, whatever the receiver holds, any sequence of safe,
  non-empty payloads reads back as the concatenation of their events, although each series is
  defined only in the body where it first appears.
\<close>

theorem stream_roundtrip:
  assumes "\<forall>p \<in> set ps. payload_safe p \<and> \<not> payload_empty p"
  shows "\<exists>rd'. read_stream rd (fst (encode_stream oob ps (newDictionaryState now))) =
      Inr (rd', concat (map (payload_events oob) ps))"
  using stream_reads_back [OF dict_ok_new in_sync_fresh assms] by blast

theorem stream_roundtrip_witness:
  "\<exists>rd'. read_stream \<lparr>rdSession = [], rdRevision = 0, rdSeries = Map.empty\<rparr>
      (fst (encode_stream (\<lambda>x. 0) [wire_sample, wire_sample] (newDictionaryState 1))) =
      Inr (rd', payload_events (\<lambda>x. 0) wire_sample @ payload_events (\<lambda>x. 0) wire_sample)"
  using stream_roundtrip [of "[wire_sample, wire_sample]" "\<lparr>rdSession = [], rdRevision = 0, rdSeries = Map.empty\<rparr>"
      "\<lambda>x. 0" 1] wire_sample_safe by simp

text \<open>
  The dictionary only grows: encoding a payload keeps every number already given
  (also what it stands for), adds at most one series per event, keeps series distinct, moves the
  revision exactly when a series was added, and writes exactly the definitions of the added series,
  in order, before the events.
\<close>

theorem dictionary_grows:
  assumes "dict_ok st" and "payload_safe p" and "\<not> payload_empty p"
  shows "\<exists>st' evs. encodeLinePayloadV4 oob (Some p) (Some st) False =
      (write_header st' @
       concat (map (\<lambda>i. writeSeriesDefinition i (series st' ! i)) [length (series st) ..< length (series st')]) @
       concat (map write_event evs), Some st') \<and>
    length evs = payload_size p \<and>
    take (length (series st)) (series st') = series st \<and>
    length (series st') \<le> length (series st) + payload_size p \<and>
    distinct (map sd_key (series st')) \<and>
    revision st' = (if length (series st') = length (series st) then revision st else revision st + 1)"
proof -
  obtain st' evs where enc: "encodes_to oob p st False st' evs"
    using encode_encodes_to [OF assms] by blast
  have we: "end_line (bar_line (hd_parts st')) = write_header st'"
    "(\<lambda>x. end_line (bar_line (ev_parts x))) = write_event"
    "(\<lambda>x. end_line (bar_line (def_parts x (series st' ! x)))) = (\<lambda>i. writeSeriesDefinition i (series st' ! i))"
    by (simp_all add: written_lines fun_eq_iff)
  have "concat (map end_line (body_lines False st st' evs)) = write_header st' @
       concat (map (\<lambda>i. writeSeriesDefinition i (series st' ! i)) [length (series st) ..< length (series st')]) @
       concat (map write_event evs)"
    by (simp add: body_lines_def def_lines_def written_ids_def comp_def we)
  then show ?thesis
    using enc dict_ok_distinct [of st']
    by (intro exI [of _ st'] exI [of _ evs]) (auto simp: encodes_to_def dest: list_all2_lengthD)
qed

theorem dictionary_grows_witness:
  "\<exists>st' evs. encodeLinePayloadV4 (\<lambda>x. 0) (Some wire_sample) (Some (newDictionaryState 1)) False =
      (write_header st' @ concat (map (\<lambda>i. writeSeriesDefinition i (series st' ! i)) [0 ..< length (series st')]) @
       concat (map write_event evs), Some st') \<and> length evs = 3 \<and> length (series st') \<le> 3"
  using dictionary_grows [OF dict_ok_new wire_sample_safe, of "\<lambda>x. 0" 1]
  by (fastforce simp: newDictionaryState_def payload_size_def wire_sample_def)

text \<open>
  C15 (safety). A receiver that lost some or all definitions of the session, but holds no wrong one,
  never misreads a body: it either reads exactly the events of the payload or finds an undefined
  number (which the transport answers with a fresh dictionary); a wrong attribution cannot happen.
\<close>

theorem lost_definitions_detected:
  assumes "dict_ok st" and "payload_safe p" and "\<not> payload_empty p" and "consistent rd st"
  shows "\<exists>body st'. encodeLinePayloadV4 oob (Some p) (Some st) forceDefinitions = (body, Some st') \<and>
    dict_ok st' \<and>
    (read_body rd body = Inl UnknownSeries \<or>
     (\<exists>rd'. read_body rd body = Inr (rd', payload_events oob p) \<and> consistent rd' st'))"
proof -
  obtain st' evs where enc: "encodes_to oob p st forceDefinitions st' evs"
    using encode_encodes_to [OF assms(1-3)] by blast
  have "dict_ok st'"
    and "encodeLinePayloadV4 oob (Some p) (Some st) forceDefinitions =
      (fst (encodeLinePayloadV4 oob (Some p) (Some st) forceDefinitions), Some st')"
    using enc by (simp_all add: encodes_to_def)
  then show ?thesis using read_consistent [OF enc assms(2,4)] by blast
qed

theorem lost_definitions_detected_witness:
  "\<exists>body st'. encodeLinePayloadV4 (\<lambda>x. 0) (Some wire_sample) (Some (newDictionaryState 1)) False = (body, Some st') \<and>
    (read_body \<lparr>rdSession = ''1'', rdRevision = 0, rdSeries = Map.empty\<rparr> body = Inl UnknownSeries \<or>
     (\<exists>rd'. read_body \<lparr>rdSession = ''1'', rdRevision = 0, rdSeries = Map.empty\<rparr> body =
        Inr (rd', payload_events (\<lambda>x. 0) wire_sample)))"
  using lost_definitions_detected [OF dict_ok_new wire_sample_safe, of
      "\<lparr>rdSession = ''1'', rdRevision = 0, rdSeries = Map.empty\<rparr>" 1 "\<lambda>x. 0" False]
  by (fastforce simp: consistent_def rd_right_def)

text \<open>The name of a counter followed by event lines of its own, in the syntax of the protocol.\<close>

definition injecting_name :: "string \<Rightarrow> (int \<times> int) list \<Rightarrow> string" where
  "injecting_name m forged =
     m @ concat (map (\<lambda>(k, t). [CHR 0x0A] @ ''c|0|'' @ fmt_int k @ ''|'' @ fmt_int t) forged)"

definition single_counter :: "string \<Rightarrow> f64 \<Rightarrow> int \<Rightarrow> payload" where
  "single_counter m v ts =
     \<lparr>batchID = ''b'', pCounters = [\<lparr>cMetric = m, cValue = v, cLabels = [], cTs = ts\<rparr>], pValues = [], pUniques = []\<rparr>"

definition counter_of_first :: "int \<times> int \<Rightarrow> encodedEvent" where
  "counter_of_first = (\<lambda>(k, t). \<lparr>evMetricType = CHR ''c'', evSeriesID = 0, evIntValue = k, evFloatValue = 0,
     evUniqueID = [], evTimestamp = t\<rparr>)"

lemma fmt_nat_0: "fmt_nat 10 0 = ''0''"
  by (simp add: fmt_nat.simps digit_char_def char_of_def upt_rec bit_Suc_0_iff)

lemma counter_of_first_line:
  "bar_line (ev_parts (counter_of_first (k, t))) = ''c|0|'' @ fmt_int k @ ''|'' @ fmt_int t"
  by (simp add: counter_of_first_def ev_parts_def bar_line_def event_text_def fmt_nat_0)

lemma injecting_name_lines:
  "end_line (''S|0|'' @ injecting_name m forged) =
     concat (map end_line (bar_line (def_parts 0 \<lparr>sdMetric = m, sdLabels = []\<rparr>) #
       map (\<lambda>e. bar_line (ev_parts (counter_of_first e))) forged))"
proof -
  have "concat (map (\<lambda>(k, t). [CHR 0x0A] @ ''c|0|'' @ fmt_int k @ ''|'' @ fmt_int t) forged) @ [CHR 0x0A] =
      CHR 0x0A # concat (map (\<lambda>e. end_line (bar_line (ev_parts (counter_of_first e)))) forged)"
    by (induction forged) (auto simp: counter_of_first_line end_line_def)
  then show ?thesis
    by (simp add: injecting_name_def end_line_def bar_line_def def_parts_def wire_labels_def fmt_nat_0 comp_def)
qed

lemma single_counter_body:
  "fst (encodeLinePayloadV4 oob (Some (single_counter name v ts)) (Some (newDictionaryState now)) False) =
     end_line (bar_line (hd_parts ((newDictionaryState now)\<lparr>revision := 1\<rparr>))) @ end_line (''S|0|'' @ name) @
     end_line (bar_line (ev_parts (counter_of_first (round_int64 oob v, ts))))"
  by (simp add: encodeLinePayloadV4_def single_counter_def payload_empty_def encode_events_def encode_counter_def
      getSeriesID_def newDictionaryState_def written_lines hd_parts_def write_definitions_def cloneLabels_def)
    (simp add: bar_line_def def_parts_def wire_labels_def fmt_nat_0 counter_of_first_def)

lemma read_counter_of_first:
  assumes "rdSeries rd 0 = Some (m, [])"
  shows "read_line rd (bar_line (ev_parts (counter_of_first (k, t)))) = Inr (rd, [ReadCounter m [] k t])"
  by (rule read_line_event [where sd = "(m, [])"])
    (use assms in \<open>simp_all add: counter_of_first_def event_text_def read_event_line_def\<close>)

lemma read_counters_of_first:
  assumes "rdSeries rd 0 = Some (m, [])"
  shows "read_lines rd (map (\<lambda>e. bar_line (ev_parts (counter_of_first e))) es) =
    Inr (rd, map (\<lambda>(k, t). ReadCounter m [] k t) es)"
  by (induction es) (auto simp: read_counter_of_first [OF assms])

text \<open>
  C39 (safety). The names of series are not escaped, and \<open>Count\<close> takes any name (only \<open>Label\<close> replaces the
  characters of the protocol): for every metric name, every list of values and times, and every
  reader, a name that continues after a line feed in the syntax of events makes the body of one counter read
  as all of these events of that metric, although only the last one was recorded, and that under
  another name.
\<close>

theorem unescaped_name_injects:
  assumes "wire_safe m"
  shows "\<exists>rd'. read_body rd (fst (encodeLinePayloadV4 oob (Some (single_counter (injecting_name m forged) v ts))
        (Some (newDictionaryState now)) False)) =
      Inr (rd', map (\<lambda>(k, t). ReadCounter m [] k t) forged @ [ReadCounter m [] (round_int64 oob v) ts]) \<and>
    payload_events oob (single_counter (injecting_name m forged) v ts) =
      [ReadCounter (injecting_name m forged) [] (round_int64 oob v) ts]"
proof -
  let ?st = "(newDictionaryState now)\<lparr>revision := 1\<rparr>" and ?sd = "\<lparr>sdMetric = m, sdLabels = []\<rparr>"
  let ?es = "forged @ [(round_int64 oob v, ts)]"
  let ?lines = "bar_line (hd_parts ?st) # bar_line (def_parts 0 ?sd) #
    map (\<lambda>e. bar_line (ev_parts (counter_of_first e))) ?es"
  have sess: "wire_safe (sessionID ?st)" by (simp add: newDictionaryState_def)
  have ev: "CHR 0x0A \<notin> set (bar_line (ev_parts (counter_of_first e)))" for e
    by (cases e) (auto intro!: wire_safe_join simp: ev_parts_def counter_of_first_def event_text_def wire_safe_def [of "''c''"])
  have "CHR 0x0A \<notin> set (bar_line (def_parts 0 ?sd))"
    using assms by (intro wire_safe_join) (simp add: def_parts_def wire_labels_def wire_safe_def [of "''S''"])
  then have safe: "\<forall>l \<in> set ?lines. CHR 0x0A \<notin> set l" using ev header_line_safe [OF sess] by auto
  define rd1 where "rd1 = rd\<lparr>rdSession := sessionID ?st, rdRevision := unat (revision ?st),
      rdSeries := (if sessionID ?st = rdSession rd then rdSeries rd else Map.empty)(0 \<mapsto> (m, []))\<rparr>"
  have body: "fst (encodeLinePayloadV4 oob (Some (single_counter (injecting_name m forged) v ts))
      (Some (newDictionaryState now)) False) = concat (map end_line ?lines)"
    unfolding single_counter_body injecting_name_lines by simp
  have "read_lines rd (bar_line (hd_parts ?st) # bar_line (def_parts 0 ?sd) # ls) =
      (case read_lines rd1 ls of Inl err \<Rightarrow> Inl err | Inr (rd', evs) \<Rightarrow> Inr (rd', evs))" for ls
    using assms
    by (simp add: read_line_header [OF sess] read_line_definition rd1_def sd_wire_def wire_labels_def split: sum.split)
  moreover have "read_lines rd1 (map (\<lambda>e. bar_line (ev_parts (counter_of_first e))) ?es) =
      Inr (rd1, map (\<lambda>(k, t). ReadCounter m [] k t) ?es)"
    by (rule read_counters_of_first) (simp add: rd1_def)
  ultimately have "read_lines rd ?lines = Inr (rd1, map (\<lambda>(k, t). ReadCounter m [] k t) ?es)" by simp
  then have "read_body rd (concat (map end_line ?lines)) = Inr (rd1, map (\<lambda>(k, t). ReadCounter m [] k t) ?es)"
    unfolding read_body_lines [OF safe] read_lines_app by simp
  then show ?thesis unfolding body by (simp add: payload_events_def single_counter_def wire_labels_def)
qed

theorem unescaped_name_injects_witness:
  "\<exists>rd'. read_body \<lparr>rdSession = [], rdRevision = 0, rdSeries = Map.empty\<rparr>
      (fst (encodeLinePayloadV4 (\<lambda>x. 0) (Some (single_counter (injecting_name ''a'' [(900, 1), (- 4, 2)]) (f64_of_int 5) 3))
        (Some (newDictionaryState 1)) False)) =
    Inr (rd', [ReadCounter ''a'' [] 900 1, ReadCounter ''a'' [] (- 4) 2, ReadCounter ''a'' [] 5 3])"
proof -
  have "wire_safe ''a''" by (simp add: wire_safe_def)
  then show ?thesis
    using unescaped_name_injects [of "''a''" "\<lparr>rdSession = [], rdRevision = 0, rdSeries = Map.empty\<rparr>" "\<lambda>x. 0"
        "[(900, 1), (- 4, 2)]" "f64_of_int 5" 3 1]
    by (auto simp: round_int64_of_int)
qed

end
