(* ===== verification/GoErrors.thy ===== *)
theory GoErrors
  imports GoStrings
begin

section \<open>Error values (transport.go, client.go)\<close>

text \<open>
  Go errors as a datatype: the two error types of the repository, the standard values the retry
  decision names, wrappers, and any other error. What an error unwraps to is a field, so that
  \<open>errors.As\<close> and \<open>errors.Is\<close> are searches along \<open>unwrap_chain\<close>. Typed nil pointers are not
  modelled.
\<close>

record HTTPTransportError =
  Method :: string
  Endpoint :: string
  BatchID :: string
  StatusCode :: int
  Status :: string
  ResponseCode :: string
  Detail :: string
  Accepted :: int
  Dropped :: int
  Rejected :: int
  RequestBytes :: int
  DictionarySession :: string
  DictionaryRevision :: nat
  DictionarySeries :: int
  SeriesDefinitions :: int
  SeriesDefinitionBytes :: int
  EventLines :: int
  EventBytes :: int
  EventSeriesMinID :: int
  EventSeriesMaxID :: int
  EventSeriesSamples :: string
  LargestSeriesMetric :: string
  LargestSeriesDefinitionBytes :: int
  LargestSeriesLabels :: int
  LargestLabelKey :: string
  LargestLabelBytes :: int
  LargestLabelValuePrefix :: string

text \<open>
  \<open>NetErr\<close> is any other value that implements \<open>net.Error\<close> (\<open>*url.Error\<close>, \<open>*net.OpError\<close>, ...) with
  what it unwraps to, \<open>MarkedErr\<close> any other value with a \<open>StopIngest\<close> method (a custom transport's),
  \<open>WrapErr\<close> the result of \<open>fmt.Errorf\<close> with \<open>%w\<close>. \<open>context.DeadlineExceeded\<close> and \<open>syscall.Errno\<close>
  implement \<open>net.Error\<close>, \<open>io.EOF\<close> does not.
\<close>

datatype go_error =
    HTTPTransportErr HTTPTransportError
  | StopIngestErr int "go_error option"
  | MarkedErr bool "go_error option"
  | NetErr string "go_error option"
  | DeadlineExceeded
  | Errno nat
  | EOF
  | UnexpectedEOF
  | WrapErr string go_error
  | PlainErr string

fun unwrap_chain :: "go_error \<Rightarrow> go_error list" where
  "unwrap_chain (StopIngestErr code e) =
     StopIngestErr code e # (case e of None \<Rightarrow> [] | Some e' \<Rightarrow> unwrap_chain e')"
| "unwrap_chain (MarkedErr b e) = MarkedErr b e # (case e of None \<Rightarrow> [] | Some e' \<Rightarrow> unwrap_chain e')"
| "unwrap_chain (NetErr s e) = NetErr s e # (case e of None \<Rightarrow> [] | Some e' \<Rightarrow> unwrap_chain e')"
| "unwrap_chain (WrapErr s e) = WrapErr s e # unwrap_chain e"
| "unwrap_chain e = [e]"

text \<open>\<open>errors.As\<close>: the first value of the chain that the target accepts.\<close>

fun errors_as :: "(go_error \<Rightarrow> 'a option) \<Rightarrow> go_error list \<Rightarrow> 'a option" where
  "errors_as f [] = None"
| "errors_as f (e # es) = (case f e of Some x \<Rightarrow> Some x | None \<Rightarrow> errors_as f es)"

fun stop_marker :: "go_error \<Rightarrow> bool option" where
  "stop_marker (StopIngestErr code e) = Some True"
| "stop_marker (MarkedErr b e) = Some b"
| "stop_marker _ = None"

definition IsStopIngestError :: "go_error \<Rightarrow> bool" where
  "IsStopIngestError err = (errors_as stop_marker (unwrap_chain err) = Some True)"

fun as_http_error :: "go_error \<Rightarrow> HTTPTransportError option" where
  "as_http_error (HTTPTransportErr h) = Some h"
| "as_http_error _ = None"

fun is_net_error :: "go_error \<Rightarrow> bool" where
  "is_net_error (NetErr _ _) = True"
| "is_net_error DeadlineExceeded = True"
| "is_net_error (Errno _) = True"
| "is_net_error _ = False"

text \<open>
  Sentinel errors of client.go that no function returns: a closed client drops silently, and the other
  one is only the reason logged with a batch that the backoff gate defers.
\<close>

definition ErrClientClosed :: go_error where "ErrClientClosed = PlainErr ''statok: client closed''"
definition errClientBackoffActive :: go_error where
  "errClientBackoffActive = PlainErr ''statok: transient ingest backoff active''"

lemma backoff_not_retried: "\<not> IsStopIngestError errClientBackoffActive" "unwrap_chain errClientBackoffActive = [errClientBackoffActive]"
  by (simp_all add: errClientBackoffActive_def IsStopIngestError_def)

definition ECONNREFUSED :: nat where "ECONNREFUSED = 111"
definition ECONNRESET :: nat where "ECONNRESET = 104"
definition ETIMEDOUT :: nat where "ETIMEDOUT = 110"

text \<open>\<open>shouldRetryTransport\<close> of client.go; \<open>None\<close> is a nil error.\<close>

definition shouldRetryTransport :: "go_error option \<Rightarrow> bool" where
  "shouldRetryTransport err =
     (case err of
        None \<Rightarrow> False
      | Some e \<Rightarrow>
          (if IsStopIngestError e then False
           else case errors_as as_http_error (unwrap_chain e) of
             Some h \<Rightarrow> StatusCode h \<in> {408, 429, 500, 502, 503, 504}
           | None \<Rightarrow>
               (if list_ex is_net_error (unwrap_chain e) then True
                else DeadlineExceeded \<in> set (unwrap_chain e) \<or> EOF \<in> set (unwrap_chain e) \<or>
                  UnexpectedEOF \<in> set (unwrap_chain e) \<or>
                  Errno ECONNRESET \<in> set (unwrap_chain e) \<or>
                  Errno ECONNREFUSED \<in> set (unwrap_chain e) \<or>
                  Errno ETIMEDOUT \<in> set (unwrap_chain e))))"

lemma chain_self [simp]: "e \<in> set (unwrap_chain e)"
  by (cases e) auto

lemma errors_as_None: "errors_as f es = None \<longleftrightarrow> (\<forall>e \<in> set es. f e = None)"
  by (induction es) (auto split: option.splits)

lemma errors_as_Some: "errors_as f es = Some x \<Longrightarrow> \<exists>e \<in> set es. f e = Some x"
  by (induction es) (auto split: option.splits)

lemma stop_StopIngestErr [simp]: "IsStopIngestError (StopIngestErr code e)"
  by (simp add: IsStopIngestError_def)

lemma stop_wrap [simp]: "IsStopIngestError (WrapErr s e) = IsStopIngestError e"
  by (simp add: IsStopIngestError_def)

lemma stop_http [simp]: "\<not> IsStopIngestError (HTTPTransportErr h)"
  by (simp add: IsStopIngestError_def)

lemma stop_never_retried: "IsStopIngestError e \<Longrightarrow> \<not> shouldRetryTransport (Some e)"
  by (simp add: shouldRetryTransport_def)

subsection \<open>What becomes of a failed send\<close>

text \<open>
  The specification, by the shape of the error alone and without chains and searches: the outermost
  stop marker decides whether the client stops; otherwise the status of an HTTP response inside the
  error decides, and without one, whether a network error or an end of file is inside.
\<close>

datatype fate = StopClient | RetryBatch | DropBatch

fun asks_stop :: "go_error \<Rightarrow> bool" where
  "asks_stop (StopIngestErr code e) = True"
| "asks_stop (MarkedErr b e) = b"
| "asks_stop (NetErr s (Some e)) = asks_stop e"
| "asks_stop (WrapErr s e) = asks_stop e"
| "asks_stop e = False"

fun http_status :: "go_error \<Rightarrow> int option" where
  "http_status (HTTPTransportErr h) = Some (StatusCode h)"
| "http_status (StopIngestErr code (Some e)) = http_status e"
| "http_status (MarkedErr b (Some e)) = http_status e"
| "http_status (NetErr s (Some e)) = http_status e"
| "http_status (WrapErr s e) = http_status e"
| "http_status e = None"

fun connection_lost :: "go_error \<Rightarrow> bool" where
  "connection_lost (StopIngestErr code (Some e)) = connection_lost e"
| "connection_lost (MarkedErr b (Some e)) = connection_lost e"
| "connection_lost (WrapErr s e) = connection_lost e"
| "connection_lost (NetErr s e) = True"
| "connection_lost DeadlineExceeded = True"
| "connection_lost (Errno n) = True"
| "connection_lost EOF = True"
| "connection_lost UnexpectedEOF = True"
| "connection_lost e = False"

definition fate_of :: "go_error \<Rightarrow> fate" where
  "fate_of e =
     (if asks_stop e then StopClient
      else case http_status e of
        Some s \<Rightarrow> if s = 408 \<or> s = 429 \<or> s = 500 \<or> s = 502 \<or> s = 503 \<or> s = 504 then RetryBatch else DropBatch
      | None \<Rightarrow> if connection_lost e then RetryBatch else DropBatch)"

lemma asks_stop_iff: "asks_stop e = IsStopIngestError e"
  by (induction e rule: asks_stop.induct) (simp_all add: IsStopIngestError_def)

lemma http_status_eq: "http_status e = map_option StatusCode (errors_as as_http_error (unwrap_chain e))"
  by (induction e rule: http_status.induct) simp_all

lemma connection_lost_iff:
  "connection_lost e \<longleftrightarrow> list_ex (\<lambda>x. is_net_error x \<or> x = EOF \<or> x = UnexpectedEOF) (unwrap_chain e)"
  by (induction e rule: connection_lost.induct) simp_all

text \<open>
  The retry decision along the chain; the errno list of the source adds nothing, since every errno
  is a network error.
\<close>

lemma retry_decision:
  "shouldRetryTransport (Some e) \<longleftrightarrow>
     \<not> IsStopIngestError e \<and>
     (case errors_as as_http_error (unwrap_chain e) of
        Some h \<Rightarrow> StatusCode h = 408 \<or> StatusCode h = 429 \<or> StatusCode h = 500 \<or>
          StatusCode h = 502 \<or> StatusCode h = 503 \<or> StatusCode h = 504
      | None \<Rightarrow> list_ex (\<lambda>x. is_net_error x \<or> x = EOF \<or> x = UnexpectedEOF) (unwrap_chain e))"
proof -
  have sub: "list_ex (\<lambda>x. is_net_error x \<or> x = EOF \<or> x = UnexpectedEOF) (unwrap_chain e) \<longleftrightarrow>
      list_ex is_net_error (unwrap_chain e) \<or> DeadlineExceeded \<in> set (unwrap_chain e) \<or>
      EOF \<in> set (unwrap_chain e) \<or> UnexpectedEOF \<in> set (unwrap_chain e) \<or>
      Errno ECONNRESET \<in> set (unwrap_chain e) \<or> Errno ECONNREFUSED \<in> set (unwrap_chain e) \<or>
      Errno ETIMEDOUT \<in> set (unwrap_chain e)"
  proof -
    have "is_net_error x \<or> x = EOF \<or> x = UnexpectedEOF \<longleftrightarrow> x \<in> {DeadlineExceeded, EOF, UnexpectedEOF,
        Errno ECONNRESET, Errno ECONNREFUSED, Errno ETIMEDOUT} \<or> is_net_error x" for x
      by auto
    then show ?thesis unfolding list_ex_iff by blast
  qed
  show ?thesis
    by (cases "errors_as as_http_error (unwrap_chain e)") (simp_all add: shouldRetryTransport_def sub)
qed

lemma fate_of_stop: "IsStopIngestError e \<longleftrightarrow> fate_of e = StopClient"
  by (auto simp: fate_of_def asks_stop_iff split: option.split)

lemma fate_of_retry: "shouldRetryTransport (Some e) \<longleftrightarrow> fate_of e = RetryBatch"
  unfolding retry_decision fate_of_def asks_stop_iff http_status_eq connection_lost_iff
  by (auto split: option.split)

end
