(* ===== verification/Config.thy ===== *)
theory Config
  imports GoErrors
begin

section \<open>Configuration (config.go)\<close>

text \<open>
  The fixed limits, the workload check, the endpoint normalisation and the defaults of a
  configuration. \<open>net/url\<close> is a parameter: \<open>url_parse\<close> gives the parsed URL or an error and
  \<open>url_string\<close> writes one. Durations are nanoseconds.
\<close>

definition defaultQueueSize :: nat where "defaultQueueSize = 64 * 1024"
definition defaultMaxBatchSize :: nat where "defaultMaxBatchSize = 512"
definition defaultMaxDictionarySeries :: nat where "defaultMaxDictionarySeries = 2048"
definition defaultMaxTotalSeries :: nat where "defaultMaxTotalSeries = 2048"
definition second :: int where "second = 1000000000"
definition defaultRetryQueueSize :: nat where "defaultRetryQueueSize = 128"
definition defaultRetryFlushMaxSends :: nat where "defaultRetryFlushMaxSends = 1"
definition defaultRetryMaxAttempts :: int where "defaultRetryMaxAttempts = 8"
definition defaultRetryBaseDelay :: int where "defaultRetryBaseDelay = second"
definition defaultRetryMaxDelay :: int where "defaultRetryMaxDelay = 8 * second"
definition defaultRetryJitterWindow :: int where "defaultRetryJitterWindow = second"
definition defaultClientBackoffMaxDelay :: int where "defaultClientBackoffMaxDelay = 30 * second"
definition defaultClientBackoffJitterWindow :: int where "defaultClientBackoffJitterWindow = 5 * second"
definition defaultEndpointHost :: string where "defaultEndpointHost = ''prostometrics.ru''"
definition defaultIngestPath :: string where "defaultIngestPath = ''/api/i/batch''"
definition defaultStopStatusCode :: int where "defaultStopStatusCode = 401"
definition workloadMaxLen :: nat where "workloadMaxLen = 100"

definition defaultStopResponseCodes :: "string list" where
  "defaultStopResponseCodes = [''unauthorized'', ''unsupported_protocol_version'']"

definition ErrInvalidWorkload :: go_error where
  "ErrInvalidWorkload = PlainErr ''statok: invalid workload''"
definition ErrMissingAPIKey :: go_error where
  "ErrMissingAPIKey = PlainErr ''statok: API key is required for HTTP transport''"
definition ErrAPIKeyAuthorizationConflict :: go_error where
  "ErrAPIKeyAuthorizationConflict = PlainErr ''statok: API key conflicts with custom Authorization header''"

subsection \<open>The workload\<close>

definition char_between :: "char \<Rightarrow> char \<Rightarrow> char \<Rightarrow> bool" where
  "char_between lo hi c \<longleftrightarrow> (of_char lo :: nat) \<le> of_char c \<and> (of_char c :: nat) \<le> of_char hi"

fun workload_loop :: "string \<Rightarrow> go_error option" where
  "workload_loop [] = None"
| "workload_loop (ch # rest) =
     (if char_between (CHR ''a'') (CHR ''z'') ch then workload_loop rest
      else if char_between (CHR ''A'') (CHR ''Z'') ch then workload_loop rest
      else if char_between (CHR ''0'') (CHR ''9'') ch then workload_loop rest
      else if ch = CHR ''.'' \<or> ch = CHR ''-'' \<or> ch = CHR ''_'' \<or> ch = CHR ''/'' then workload_loop rest
      else Some ErrInvalidWorkload)"

definition validateWorkload :: "string \<Rightarrow> go_error option" where
  "validateWorkload workload =
     (if workload = [] then Some ErrInvalidWorkload
      else if workloadMaxLen < length workload then Some ErrInvalidWorkload
      else workload_loop workload)"

definition workload_char :: "char \<Rightarrow> bool" where
  "workload_char c \<longleftrightarrow>
     c \<in> set ''abcdefghijklmnopqrstuvwxyzABCDEFGHIJKLMNOPQRSTUVWXYZ0123456789.-_/''"

subsection \<open>Endpoints\<close>

record url =
  uPath :: string
  uOther :: string

definition ensureIngestPath ::
  "(string \<Rightarrow> url option) \<Rightarrow> (url \<Rightarrow> string) \<Rightarrow> string \<Rightarrow> string" where
  "ensureIngestPath url_parse url_string endpoint =
     (if endpoint = [] then []
      else case url_parse endpoint of
        None \<Rightarrow> endpoint
      | Some u \<Rightarrow>
          (let u = (if uPath u = [] \<or> uPath u = ''/'' then u\<lparr>uPath := defaultIngestPath\<rparr> else u) in
           url_string u))"

definition EndpointFromHost ::
  "(string \<Rightarrow> url option) \<Rightarrow> (url \<Rightarrow> string) \<Rightarrow> string \<Rightarrow> string" where
  "EndpointFromHost url_parse url_string raw =
     (let host = trim_space raw in
      if host = [] then []
      else if has_prefix host ''http://'' \<or> has_prefix host ''https://''
        then ensureIngestPath url_parse url_string host
      else ensureIngestPath url_parse url_string (''https://'' @ host))"

subsection \<open>Defaults\<close>

datatype logger = DefaultLogger | NoopLogger | UserLogger nat

text \<open>
  A header map is the list of its entries in the order in which one range loop meets them: Go
  leaves that order open. The dictionary of the transport is in \<open>Transport\<close>.
\<close>

type_synonym header = "(string \<times> string list) list"

record httpTransport =
  htEndpoint :: string
  htAPIKey :: string
  htWorkload :: string
  htHeader :: header
  htLogger :: "logger option"
  htStopStatusCodes :: "int list"
  htStopResponseCodes :: "string list"

datatype transport = HttpTransport httpTransport | CustomTransport nat

record config =
  cfgEndpoint :: string
  cfgAPIKey :: string
  cfgTransport :: "transport option"
  cfgLogger :: "logger option"
  cfgVerbose :: bool

fun has_nonblank :: "string list \<Rightarrow> bool" where
  "has_nonblank [] = False"
| "has_nonblank (v # vs) = (if trim_space v \<noteq> [] then True else has_nonblank vs)"

fun hasAuthorizationHeader :: "header \<Rightarrow> bool" where
  "hasAuthorizationHeader [] = False"
| "hasAuthorizationHeader ((k, vs) # h) =
     (if \<not> equal_fold k ''Authorization'' then hasAuthorizationHeader h else has_nonblank vs)"

definition new_http_transport :: "string \<Rightarrow> string \<Rightarrow> logger option \<Rightarrow> httpTransport" where
  "new_http_transport endpoint key lg =
     \<lparr>htEndpoint = endpoint, htAPIKey = key, htWorkload = [], htHeader = [], htLogger = lg,
      htStopStatusCodes = [], htStopResponseCodes = []\<rparr>"

text \<open>The endpoint, logger and transport that are filled in when missing.\<close>

definition base_defaults ::
  "(string \<Rightarrow> url option) \<Rightarrow> (url \<Rightarrow> string) \<Rightarrow> config \<Rightarrow> config" where
  "base_defaults url_parse url_string c0 =
     (let c1 = (if cfgEndpoint c0 = [] \<and> cfgTransport c0 = None
                then c0\<lparr>cfgEndpoint := EndpointFromHost url_parse url_string defaultEndpointHost\<rparr> else c0);
          c2 = (if cfgEndpoint c1 \<noteq> []
                then c1\<lparr>cfgEndpoint := ensureIngestPath url_parse url_string (cfgEndpoint c1)\<rparr> else c1);
          c3 = (if cfgLogger c2 = None then c2\<lparr>cfgLogger := Some DefaultLogger\<rparr> else c2) in
      if cfgTransport c3 = None \<and> cfgEndpoint c3 \<noteq> []
      then c3\<lparr>cfgTransport :=
        Some (HttpTransport (new_http_transport (cfgEndpoint c3) (cfgAPIKey c3) (cfgLogger c3)))\<rparr>
      else c3)"

text \<open>
  The checks of an HTTP transport. The configuration and the transport are mutated also when an
  error is returned.
\<close>

definition http_defaults :: "httpTransport \<Rightarrow> config \<Rightarrow> config \<times> go_error option" where
  "http_defaults ht0 c =
     (let ht1 = (if htLogger ht0 = None then ht0\<lparr>htLogger := cfgLogger c\<rparr> else ht0);
          ht2 = (if cfgAPIKey c \<noteq> [] \<and> htAPIKey ht1 = [] then ht1\<lparr>htAPIKey := cfgAPIKey c\<rparr> else ht1);
          c' = c\<lparr>cfgTransport := Some (HttpTransport ht2)\<rparr>;
          transportAPIKey = htAPIKey ht2 in
      if hasAuthorizationHeader (htHeader ht2) \<and> transportAPIKey \<noteq> []
        then (c', Some ErrAPIKeyAuthorizationConflict)
      else if transportAPIKey = [] then (c', Some ErrMissingAPIKey)
      else (c'\<lparr>cfgTransport := Some (HttpTransport (ht2\<lparr>htAPIKey := transportAPIKey\<rparr>)),
               cfgAPIKey := transportAPIKey\<rparr>, None))"

definition applyDefaults ::
  "(string \<Rightarrow> url option) \<Rightarrow> (url \<Rightarrow> string) \<Rightarrow> config \<Rightarrow> config \<times> go_error option" where
  "applyDefaults url_parse url_string c0 =
     (let c = base_defaults url_parse url_string c0;
          (c', err) = (case cfgTransport c of
            Some (HttpTransport ht) \<Rightarrow> http_defaults ht c
          | _ \<Rightarrow> (c, None)) in
      if err \<noteq> None then (c', err)
      else (if cfgLogger c' = None then c'\<lparr>cfgLogger := Some NoopLogger\<rparr> else c', None))"

subsection \<open>Facts\<close>

definition workload_case :: "char \<Rightarrow> bool" where
  "workload_case c \<longleftrightarrow>
     char_between (CHR ''a'') (CHR ''z'') c \<or> char_between (CHR ''A'') (CHR ''Z'') c \<or>
     char_between (CHR ''0'') (CHR ''9'') c \<or> c = CHR ''.'' \<or> c = CHR ''-'' \<or> c = CHR ''_'' \<or> c = CHR ''/''"

lemma char_code_in: "c \<in> set s \<longleftrightarrow> (of_char c :: nat) \<in> set (map of_char s)"
  by (auto simp: image_iff)

lemma workload_codes:
  "set (map of_char ''abcdefghijklmnopqrstuvwxyzABCDEFGHIJKLMNOPQRSTUVWXYZ0123456789.-_/'') =
     {97..<123} \<union> {65..<91} \<union> {48..<58} \<union> {46, 45, 95, 47 :: nat}"
  unfolding set_upt [symmetric] by (simp add: upt_rec) blast

lemma of_char_code: "(of_char c :: nat) = of_char d \<longleftrightarrow> c = d"
  by simp

lemma workload_char_cases: "workload_case c \<longleftrightarrow> workload_char c"
  unfolding workload_char_def char_code_in workload_codes workload_case_def char_between_def
  by (simp flip: of_char_code [of c] del: of_char_eq_iff) (auto simp: less_eq_Suc_le)

lemma workload_char_plain: "workload_char c \<Longrightarrow> plain_char c"
  unfolding workload_char_def char_code_in workload_codes plain_char_def by auto

lemma workload_loop_iff: "workload_loop s = (if list_all workload_char s then None else Some ErrInvalidWorkload)"
  by (induction s) (auto simp: workload_case_def simp flip: workload_char_cases)

lemma has_nonblank_iff: "has_nonblank vs \<longleftrightarrow> (\<exists>v \<in> set vs. trim_space v \<noteq> [])"
  by (induction vs) auto

text \<open>The header keys that \<open>hasAuthorizationHeader\<close> looks at.\<close>

definition auth_keys :: "header \<Rightarrow> (string \<times> string list) list" where
  "auth_keys h = filter (\<lambda>(k, vs). equal_fold k ''Authorization'') h"

lemma has_auth_first:
  "hasAuthorizationHeader h \<longleftrightarrow> (case auth_keys h of [] \<Rightarrow> False | (k, vs) # _ \<Rightarrow> has_nonblank vs)"
  by (induction h rule: hasAuthorizationHeader.induct) (auto simp: auth_keys_def)

lemma base_defaults_transport:
  shows "cfgTransport c = Some t \<Longrightarrow> cfgTransport (base_defaults url_parse url_string c) = Some t"
    and "cfgTransport c = None \<Longrightarrow>
      cfgTransport (base_defaults url_parse url_string c) =
        (let e = cfgEndpoint (base_defaults url_parse url_string c) in
         if e = [] then None
         else Some (HttpTransport (new_http_transport e (cfgAPIKey c)
           (cfgLogger (base_defaults url_parse url_string c)))))"
    and "cfgAPIKey (base_defaults url_parse url_string c) = cfgAPIKey c"
    and "cfgLogger (base_defaults url_parse url_string c) \<noteq> None"
  by (simp_all add: base_defaults_def Let_def)

lemma http_defaults_ok:
  assumes "http_defaults ht c = (c', None)"
  shows "\<exists>ht'. cfgTransport c' = Some (HttpTransport ht') \<and> htAPIKey ht' \<noteq> [] \<and>
    cfgAPIKey c' = htAPIKey ht' \<and> htHeader ht' = htHeader ht \<and> \<not> hasAuthorizationHeader (htHeader ht) \<and>
    htLogger ht' = (if htLogger ht = None then cfgLogger c else htLogger ht) \<and>
    htAPIKey ht' = (if htAPIKey ht \<noteq> [] then htAPIKey ht else cfgAPIKey c) \<and>
    htEndpoint ht' = htEndpoint ht \<and> cfgEndpoint c' = cfgEndpoint c \<and> cfgLogger c' = cfgLogger c"
  using assms by (auto simp: http_defaults_def Let_def split: if_split_asm)

lemma validateWorkload_iff:
  "validateWorkload w = None \<longleftrightarrow> 1 \<le> length w \<and> length w \<le> 100 \<and> list_all workload_char w"
  by (auto simp: validateWorkload_def workloadMaxLen_def workload_loop_iff Suc_le_eq)

lemma workload_plain: "list_all workload_char w \<Longrightarrow> trim_space w = w"
  using workload_char_plain by (cases "w = []") (auto simp: list_all_iff intro!: trim_space_plain)

lemma applyDefaults_http:
  assumes "applyDefaults url_parse url_string c = (c', None)"
    and "cfgTransport c' = Some (HttpTransport ht')"
  shows "htAPIKey ht' \<noteq> [] \<and> cfgAPIKey c' = htAPIKey ht' \<and> \<not> hasAuthorizationHeader (htHeader ht') \<and>
     htLogger ht' \<noteq> None \<and> cfgLogger c' \<noteq> None \<and>
     (case cfgTransport c of
        Some (HttpTransport ht) \<Rightarrow> htAPIKey ht' = (if htAPIKey ht \<noteq> [] then htAPIKey ht else cfgAPIKey c)
      | _ \<Rightarrow> htAPIKey ht' = cfgAPIKey c \<and> htEndpoint ht' = cfgEndpoint c' \<and> cfgEndpoint c' \<noteq> [])"
proof -
  let ?b = "base_defaults url_parse url_string c"
  note base = base_defaults_transport [where url_parse = url_parse and url_string = url_string and c = c]
  have lg: "cfgLogger ?b \<noteq> None" by (rule base)
  obtain ht where ht: "cfgTransport ?b = Some (HttpTransport ht)" and run: "http_defaults ht ?b = (c', None)"
    using assms lg
    by (auto simp: applyDefaults_def Let_def http_defaults_def split: option.split_asm transport.split_asm if_split_asm)
  show ?thesis
    using http_defaults_ok [OF run] assms(2) lg ht base(1,2,3)
    by (cases "cfgTransport c") (auto simp: new_http_transport_def Let_def split: if_split_asm transport.split)
qed

subsection \<open>Properties\<close>

text \<open>
  A workload is accepted exactly when it has 1 to 100 bytes, all of them letters,
  digits or one of \<open>. - _ /\<close>; so the name that \<open>sendBody\<close> trims and puts in a header is
  the validated one, with no blank to trim and no line break.
\<close>

theorem validate_workload:
  "(validateWorkload w = None \<longleftrightarrow> 1 \<le> length w \<and> length w \<le> 100 \<and> list_all workload_char w) \<and>
   trim_space (if validateWorkload w = None then w else []) = (if validateWorkload w = None then w else [])"
  by (simp add: validateWorkload_iff workload_plain)

lemma auth_header_blank:
  assumes "\<not> hasAuthorizationHeader h"
  shows "length (auth_keys h) \<le> 1 \<longrightarrow>
      (\<forall>(k, vs) \<in> set h. equal_fold k ''Authorization'' \<longrightarrow> (\<forall>v \<in> set vs. trim_space v = []))"
    and "case auth_keys h of [] \<Rightarrow> True | (k, vs) # _ \<Rightarrow> \<forall>v \<in> set vs. trim_space v = []"
proof -
  show first: "case auth_keys h of [] \<Rightarrow> True | (k, vs) # _ \<Rightarrow> \<forall>v \<in> set vs. trim_space v = []"
    using assms by (auto simp: has_auth_first has_nonblank_iff split: list.split_asm)
  have key: "(k, vs) \<in> set (auth_keys h)" if "(k, vs) \<in> set h" "equal_fold k ''Authorization''" for k vs
    using that by (simp add: auth_keys_def)
  have one: "xs = [x]" if "length xs \<le> 1" "x \<in> set xs" for x and xs :: "(string \<times> string list) list"
    using that by (cases xs) auto
  show "length (auth_keys h) \<le> 1 \<longrightarrow>
      (\<forall>(k, vs) \<in> set h. equal_fold k ''Authorization'' \<longrightarrow> (\<forall>v \<in> set vs. trim_space v = []))"
    using first one key by fastforce
qed

text \<open>
  C34 (safety). What a successful \<open>applyDefaults\<close> guarantees for the HTTP transport: a non-empty API
  key, the same in transport and configuration, which is the one set by the caller if there was
  one; a logger; and no second source of an API key: no custom \<open>Authorization\<close> header, however it is
  spelled, has a value that is not blank - unless two keys of the header differ only in case, when only
  the one that the loop meets first is known to be blank.
\<close>

theorem apply_defaults_http:
  assumes "applyDefaults url_parse url_string c = (c', None)"
    and "cfgTransport c' = Some (HttpTransport ht')"
  shows "htAPIKey ht' \<noteq> [] \<and> cfgAPIKey c' = htAPIKey ht' \<and>
     (length (filter (\<lambda>(k, vs). equal_fold k ''Authorization'') (htHeader ht')) \<le> 1 \<longrightarrow>
        (\<forall>(k, vs) \<in> set (htHeader ht'). equal_fold k ''Authorization'' \<longrightarrow> (\<forall>v \<in> set vs. trim_space v = []))) \<and>
     (case filter (\<lambda>(k, vs). equal_fold k ''Authorization'') (htHeader ht') of
        [] \<Rightarrow> True | (k, vs) # _ \<Rightarrow> \<forall>v \<in> set vs. trim_space v = []) \<and>
     htLogger ht' \<noteq> None \<and> cfgLogger c' \<noteq> None \<and>
     (case cfgTransport c of
        Some (HttpTransport ht) \<Rightarrow> htAPIKey ht' = (if htAPIKey ht \<noteq> [] then htAPIKey ht else cfgAPIKey c)
      | _ \<Rightarrow> htAPIKey ht' = cfgAPIKey c \<and> htEndpoint ht' = cfgEndpoint c' \<and> cfgEndpoint c' \<noteq> [])"
proof -
  note d = applyDefaults_http [OF assms]
  then have no: "\<not> hasAuthorizationHeader (htHeader ht')" by blast
  show ?thesis using d auth_header_blank [OF no] by (simp only: auth_keys_def) blast
qed

text \<open>
  Whether a header map holds a custom \<open>Authorization\<close> depends on the iteration order
  of Go's maps when two keys differ only in case and the first one met is blank: the same map
  passes or fails the conflict check. With at most one such key the order does not matter.
\<close>

theorem auth_header_order:
  "hasAuthorizationHeader [(''Authorization'', []), (''authorization'', [''token''])] \<noteq>
     hasAuthorizationHeader [(''authorization'', [''token'']), (''Authorization'', [])] \<and>
   (1 < length (auth_keys h) \<or>
    hasAuthorizationHeader h = (\<exists>(k, vs) \<in> set (auth_keys h). \<exists>v \<in> set vs. trim_space v \<noteq> []))"
proof -
  have "hasAuthorizationHeader [(''Authorization'', []), (''authorization'', [''token''])] \<noteq>
      hasAuthorizationHeader [(''authorization'', [''token'']), (''Authorization'', [])]"
    by code_simp
  moreover have "1 < length (auth_keys h) \<or>
      hasAuthorizationHeader h = (\<exists>(k, vs) \<in> set (auth_keys h). \<exists>v \<in> set vs. trim_space v \<noteq> [])"
    by (cases "auth_keys h" rule: remdups_adj.cases) (auto simp: has_auth_first has_nonblank_iff)
  ultimately show ?thesis by blast
qed

definition config_sample :: config where
  "config_sample = \<lparr>cfgEndpoint = ''http://h'', cfgAPIKey = ''k'', cfgTransport = None,
     cfgLogger = None, cfgVerbose = False\<rparr>"

theorem apply_defaults_http_witness:
  "\<exists>c' ht'. applyDefaults (\<lambda>s. Some \<lparr>uPath = [], uOther = s\<rparr>) (\<lambda>u. uOther u @ uPath u) config_sample = (c', None) \<and>
     cfgTransport c' = Some (HttpTransport ht') \<and> htAPIKey ht' = ''k'' \<and>
     htEndpoint ht' = cfgEndpoint c' \<and> cfgEndpoint c' = ''http://h/api/i/batch''"
proof -
  let ?r = "applyDefaults (\<lambda>s. Some \<lparr>uPath = [], uOther = s\<rparr>) (\<lambda>u. uOther u @ uPath u) config_sample"
  let ?ht = "new_http_transport ''http://h/api/i/batch'' ''k'' (Some DefaultLogger)"
  let ?c = "\<lparr>cfgEndpoint = ''http://h/api/i/batch'', cfgAPIKey = ''k'',
      cfgTransport = Some (HttpTransport ?ht), cfgLogger = Some DefaultLogger, cfgVerbose = False\<rparr>"
  have r: "?r = (?c, None)"
    by (simp add: applyDefaults_def base_defaults_def http_defaults_def config_sample_def ensureIngestPath_def defaultIngestPath_def
        new_http_transport_def Let_def)
  have t: "cfgTransport ?c = Some (HttpTransport ?ht)" by simp
  from apply_defaults_http [OF r t] show ?thesis
    by (intro exI [of _ ?c] exI [of _ ?ht]) (simp add: r new_http_transport_def)
qed

end
