(* ===== verification/Transport.thy ===== *)
theory Transport
  imports LineProtocol Config
begin

section \<open>The HTTP transport (transport.go)\<close>

text \<open>
  Sending a payload: the dictionary is created or renewed, the payload encoded and posted, and
  the response decides whether the dictionary is reset, the payload resent, or an error
  returned. Parameters, for code that is not in the repository: \<open>http_do\<close> (\<open>client.Do\<close>: response or
  error, and the new state of the world), \<open>clock\<close> (a reading of the clock in nanoseconds),
  \<open>request_url\<close> (\<open>http.NewRequestWithContext\<close> with the URL text, or the error) and \<open>json_code\<close> (the
  \<open>code\<close> field of a JSON body, \<open>None\<close> when \<open>json.Unmarshal\<close> fails). Log output is not modelled.
\<close>

subsection \<open>Log fields and header counts\<close>

definition truncateLogField :: "string \<Rightarrow> int \<Rightarrow> string" where
  "truncateLogField s0 mx =
     (let s = trim_space s0 in
      if mx \<le> 0 \<or> int (length s) \<le> mx then s
      else if mx \<le> 3 then take (nat mx) s
      else take (nat (mx - 3)) s @ ''...'')"

definition summarizeLabelForLog :: "string \<Rightarrow> string \<times> string" where
  "summarizeLabelForLog label =
     (let (key, val) = (case index_byte label (CHR ''='') of
            Some idx \<Rightarrow> (take idx label, drop (idx + 1) label)
          | None \<Rightarrow> (''raw'', label)) in
      (truncateLogField key 48, truncateLogField val 96))"

definition parseIngestCountHeader :: "string \<Rightarrow> int" where
  "parseIngestCountHeader raw0 =
     (let raw = trim_space raw0 in
      if raw = [] then - 1
      else case parse_int raw of
        (_, Some _) \<Rightarrow> - 1
      | (v, None) \<Rightarrow> v)"

definition maxHeaderValue :: "int \<Rightarrow> int" where
  "maxHeaderValue v = (if v < 0 then 0 else v)"

definition compactErrorBody :: "string \<Rightarrow> string" where
  "compactErrorBody raw0 =
     (let raw = trim_space raw0 in if raw = [] then [] else join_with '' '' (GoStrings.fields raw))"

definition extractResponseCode :: "(string \<Rightarrow> string option) \<Rightarrow> string \<Rightarrow> string" where
  "extractResponseCode json_code raw =
     (if length raw = 0 then []
      else case json_code raw of
        None \<Rightarrow> []
      | Some code \<Rightarrow> to_lower (trim_space code))"

definition maxErrorBodyBytes :: nat where
  "maxErrorBodyBytes = 4096"

definition readErrorBody :: "(string \<Rightarrow> string option) \<Rightarrow> string \<Rightarrow> string \<times> string" where
  "readErrorBody json_code body =
     (let bodyBytes = take maxErrorBodyBytes body in
      if length bodyBytes = 0 then ([], [])
      else (compactErrorBody bodyBytes, extractResponseCode json_code bodyBytes))"

definition parseSeriesDefinitionLine :: "string \<Rightarrow> string \<times> string list" where
  "parseSeriesDefinitionLine line =
     (let parts = split_on (CHR ''|'') line in
      if length parts < 3 then ([], [])
      else (parts ! 2,
            if 3 < length parts then filter (\<lambda>part. length part \<noteq> 0) (drop 3 parts) else []))"

subsection \<open>Diagnostics of a body\<close>

record linePayloadDiagnostics =
  dgDictionarySession :: string
  dgDictionaryRevision :: nat
  dgDictionarySeries :: int
  dgSeriesDefinitions :: int
  dgSeriesDefinitionBytes :: int
  dgEventLines :: int
  dgEventBytes :: int
  dgEventSeriesMinID :: int
  dgEventSeriesMaxID :: int
  dgEventSeriesSamples :: string
  dgLargestSeriesMetric :: string
  dgLargestSeriesDefinitionBytes :: int
  dgLargestSeriesLabels :: int
  dgLargestLabelKey :: string
  dgLargestLabelBytes :: int
  dgLargestLabelValuePrefix :: string

definition new_diagnostics :: "dictionaryState option \<Rightarrow> linePayloadDiagnostics" where
  "new_diagnostics state =
     \<lparr>dgDictionarySession = [], dgDictionaryRevision = 0,
      dgDictionarySeries = (case state of None \<Rightarrow> 0 | Some st \<Rightarrow> int (length (series st))),
      dgSeriesDefinitions = 0, dgSeriesDefinitionBytes = 0, dgEventLines = 0, dgEventBytes = 0,
      dgEventSeriesMinID = - 1, dgEventSeriesMaxID = - 1, dgEventSeriesSamples = [],
      dgLargestSeriesMetric = [], dgLargestSeriesDefinitionBytes = 0, dgLargestSeriesLabels = 0,
      dgLargestLabelKey = [], dgLargestLabelBytes = 0, dgLargestLabelValuePrefix = []\<rparr>"

definition largest_label :: "string \<Rightarrow> linePayloadDiagnostics \<Rightarrow> linePayloadDiagnostics" where
  "largest_label lbl diag =
     (if int (length lbl) \<le> dgLargestLabelBytes diag then diag
      else let (key, valuePrefix) = summarizeLabelForLog lbl in
        diag\<lparr>dgLargestLabelBytes := int (length lbl), dgLargestLabelKey := key,
             dgLargestLabelValuePrefix := valuePrefix\<rparr>)"

definition analyze_header :: "string \<Rightarrow> linePayloadDiagnostics \<Rightarrow> linePayloadDiagnostics" where
  "analyze_header line diag =
     (let parts = split_n 5 (CHR ''|'') line in
      if 5 \<le> length parts
      then diag\<lparr>dgDictionarySession := parts ! 3,
                dgDictionaryRevision := fst (parse_uint maxUint64 (parts ! 4))\<rparr>
      else diag)"

definition analyze_definition :: "string \<Rightarrow> linePayloadDiagnostics \<Rightarrow> linePayloadDiagnostics" where
  "analyze_definition line diag0 =
     (let lineBytes = int (length line) + 1;
          diag = diag0\<lparr>dgSeriesDefinitions := dgSeriesDefinitions diag0 + 1,
                       dgSeriesDefinitionBytes := dgSeriesDefinitionBytes diag0 + lineBytes\<rparr> in
      if dgLargestSeriesDefinitionBytes diag < lineBytes
      then let (metric, labels) = parseSeriesDefinitionLine line in
        fold largest_label labels
          (diag\<lparr>dgLargestSeriesDefinitionBytes := lineBytes,
                dgLargestSeriesMetric := truncateLogField metric 96,
                dgLargestSeriesLabels := int (length labels), dgLargestLabelKey := [],
                dgLargestLabelBytes := 0, dgLargestLabelValuePrefix := []\<rparr>)
      else diag)"

text \<open>The loop's variables: the diagnostics, \<open>sampleIDs\<close> and \<open>sampleSeries\<close>.\<close>

type_synonym analysis = "linePayloadDiagnostics \<times> int list \<times> string list"

definition analyze_event ::
  "dictionaryState option \<Rightarrow> string \<Rightarrow> analysis \<Rightarrow> analysis" where
  "analyze_event state line = (\<lambda>(diag0, sampleIDs, sampleSeries).
     let lineBytes = int (length line) + 1;
         diag = diag0\<lparr>dgEventLines := dgEventLines diag0 + 1, dgEventBytes := dgEventBytes diag0 + lineBytes\<rparr>;
         parts = split_n 4 (CHR ''|'') line in
     if length line < 3 \<or> line ! 1 \<noteq> CHR ''|'' then (diag, sampleIDs, sampleSeries)
     else if length parts < 4 then (diag, sampleIDs, sampleSeries)
     else case parse_int (parts ! 1) of
       (_, Some _) \<Rightarrow> (diag, sampleIDs, sampleSeries)
     | (seriesID, None) \<Rightarrow>
         (let diag = (if dgEventSeriesMinID diag = - 1 \<or> seriesID < dgEventSeriesMinID diag
                      then diag\<lparr>dgEventSeriesMinID := seriesID\<rparr> else diag);
              diag = (if dgEventSeriesMaxID diag = - 1 \<or> seriesID > dgEventSeriesMaxID diag
                      then diag\<lparr>dgEventSeriesMaxID := seriesID\<rparr> else diag) in
          if 4 \<le> length sampleSeries then (diag, sampleIDs, sampleSeries)
          else if seriesID \<in> set sampleIDs then (diag, sampleIDs, sampleSeries)
          else
            (diag, seriesID # sampleIDs, sampleSeries @
               [case state of
                  Some st \<Rightarrow>
                    if 0 \<le> seriesID \<and> seriesID < int (length (series st))
                    then fmt_int seriesID @ '':'' @ truncateLogField (sdMetric (series st ! nat seriesID)) 48
                    else fmt_int seriesID
                | None \<Rightarrow> fmt_int seriesID])))"

definition analyze_line :: "dictionaryState option \<Rightarrow> string \<Rightarrow> analysis \<Rightarrow> analysis" where
  "analyze_line state line = (\<lambda>(diag, sampleIDs, sampleSeries).
     if length line = 0 then (diag, sampleIDs, sampleSeries)
     else if has_prefix line ''H|'' then (analyze_header line diag, sampleIDs, sampleSeries)
     else if has_prefix line ''S|'' then (analyze_definition line diag, sampleIDs, sampleSeries)
     else analyze_event state line (diag, sampleIDs, sampleSeries))"

definition analyzeLinePayloadV4 :: "string \<Rightarrow> dictionaryState option \<Rightarrow> linePayloadDiagnostics" where
  "analyzeLinePayloadV4 body state =
     (let (diag, sampleIDs, sampleSeries) =
        fold (analyze_line state) (split_on (CHR 0x0A) body) (new_diagnostics state, [], []) in
      if 0 < length sampleSeries
      then diag\<lparr>dgEventSeriesSamples := join_with '','' sampleSeries\<rparr> else diag)"

subsection \<open>Requests and responses (net/http)\<close>

definition header_byte :: "char \<Rightarrow> bool" where
  "header_byte c \<longleftrightarrow> is_digit c \<or> char_between (CHR ''a'') (CHR ''z'') c \<or>
     char_between (CHR ''A'') (CHR ''Z'') c \<or> c \<in> set ''!#$%&*+-.^_`|~'' \<or> c = CHR 0x27"

fun canonical_chars :: "bool \<Rightarrow> string \<Rightarrow> string" where
  "canonical_chars upper [] = []"
| "canonical_chars upper (c # cs) =
     (if upper \<and> char_between (CHR ''a'') (CHR ''z'') c then char_of (of_char c - 32 :: nat)
      else if \<not> upper then lower_char c else c) # canonical_chars (c = CHR ''-'') cs"

text \<open>\<open>textproto.CanonicalMIMEHeaderKey\<close>: a key with an invalid byte is left alone.\<close>

definition canonical_key :: "string \<Rightarrow> string" where
  "canonical_key k = (if list_all header_byte k then canonical_chars True k else k)"

definition header_set :: "string \<Rightarrow> string \<Rightarrow> header \<Rightarrow> header" where
  "header_set k v h = AList.update (canonical_key k) [v] h"

definition header_add :: "string \<Rightarrow> string \<Rightarrow> header \<Rightarrow> header" where
  "header_add k v h =
     AList.update (canonical_key k)
       ((case map_of h (canonical_key k) of None \<Rightarrow> [] | Some vs \<Rightarrow> vs) @ [v]) h"

definition header_get :: "string \<Rightarrow> header \<Rightarrow> string" where
  "header_get k h = (case map_of h (canonical_key k) of Some (v # vs) \<Rightarrow> v | _ \<Rightarrow> [])"

record httpRequest =
  rqURL :: string
  rqHeader :: header
  rqBody :: string

record httpResponse =
  rsStatusCode :: int
  rsStatus :: string
  rsHeader :: header
  rsBody :: string

text \<open>The outside world of the transport: its state \<open>'w\<close> and the operations it is used through.\<close>

record 'w environment =
  http_do :: "httpRequest \<Rightarrow> 'w \<Rightarrow> (go_error + httpResponse) \<times> 'w"
  clock :: "'w \<Rightarrow> int \<times> 'w"
  request_url :: "string \<Rightarrow> go_error + string"
  json_code :: "string \<Rightarrow> string option"
  int64_oob :: "f64 \<Rightarrow> int"

record 'w transportState =
  tsDict :: "dictionaryState option"
  tsWorld :: 'w

record sendResult =
  srStatusCode :: int
  srResponseCode :: string
  srAccepted :: int
  srDropped :: int
  srRejected :: int

definition empty_result :: sendResult where
  "empty_result =
     \<lparr>srStatusCode = 0, srResponseCode = [], srAccepted = 0, srDropped = 0, srRejected = 0\<rparr>"

subsection \<open>Which responses stop the client\<close>

fun status_in :: "int list \<Rightarrow> int \<Rightarrow> bool" where
  "status_in [] status = False"
| "status_in (code # codes) status = (if code = status then True else status_in codes status)"

definition shouldStopOnStatus :: "httpTransport \<Rightarrow> int \<Rightarrow> bool" where
  "shouldStopOnStatus t status =
     (let codes = htStopStatusCodes t in
      if length codes = 0 then status = defaultStopStatusCode else status_in codes status)"

fun code_in :: "string list \<Rightarrow> string \<Rightarrow> bool" where
  "code_in [] code = False"
| "code_in (candidate # cs) code =
     (if equal_fold (trim_space candidate) code then True else code_in cs code)"

definition shouldStopOnResponseCode :: "httpTransport \<Rightarrow> string \<Rightarrow> bool" where
  "shouldStopOnResponseCode t code0 =
     (let code = to_lower (trim_space code0) in
      if code = [] then False
      else let configured = htStopResponseCodes t in
        if length configured = 0 then code_in defaultStopResponseCodes code
        else code_in configured code)"

subsection \<open>Sending one body\<close>

definition batchIDHeaderName :: string where "batchIDHeaderName = ''X-Statok-Batch-Id''"
definition workloadHeaderName :: string where "workloadHeaderName = ''X-Statok-Workload''"

definition request_headers :: "httpTransport \<Rightarrow> string \<Rightarrow> string \<Rightarrow> header" where
  "request_headers t workload0 batchID0 =
     (let h = header_set ''Content-Type'' ''text/plain; charset=utf-8'' [];
          h = fold (\<lambda>(k, vs) h. fold (\<lambda>v h. header_add k v h) vs h) (htHeader t) h;
          h = (if htAPIKey t \<noteq> [] then header_set ''Authorization'' (htAPIKey t) h else h);
          workload = trim_space workload0;
          h = (if workload \<noteq> [] then header_set workloadHeaderName workload h else h);
          batch = trim_space batchID0 in
      if batch \<noteq> [] then header_set batchIDHeaderName batch h else h)"

definition transport_error ::
  "string \<Rightarrow> string \<Rightarrow> httpResponse \<Rightarrow> sendResult \<Rightarrow> string \<Rightarrow> int \<Rightarrow> linePayloadDiagnostics \<Rightarrow> HTTPTransportError" where
  "transport_error urlStr batch resp result detail bytes diag =
     \<lparr>Method = ''POST'', Endpoint = urlStr, BatchID = batch, StatusCode = rsStatusCode resp,
      Status = rsStatus resp, ResponseCode = srResponseCode result, Detail = detail,
      Accepted = srAccepted result, Dropped = srDropped result, Rejected = srRejected result,
      RequestBytes = bytes, DictionarySession = dgDictionarySession diag,
      DictionaryRevision = dgDictionaryRevision diag, DictionarySeries = dgDictionarySeries diag,
      SeriesDefinitions = dgSeriesDefinitions diag, SeriesDefinitionBytes = dgSeriesDefinitionBytes diag,
      EventLines = dgEventLines diag, EventBytes = dgEventBytes diag,
      EventSeriesMinID = dgEventSeriesMinID diag, EventSeriesMaxID = dgEventSeriesMaxID diag,
      EventSeriesSamples = dgEventSeriesSamples diag, LargestSeriesMetric = dgLargestSeriesMetric diag,
      LargestSeriesDefinitionBytes = dgLargestSeriesDefinitionBytes diag,
      LargestSeriesLabels = dgLargestSeriesLabels diag, LargestLabelKey = dgLargestLabelKey diag,
      LargestLabelBytes = dgLargestLabelBytes diag,
      LargestLabelValuePrefix = dgLargestLabelValuePrefix diag\<rparr>"

text \<open>
  \<open>batchID\<close> is trimmed in place by the condition that sets the header, so that the error holds the
  trimmed one.
\<close>

definition sendBody ::
  "'w environment \<Rightarrow> httpTransport \<Rightarrow> string \<Rightarrow> string \<Rightarrow> string \<Rightarrow> 'w transportState \<Rightarrow>
     (sendResult \<times> go_error option) \<times> 'w transportState" where
  "sendBody env t body workload batch ts =
     (case request_url env (htEndpoint t) of
        Inl err \<Rightarrow>
          ((empty_result, Some (WrapErr (''build request POST '' @ htEndpoint t) err)), ts)
      | Inr urlStr \<Rightarrow>
          (let req = \<lparr>rqURL = urlStr, rqHeader = request_headers t workload batch, rqBody = body\<rparr> in
           case http_do env req (tsWorld ts) of
             (Inl err, w) \<Rightarrow>
               ((empty_result, Some (WrapErr (''POST '' @ urlStr) err)), ts\<lparr>tsWorld := w\<rparr>)
           | (Inr resp, w) \<Rightarrow>
               (let result = empty_result
                      \<lparr>srStatusCode := rsStatusCode resp,
                       srAccepted := parseIngestCountHeader (header_get ''X-Statok-Accepted'' (rsHeader resp)),
                       srDropped := parseIngestCountHeader (header_get ''X-Statok-Dropped'' (rsHeader resp)),
                       srRejected := parseIngestCountHeader (header_get ''X-Statok-Rejected'' (rsHeader resp))\<rparr> in
                if 200 \<le> rsStatusCode resp \<and> rsStatusCode resp < 300
                then ((result, None), ts\<lparr>tsWorld := w\<rparr>)
                else
                  (let (detail, responseCode) = readErrorBody (json_code env) (rsBody resp);
                       result = result\<lparr>srResponseCode := responseCode\<rparr>;
                       diag = analyzeLinePayloadV4 body (tsDict ts);
                       sendErr = HTTPTransportErr (transport_error urlStr (trim_space batch) resp result
                         detail (int (length body)) diag) in
                   if shouldStopOnStatus t (rsStatusCode resp) \<or> shouldStopOnResponseCode t responseCode
                   then ((result, Some (StopIngestErr (rsStatusCode resp) (Some sendErr))), ts\<lparr>tsWorld := w\<rparr>)
                   else ((result, Some sendErr), ts\<lparr>tsWorld := w\<rparr>)))))"

subsection \<open>Sending a payload\<close>

definition resetDictionaryLocked :: "'w environment \<Rightarrow> 'w transportState \<Rightarrow> 'w transportState" where
  "resetDictionaryLocked env ts =
     (let (now, w) = clock env (tsWorld ts) in
      ts\<lparr>tsDict := Some (newDictionaryState now), tsWorld := w\<rparr>)"

definition ensureDictionaryLocked :: "'w environment \<Rightarrow> 'w transportState \<Rightarrow> 'w transportState" where
  "ensureDictionaryLocked env ts =
     (case tsDict ts of
        None \<Rightarrow> resetDictionaryLocked env ts
      | Some st \<Rightarrow>
          (if defaultMaxDictionarySeries \<le> length (series st) then resetDictionaryLocked env ts else ts))"

text \<open>\<open>encodeLinePayloadV4(payload, t.dict, false)\<close>, which mutates the dictionary in place.\<close>

definition encode_locked ::
  "'w environment \<Rightarrow> payload option \<Rightarrow> 'w transportState \<Rightarrow> string \<times> 'w transportState" where
  "encode_locked env p ts =
     (let (body, dict) = encodeLinePayloadV4 (int64_oob env) p (tsDict ts) False in
      (body, ts\<lparr>tsDict := dict\<rparr>))"

definition send_http ::
  "'w environment \<Rightarrow> httpTransport option \<Rightarrow> payload option \<Rightarrow> string \<Rightarrow> 'w transportState \<Rightarrow>
     go_error option \<times> 'w transportState" where
  "send_http env transport payload workload ts0 =
     (case transport of
        None \<Rightarrow> (Some (PlainErr ''statok: HTTP transport is nil''), ts0)
      | Some t \<Rightarrow>
          (if htEndpoint t = [] then (Some (PlainErr ''statok: HTTP endpoint is empty''), ts0)
           else case validateWorkload workload of
             Some err \<Rightarrow> (Some err, ts0)
           | None \<Rightarrow>
               (case payload of
                  None \<Rightarrow> (None, ts0)
                | Some p \<Rightarrow>
                    (if payload_empty p then (None, ts0)
                     else
                       let ts1 = ensureDictionaryLocked env ts0;
                           (body, ts2) = encode_locked env payload ts1 in
                       if length body = 0 then (None, ts2)
                       else
                         (let ((result, err), ts3) = sendBody env t body workload (batchID p) ts2 in
                          if err = None then (None, ts3)
                          else if srStatusCode result = 413 then (err, resetDictionaryLocked env ts3)
                          else if srStatusCode result = 409 \<and> srResponseCode result = ''unknown_series_dictionary''
                          then
                            (let (resyncBody, ts4) = encode_locked env payload (resetDictionaryLocked env ts3) in
                             if length resyncBody = 0 then (err, ts4)
                             else
                               let ((retryResult, retryErr), ts5) = sendBody env t resyncBody workload (batchID p) ts4 in
                               (retryErr,
                                if srStatusCode retryResult = 413 then resetDictionaryLocked env ts5 else ts5))
                          else (err, ts3))))))"

definition Send_http ::
  "'w environment \<Rightarrow> httpTransport option \<Rightarrow> payload option \<Rightarrow> 'w transportState \<Rightarrow>
     go_error option \<times> 'w transportState" where
  "Send_http env transport payload ts =
     send_http env transport payload (case transport of None \<Rightarrow> [] | Some t \<Rightarrow> htWorkload t) ts"

text \<open>The wrapper that \<open>NewClient\<close> puts around an HTTP transport.\<close>

record workloadHTTPTransport =
  wtBase :: "httpTransport option"
  wtWorkload :: string

definition Send_workload ::
  "'w environment \<Rightarrow> workloadHTTPTransport option \<Rightarrow> payload option \<Rightarrow> 'w transportState \<Rightarrow>
     go_error option \<times> 'w transportState" where
  "Send_workload env transport payload ts =
     (case transport of
        None \<Rightarrow> (Some (PlainErr ''statok: HTTP transport is nil''), ts)
      | Some t \<Rightarrow>
          (if wtBase t = None then (Some (PlainErr ''statok: HTTP transport is nil''), ts)
           else send_http env (wtBase t) payload (wtWorkload t) ts))"

subsection \<open>The frame of a send\<close>

lemma sendBody_dict: "sendBody env t body w b ts = (r, ts') \<Longrightarrow> tsDict ts' = tsDict ts"
  by (auto simp: sendBody_def Let_def split: sum.split_asm prod.split_asm if_split_asm)

lemma resetDictionary_dict [simp]:
  "tsDict (resetDictionaryLocked env ts) = Some (newDictionaryState (fst (clock env (tsWorld ts))))"
  by (simp add: resetDictionaryLocked_def case_prod_beta)

lemma encode_item_length: "length (series (esDict (encode_item it es))) \<le> Suc (length (series (esDict es)))"
  by (auto simp: encode_item_def getSeriesID_def Let_def split: prod.split option.split)

lemma encode_items_length:
  "length (series (esDict (fold encode_item items es))) \<le> length (series (esDict es)) + length items"
proof (induction items arbitrary: es)
  case (Cons it items)
  show ?case using Cons.IH [of "encode_item it es"] encode_item_length [of it es] by simp
qed simp

lemma encode_some:
  "\<exists>body st'. encodeLinePayloadV4 oob (Some p) (Some st) force = (body, Some st') \<and>
     length (series st') \<le> length (series st) + payload_size p"
proof (cases "payload_empty p")
  case False
  show ?thesis
    unfolding encode_eq [OF False]
    using encode_items_length [of "payload_items oob p" "\<lparr>esDict = st, esNew = [], esChanged = False, esEvents = []\<rparr>"]
    by (simp add: encode_events_items Let_def)
qed (simp add: encodeLinePayloadV4_def)

definition dict_size :: "'w transportState \<Rightarrow> nat" where
  "dict_size ts = (case tsDict ts of None \<Rightarrow> 0 | Some st \<Rightarrow> length (series st))"

lemma dict_size_reset [simp]: "dict_size (resetDictionaryLocked env ts) = 0"
  by (simp add: dict_size_def newDictionaryState_def)

lemma ensureDictionary_size: "dict_size (ensureDictionaryLocked env ts) < defaultMaxDictionarySeries"
proof (cases "tsDict ts")
  case None
  then show ?thesis by (simp add: ensureDictionaryLocked_def defaultMaxDictionarySeries_def)
next
  case (Some st)
  then show ?thesis
    by (cases "defaultMaxDictionarySeries \<le> length (series st)")
      (simp_all add: ensureDictionaryLocked_def defaultMaxDictionarySeries_def dict_size_def newDictionaryState_def)
qed

lemma ensureDictionary_some: "tsDict (ensureDictionaryLocked env ts) \<noteq> None"
  by (auto simp: ensureDictionaryLocked_def split: option.split)

lemma encode_locked_size:
  assumes "encode_locked env (Some p) ts = (body, ts')" and "tsDict ts \<noteq> None"
  shows "dict_size ts' \<le> dict_size ts + payload_size p"
proof -
  obtain st where st: "tsDict ts = Some st" using assms(2) by blast
  obtain b st' where "encodeLinePayloadV4 (int64_oob env) (Some p) (Some st) False = (b, Some st')"
      "length (series st') \<le> length (series st) + payload_size p"
    using encode_some by blast
  then show ?thesis using assms(1) st by (auto simp: encode_locked_def dict_size_def)
qed

definition dict_bounded :: "nat \<Rightarrow> 'w transportState \<Rightarrow> bool" where
  "dict_bounded n ts \<longleftrightarrow> dict_size ts < defaultMaxDictionarySeries + n"

lemma dict_bounded_eq: "tsDict ts' = tsDict ts \<Longrightarrow> dict_bounded n ts' = dict_bounded n ts"
  by (simp add: dict_bounded_def dict_size_def)

lemma dict_bounded_reset: "dict_bounded n (resetDictionaryLocked env ts)"
  by (simp add: dict_bounded_def defaultMaxDictionarySeries_def)

lemma send_http_bounded [step_inv]:
  assumes inv: "dict_bounded n ts" and p: "payload_size p \<le> n"
  shows "dict_bounded n (snd (send_http env t (Some p) w ts))"
proof -
  let ?ts1 = "ensureDictionaryLocked env ts"
  have first: "dict_bounded n ts2" if "encode_locked env (Some p) ?ts1 = (body, ts2)" for body ts2
    using encode_locked_size [OF that ensureDictionary_some] ensureDictionary_size [of env ts] p
    by (simp add: dict_bounded_def)
  have again: "dict_bounded n ts4" if "encode_locked env (Some p) (resetDictionaryLocked env ts3) = (body, ts4)" for body ts3 ts4
    using encode_locked_size [OF that] p by (simp add: dict_bounded_def defaultMaxDictionarySeries_def)
  have keep: "dict_bounded n ts'" if "sendBody env t' body w b ts = (r, ts')" "dict_bounded n ts" for t' body b ts r ts'
    using dict_bounded_eq [OF sendBody_dict [OF that(1)]] that(2) by simp
  show ?thesis
    using inv
    by (auto simp: send_http_def Let_def dict_bounded_reset split: option.split prod.split
        dest: first again keep)
qed

interpretation dict_steps: inv_steps "\<lambda>ts p. snd (send_http env t (Some p) w ts)" "dict_bounded n"
    "\<lambda>p. payload_size p \<le> n" for env t w n
  by unfold_locales (rule send_http_bounded)

text \<open>A send that gets past the checks, from the results of its steps.\<close>

lemma send_http_eq:
  assumes "htEndpoint t \<noteq> []" and "validateWorkload w = None" and "\<not> payload_empty p"
    and "encode_locked env (Some p) (ensureDictionaryLocked env ts) = (body, ts2)"
    and "sendBody env t body w (batchID p) ts2 = ((result, err), ts3)"
    and "encode_locked env (Some p) (resetDictionaryLocked env ts3) = (body', ts4)"
    and "sendBody env t body' w (batchID p) ts4 = ((result', err'), ts5)"
  shows "send_http env (Some t) (Some p) w ts =
    (if body = [] then (None, ts2)
     else if err = None then (None, ts3)
     else if srStatusCode result = 413 then (err, resetDictionaryLocked env ts3)
     else if srStatusCode result = 409 \<and> srResponseCode result = ''unknown_series_dictionary''
     then if body' = [] then (err, ts4)
       else (err', if srStatusCode result' = 413 then resetDictionaryLocked env ts5 else ts5)
     else (err, ts3))"
  using assms by (simp add: send_http_def Let_def)

subsection \<open>What every request carries\<close>

text \<open>The client instrumented with a log of its requests.\<close>

definition traced :: "'w environment \<Rightarrow> (httpRequest list \<times> 'w) environment" where
  "traced env =
     \<lparr>http_do = \<lambda>req (log, w). let (r, w') = http_do env req w in (r, (log @ [req], w')),
      clock = \<lambda>(log, w). let (now, w') = clock env w in (now, (log, w')),
      request_url = request_url env, json_code = json_code env, int64_oob = int64_oob env\<rparr>"

definition requests :: "(httpRequest list \<times> 'w) transportState \<Rightarrow> httpRequest list" where
  "requests ts = fst (tsWorld ts)"

lemma requests_reset [simp]: "requests (resetDictionaryLocked (traced env) ts) = requests ts"
  by (cases "tsWorld ts") (simp add: requests_def resetDictionaryLocked_def traced_def case_prod_beta)

lemma requests_ensure [simp]: "requests (ensureDictionaryLocked (traced env) ts) = requests ts"
  by (simp add: ensureDictionaryLocked_def split: option.split)

lemma requests_encode: "encode_locked (traced env) p ts = (body, ts') \<Longrightarrow> requests ts' = requests ts"
  by (auto simp: encode_locked_def requests_def split: prod.split_asm)

lemma requests_sendBody:
  assumes "sendBody (traced env) t body w b ts = (r, ts')"
  shows "requests ts' = requests ts \<or>
    (\<exists>url. requests ts' = requests ts @ [\<lparr>rqURL = url, rqHeader = request_headers t w b, rqBody = body\<rparr>])"
  using assms
  by (cases "tsWorld ts")
    (auto simp: sendBody_def Let_def requests_def traced_def split: sum.split_asm prod.split_asm if_split_asm)

definition carries :: "httpTransport \<Rightarrow> string \<Rightarrow> payload \<Rightarrow> httpRequest \<Rightarrow> bool" where
  "carries t w p req \<longleftrightarrow> rqHeader req = request_headers t w (batchID p)"

lemma send_http_requests:
  assumes "send_http (traced env) (Some t) (Some p) w ts = (err, ts')"
  shows "\<exists>reqs. requests ts' = requests ts @ reqs \<and> length reqs \<le> 2 \<and> (\<forall>r \<in> set reqs. carries t w p r)"
proof -
  let ?ts1 = "ensureDictionaryLocked (traced env) ts"
  have one: "\<exists>reqs. requests ts3 = requests ts2 @ reqs \<and> length reqs \<le> 1 \<and> (\<forall>r \<in> set reqs. carries t w p r)"
    if s: "sendBody (traced env) t body w (batchID p) ts2 = (r, ts3)" for body ts2 r ts3
  proof (cases "requests ts3 = requests ts2")
    case False
    then obtain url where
      "requests ts3 = requests ts2 @ [\<lparr>rqURL = url, rqHeader = request_headers t w (batchID p), rqBody = body\<rparr>]"
      using requests_sendBody [OF s] by blast
    then show ?thesis by (simp add: carries_def)
  qed simp
  show ?thesis
  proof (cases "htEndpoint t = [] \<or> validateWorkload w \<noteq> None \<or> payload_empty p")
    case True
    then show ?thesis using assms by (auto simp: send_http_def split: if_split_asm option.split_asm)
  next
    case False
    obtain body ts2 where e: "encode_locked (traced env) (Some p) ?ts1 = (body, ts2)" by fastforce
    obtain result err3 ts3 where s: "sendBody (traced env) t body w (batchID p) ts2 = ((result, err3), ts3)"
      by (metis prod.exhaust)
    obtain body' ts4 where e': "encode_locked (traced env) (Some p) (resetDictionaryLocked (traced env) ts3) = (body', ts4)"
      by fastforce
    obtain result' err5 ts5 where s': "sendBody (traced env) t body' w (batchID p) ts4 = ((result', err5), ts5)"
      by (metis prod.exhaust)
    obtain a where a: "requests ts3 = requests ts2 @ a" "length a \<le> 1" "\<forall>r \<in> set a. carries t w p r"
      using one [OF s] by blast
    obtain b where b: "requests ts5 = requests ts4 @ b" "length b \<le> 1" "\<forall>r \<in> set b. carries t w p r"
      using one [OF s'] by blast
    have eqs: "requests ts2 = requests ts" "requests ts4 = requests ts3"
      using requests_encode [OF e] requests_encode [OF e'] by simp_all
    have "requests ts' \<in> {requests ts, requests ts @ a, requests ts @ a @ b}"
      using assms False a(1) b(1) eqs
      by (auto simp: send_http_eq [OF _ _ _ e s e' s'] split: if_split_asm)
    then obtain reqs where "requests ts' = requests ts @ reqs" "reqs \<in> {[], a, a @ b}" by auto
    then show ?thesis using a(2,3) b(2,3) by (intro exI [of _ reqs]) auto
  qed
qed

lemma canonical_keys [simp]:
  "canonical_key ''Content-Type'' = ''Content-Type''"
  "canonical_key ''Authorization'' = ''Authorization''"
  "canonical_key workloadHeaderName = ''X-Statok-Workload''"
  "canonical_key batchIDHeaderName = ''X-Statok-Batch-Id''"
  by code_simp+

lemma request_headers_fixed:
  assumes "htAPIKey t \<noteq> []" and "trim_space w \<noteq> []" and "trim_space b \<noteq> []"
  shows "map_of (request_headers t w b) ''Authorization'' = Some [htAPIKey t]"
    and "map_of (request_headers t w b) ''X-Statok-Workload'' = Some [trim_space w]"
    and "map_of (request_headers t w b) ''X-Statok-Batch-Id'' = Some [trim_space b]"
  using assms by (simp_all add: request_headers_def Let_def header_set_def)

subsection \<open>What a response means\<close>

definition stops :: "httpTransport \<Rightarrow> int \<Rightarrow> string \<Rightarrow> bool" where
  "stops t status code \<longleftrightarrow> shouldStopOnStatus t status \<or> shouldStopOnResponseCode t code"

lemma sendBody_response:
  assumes "request_url env (htEndpoint t) = Inr url"
    and "http_do env \<lparr>rqURL = url, rqHeader = request_headers t w b, rqBody = body\<rparr> (tsWorld ts) = (Inr resp, x)"
  shows "\<exists>result err. sendBody env t body w b ts = ((result, err), ts\<lparr>tsWorld := x\<rparr>) \<and>
    srStatusCode result = rsStatusCode resp \<and>
    (if 200 \<le> rsStatusCode resp \<and> rsStatusCode resp < 300 then err = None
     else srResponseCode result = snd (readErrorBody (json_code env) (rsBody resp)) \<and>
       (\<exists>h. StatusCode h = rsStatusCode resp \<and>
          err = Some (if stops t (rsStatusCode resp) (srResponseCode result)
                      then StopIngestErr (rsStatusCode resp) (Some (HTTPTransportErr h))
                      else HTTPTransportErr h)))"
proof -
  obtain detail code where rd: "readErrorBody (json_code env) (rsBody resp) = (detail, code)" by fastforce
  show ?thesis
    using assms rd
    by (auto simp: sendBody_def Let_def stops_def transport_error_def empty_result_def)
qed

lemma status_in_iff: "status_in codes s \<longleftrightarrow> s \<in> set codes"
  by (induction codes) auto

lemma code_in_iff: "code_in cs code \<longleftrightarrow> (\<exists>c \<in> set cs. equal_fold (trim_space c) code)"
  by (induction cs) auto

lemma retry_http: "shouldRetryTransport (Some (HTTPTransportErr h)) \<longleftrightarrow> StatusCode h \<in> {408, 429, 500, 502, 503, 504}"
  by (simp add: shouldRetryTransport_def)

text \<open>The default codes hold one that the field comment and the README do not name.\<close>

lemma default_stop_codes:
  "htStopResponseCodes t = [] \<Longrightarrow> shouldStopOnResponseCode t ''unsupported_protocol_version''"
proof -
  assume "htStopResponseCodes t = []"
  moreover have "trim_space ''unsupported_protocol_version'' = ''unsupported_protocol_version''"
    by (intro trim_space_plain) (simp_all add: plain_char_def)
  moreover have "trim_space ''unauthorized'' = ''unauthorized''"
    by (intro trim_space_plain) (simp_all add: plain_char_def)
  moreover have "to_lower ''unsupported_protocol_version'' = ''unsupported_protocol_version''"
    by code_simp
  ultimately show ?thesis
    by (simp add: shouldStopOnResponseCode_def defaultStopResponseCodes_def equal_fold_def Let_def to_lower_def)
qed

subsection \<open>Delivery to a server that follows the grammar\<close>

text \<open>
  A server that reads bodies with the reader of the grammar, answers an undefined number with
  409 and the code the transport knows, and applies a body only as a whole. It may lose its
  dictionary at any moment between two requests. \<open>svClock n\<close> is what the \<open>n\<close>th reading of the clock
  gives: any integers, in any order, but never the same nanosecond twice, since the reading names the
  dictionary session.
\<close>

record server =
  svReader :: reader
  svLog :: "read_event list"
  svClock :: "nat \<Rightarrow> int"
  svReadings :: nat

definition response :: "int \<Rightarrow> string \<Rightarrow> httpResponse" where
  "response status body = \<lparr>rsStatusCode = status, rsStatus = [], rsHeader = [], rsBody = body\<rparr>"

definition serve :: "httpRequest \<Rightarrow> server \<Rightarrow> (go_error + httpResponse) \<times> server" where
  "serve req s =
     (case read_body (svReader s) (rqBody req) of
        Inr (rd', evs) \<Rightarrow> (Inr (response 200 []), s\<lparr>svReader := rd', svLog := svLog s @ evs\<rparr>)
      | Inl UnknownSeries \<Rightarrow> (Inr (response 409 ''unknown_series_dictionary''), s)
      | Inl BadLine \<Rightarrow> (Inr (response 400 ''bad_line''), s))"

definition grammar_env :: "(f64 \<Rightarrow> int) \<Rightarrow> server environment" where
  "grammar_env oob =
     \<lparr>http_do = serve, clock = \<lambda>s. (svClock s (svReadings s), s\<lparr>svReadings := svReadings s + 1\<rparr>),
      request_url = Inr, json_code = Some, int64_oob = oob\<rparr>"

definition empty_reader :: reader where
  "empty_reader = \<lparr>rdSession = [], rdRevision = 0, rdSeries = Map.empty\<rparr>"

definition past_session :: "server \<Rightarrow> string \<Rightarrow> bool" where
  "past_session s sess \<longleftrightarrow> (\<exists>k < svReadings s. sess = fmt_int (svClock s k))"

definition server_inv :: "server transportState \<Rightarrow> bool" where
  "server_inv ts \<longleftrightarrow>
     (let s = tsWorld ts in
      inj (svClock s) \<and> (rdSession (svReader s) = [] \<or> past_session s (rdSession (svReader s))) \<and>
      (case tsDict ts of
         None \<Rightarrow> True
       | Some st \<Rightarrow> dict_ok st \<and> consistent (svReader s) st \<and> past_session s (sessionID st)))"

lemma fmt_int_not_Nil [simp]: "fmt_int i \<noteq> []"
  by (simp add: fmt_int_def)

lemma fmt_int_inj: "fmt_int i = fmt_int j \<longleftrightarrow> i = j"
proof
  have hd: "CHR ''-'' # s \<noteq> fmt_nat 10 n" "fmt_nat 10 n \<noteq> CHR ''-'' # s" for s n
    using fmt_nat_hd(1) [of n] by (metis list.sel(1))+
  assume "fmt_int i = fmt_int j"
  then show "i = j"
    using fmt_nat_inj [of 10 "nat i" "nat j"] fmt_nat_inj [of 10 "nat (- i)" "nat (- j)"]
    by (auto simp: fmt_int_def hd eq_nat_nat_iff split: if_split_asm)
qed simp

lemma sendBody_read:
  assumes "read_body (svReader (tsWorld ts)) body = Inr (rd', evs)"
  shows "\<exists>result. sendBody (grammar_env oob) t body w b ts =
    ((result, None), ts\<lparr>tsWorld := (tsWorld ts)\<lparr>svReader := rd', svLog := svLog (tsWorld ts) @ evs\<rparr>\<rparr>) \<and>
    srStatusCode result = 200"
  using assms by (simp add: sendBody_def grammar_env_def serve_def response_def Let_def)

lemma unknown_code:
  "readErrorBody Some ''unknown_series_dictionary'' = (detail, code) \<Longrightarrow> code = ''unknown_series_dictionary''"
proof -
  assume r: "readErrorBody Some ''unknown_series_dictionary'' = (detail, code)"
  have "trim_space ''unknown_series_dictionary'' = ''unknown_series_dictionary''"
    by (intro trim_space_plain) (simp_all add: plain_char_def)
  moreover have "to_lower ''unknown_series_dictionary'' = ''unknown_series_dictionary''" by code_simp
  ultimately show ?thesis
    using r by (simp add: readErrorBody_def maxErrorBodyBytes_def extractResponseCode_def Let_def)
qed

lemma sendBody_unknown:
  assumes "read_body (svReader (tsWorld ts)) body = Inl UnknownSeries"
  shows "\<exists>result e. sendBody (grammar_env oob) t body w b ts = ((result, Some e), ts) \<and>
    srStatusCode result = 409 \<and> srResponseCode result = ''unknown_series_dictionary''"
proof -
  have "request_url (grammar_env oob) (htEndpoint t) = Inr (htEndpoint t)" by (simp add: grammar_env_def)
  moreover have "http_do (grammar_env oob) \<lparr>rqURL = htEndpoint t, rqHeader = request_headers t w b, rqBody = body\<rparr> (tsWorld ts) =
      (Inr (response 409 ''unknown_series_dictionary''), tsWorld ts)"
    using assms by (simp add: grammar_env_def serve_def)
  ultimately obtain result err where
    "sendBody (grammar_env oob) t body w b ts = ((result, err), ts\<lparr>tsWorld := tsWorld ts\<rparr>)"
    "srStatusCode result = 409" "err \<noteq> None"
    "srResponseCode result = snd (readErrorBody Some ''unknown_series_dictionary'')"
    by (drule_tac sendBody_response) (auto simp: response_def grammar_env_def)
  then show ?thesis
    using unknown_code [of "fst (readErrorBody Some ''unknown_series_dictionary'')"] by auto
qed

lemma server_inv_reset:
  assumes "server_inv ts"
  shows "server_inv (resetDictionaryLocked (grammar_env oob) ts)"
    and "svReader (tsWorld (resetDictionaryLocked (grammar_env oob) ts)) = svReader (tsWorld ts)"
    and "svLog (tsWorld (resetDictionaryLocked (grammar_env oob) ts)) = svLog (tsWorld ts)"
    and "\<exists>st. tsDict (resetDictionaryLocked (grammar_env oob) ts) = Some st \<and> series st = []"
proof -
  let ?s = "tsWorld ts"
  have clk: "inj (svClock ?s)" using assms by (simp add: server_inv_def Let_def)
  then have "\<not> past_session ?s (fmt_int (svClock ?s (svReadings ?s)))"
    by (auto simp: past_session_def fmt_int_inj dest: injD)
  then have "rdSession (svReader ?s) \<noteq> fmt_int (svClock ?s (svReadings ?s))"
    using assms by (auto simp: server_inv_def Let_def eq_commute [of "[]"])
  moreover have "past_session (?s\<lparr>svReadings := svReadings ?s + 1\<rparr>) sess" if "past_session ?s sess" for sess
    using that by (auto simp: past_session_def intro: less_SucI)
  moreover have "past_session (?s\<lparr>svReadings := svReadings ?s + 1\<rparr>) (fmt_int (svClock ?s (svReadings ?s)))"
    by (auto simp: past_session_def)
  ultimately show "server_inv (resetDictionaryLocked (grammar_env oob) ts)"
    using assms clk dict_ok_new [of "svClock ?s (svReadings ?s)"]
    by (simp add: server_inv_def Let_def resetDictionaryLocked_def grammar_env_def consistent_def)
      (auto simp: newDictionaryState_def)
qed (simp_all add: resetDictionaryLocked_def grammar_env_def newDictionaryState_def)

lemma server_inv_ensure:
  assumes "server_inv ts"
  shows "server_inv (ensureDictionaryLocked (grammar_env oob) ts)"
    and "svLog (tsWorld (ensureDictionaryLocked (grammar_env oob) ts)) = svLog (tsWorld ts)"
  using assms server_inv_reset [OF assms]
  by (simp_all add: ensureDictionaryLocked_def split: option.split)

lemma consistent_grows:
  assumes enc: "encodes_to oob p st force st' evs" and cons: "consistent rd st"
  shows "consistent rd st'"
  unfolding consistent_def rd_right_def
proof (intro impI allI)
  fix i d assume "rdSession rd = sessionID st'" and d: "rdSeries rd i = Some d"
  then have "rd_right rd (series st)" using enc cons by (simp add: consistent_def encodes_to_def)
  then have i: "i < length (series st)" "d = sd_wire (series st ! i)" using rd_rightD d by blast+
  have "take (length (series st)) (series st') = series st" "length (series st) \<le> length (series st')"
    using enc by (simp_all add: encodes_to_def)
  then show "i < length (series st') \<and> d = sd_wire (series st' ! i)" using i by (metis nth_take less_le_trans)
qed

text \<open>One encoding, against whatever the server holds: read, or rejected without effect.\<close>

lemma encode_round:
  assumes inv: "server_inv \<lparr>tsDict = Some st, tsWorld = s\<rparr>" and safe: "payload_safe p" and ne: "\<not> payload_empty p"
  obtains body st' rd' where "encodeLinePayloadV4 oob (Some p) (Some st) False = (body, Some st')"
    and "body \<noteq> []" and "server_inv \<lparr>tsDict = Some st', tsWorld = s\<rparr>"
    and "read_body (svReader s) body = Inr (rd', payload_events oob p) \<or>
      read_body (svReader s) body = Inl UnknownSeries \<and> series st \<noteq> []"
    and "server_inv \<lparr>tsDict = Some st', tsWorld = s\<lparr>svReader := rd'\<rparr>\<rparr>"
proof -
  let ?rd = "svReader s"
  have st: "dict_ok st" "consistent ?rd st" "past_session s (sessionID st)" "inj (svClock s)"
      "rdSession ?rd = [] \<or> past_session s (rdSession ?rd)"
    using inv by (simp_all add: server_inv_def Let_def)
  obtain st' evs where e: "encodes_to oob p st False st' evs"
    using encode_encodes_to [OF st(1) safe ne] by blast
  let ?body = "fst (encodeLinePayloadV4 oob (Some p) (Some st) False)" and ?rd' = "rd_defined False st st' ?rd"
  have enc: "encodeLinePayloadV4 oob (Some p) (Some st) False = (?body, Some st')"
    using e by (simp add: encodes_to_def)
  have nb: "?body \<noteq> []" using e by (simp add: encodes_to_def body_lines_def end_line_def)
  have keep: "server_inv \<lparr>tsDict = Some st', tsWorld = s\<rparr>"
    using st e consistent_grows [OF e st(2)] by (simp add: server_inv_def Let_def encodes_to_def)
  have "series st \<noteq> []" if "read_body ?rd ?body = Inl UnknownSeries"
  proof
    assume "series st = []"
    then have "in_sync ?rd st" by (simp add: in_sync_def rd_defines_def)
    then show False using encode_reads_back [OF st(1) safe ne, of False ?rd oob] that by auto
  qed
  then have reads: "read_body ?rd ?body = Inr (?rd', payload_events oob p) \<or>
      read_body ?rd ?body = Inl UnknownSeries \<and> series st \<noteq> []"
    using read_consistent(1) [OF e safe st(2)] by auto
  have "server_inv \<lparr>tsDict = Some st', tsWorld = s\<lparr>svReader := ?rd'\<rparr>\<rparr>"
    using st e read_consistent(2) [OF e safe st(2)]
    by (simp add: server_inv_def Let_def encodes_to_def)
      (simp add: rd_defined_def past_session_def encodes_to_def)
  from that [OF enc nb keep reads this] show ?thesis .
qed

text \<open>One encoding and one request, from any state: read, or rejected without effect.\<close>

lemma server_inv_log: "server_inv (ts\<lparr>tsWorld := (tsWorld ts)\<lparr>svLog := l\<rparr>\<rparr>) = server_inv ts"
  by (simp add: server_inv_def Let_def past_session_def split: option.split)

lemma server_round:
  assumes inv: "server_inv ts" and d: "tsDict ts = Some st"
    and safe: "payload_safe p" and ne: "\<not> payload_empty p"
    and enc: "encode_locked (grammar_env oob) (Some p) ts = (body, ts2)"
  shows "body \<noteq> [] \<and> server_inv ts2 \<and> tsWorld ts2 = tsWorld ts \<and>
    ((\<exists>result ts3. sendBody (grammar_env oob) t body w b ts2 = ((result, None), ts3) \<and> srStatusCode result = 200 \<and> server_inv ts3 \<and>
        svLog (tsWorld ts3) = svLog (tsWorld ts) @ payload_events oob p) \<or>
     (\<exists>result e. sendBody (grammar_env oob) t body w b ts2 = ((result, Some e), ts2) \<and>
        srStatusCode result = 409 \<and> srResponseCode result = ''unknown_series_dictionary'' \<and> series st \<noteq> []))"
proof -
  have ts: "ts = \<lparr>tsDict = Some st, tsWorld = tsWorld ts\<rparr>" using d by simp
  then have inv': "server_inv \<lparr>tsDict = Some st, tsWorld = tsWorld ts\<rparr>" using inv by simp
  obtain body' st' rd' where
    e': "encodeLinePayloadV4 oob (Some p) (Some st) False = (body', Some st')" "body' \<noteq> []"
      "server_inv \<lparr>tsDict = Some st', tsWorld = tsWorld ts\<rparr>"
      "read_body (svReader (tsWorld ts)) body' = Inr (rd', payload_events oob p) \<or>
       read_body (svReader (tsWorld ts)) body' = Inl UnknownSeries \<and> series st \<noteq> []"
      "server_inv \<lparr>tsDict = Some st', tsWorld = (tsWorld ts)\<lparr>svReader := rd'\<rparr>\<rparr>"
    by (rule encode_round [OF inv' safe ne, of oob])
  have ts2: "ts2 = \<lparr>tsDict = Some st', tsWorld = tsWorld ts\<rparr>" and "body' = body"
    using enc d e'(1) by (auto simp: encode_locked_def grammar_env_def)
  note e = e' [unfolded \<open>body' = body\<close>]
  let ?ts3 = "ts2\<lparr>tsWorld := (tsWorld ts2)\<lparr>svReader := rd', svLog := svLog (tsWorld ts2) @ payload_events oob p\<rparr>\<rparr>"
  have "server_inv ?ts3"
    using e(5) server_inv_log [where ts = "\<lparr>tsDict = Some st', tsWorld = (tsWorld ts)\<lparr>svReader := rd'\<rparr>\<rparr>"] by (simp add: ts2)
  then show ?thesis
    using e(2-4) sendBody_read [of ts2 body rd' "payload_events oob p" oob t w b] sendBody_unknown [of ts2 body oob t w b]
    by (auto simp: ts2)
qed

text \<open>A whole send: delivered, also when the server had lost the dictionary.\<close>

lemma send_delivers:
  assumes inv: "server_inv ts" and t: "htEndpoint t \<noteq> []" and w: "validateWorkload w = None"
    and safe: "payload_safe p" and ne: "\<not> payload_empty p"
  shows "fst (send_http (grammar_env oob) (Some t) (Some p) w ts) = None"
    and "server_inv (snd (send_http (grammar_env oob) (Some t) (Some p) w ts))"
    and "svLog (tsWorld (snd (send_http (grammar_env oob) (Some t) (Some p) w ts))) =
      svLog (tsWorld ts) @ payload_events oob p"
proof -
  let ?env = "grammar_env oob" and ?evs = "payload_events oob p"
  let ?ts1 = "ensureDictionaryLocked ?env ts"
  note inv1 = server_inv_ensure [OF inv, of oob]
  obtain st where st: "tsDict ?ts1 = Some st" using ensureDictionary_some by blast
  obtain body ts2 where e: "encode_locked ?env (Some p) ?ts1 = (body, ts2)" by fastforce
  obtain result err ts3 where s: "sendBody ?env t body w (batchID p) ts2 = ((result, err), ts3)"
    by (metis prod.exhaust)
  obtain body' ts4 where e': "encode_locked ?env (Some p) (resetDictionaryLocked ?env ts3) = (body', ts4)"
    by fastforce
  obtain result' err' ts5 where s': "sendBody ?env t body' w (batchID p) ts4 = ((result', err'), ts5)"
    by (metis prod.exhaust)
  note r1 = server_round [OF inv1(1) st safe ne e, of t w "batchID p"]
  have "send_http ?env (Some t) (Some p) w ts \<in>
      {(None, ts') | ts'. server_inv ts' \<and> svLog (tsWorld ts') = svLog (tsWorld ts) @ ?evs}"
  proof (cases "err = None")
    case True
    then show ?thesis
      using r1 s inv1(2) by (auto simp: send_http_eq [OF t w ne e s e' s'])
  next
    case False
    then have c: "ts3 = ts2" "srStatusCode result = 409" "srResponseCode result = ''unknown_series_dictionary''"
        "body \<noteq> []" "server_inv ts2" "tsWorld ts2 = tsWorld ?ts1"
      using r1 s by auto
    note rs = server_inv_reset [OF c(5), of oob]
    obtain st4 where st4: "tsDict (resetDictionaryLocked ?env ts2) = Some st4" "series st4 = []"
      using rs(4) by blast
    have r2: "err' = None \<and> server_inv ts5 \<and> svLog (tsWorld ts5) = svLog (tsWorld ts2) @ ?evs \<and> body' \<noteq> [] \<and> srStatusCode result' = 200"
      using server_round [OF rs(1) st4(1) safe ne, of oob body' ts4 t w "batchID p"] e' s' st4(2) rs(3)
      by (auto simp: c(1))
    then show ?thesis
      using c False inv1(2) by (auto simp: send_http_eq [OF t w ne e s e' s'])
  qed
  then show "fst (send_http ?env (Some t) (Some p) w ts) = None"
    and "server_inv (snd (send_http ?env (Some t) (Some p) w ts))"
    and "svLog (tsWorld (snd (send_http ?env (Some t) (Some p) w ts))) = svLog (tsWorld ts) @ ?evs"
    by auto
qed

text \<open>A history: payloads sent, and moments at which the server forgets all definitions.\<close>

datatype history_step = Sent payload | Forgot

definition forget :: "server \<Rightarrow> server" where
  "forget s = s\<lparr>svReader := empty_reader\<rparr>"

definition history ::
  "(f64 \<Rightarrow> int) \<Rightarrow> httpTransport \<Rightarrow> string \<Rightarrow> server transportState \<Rightarrow> history_step \<Rightarrow> server transportState" where
  "history oob t w ts e =
     (case e of
        Sent p \<Rightarrow> snd (send_http (grammar_env oob) (Some t) (Some p) w ts)
      | Forgot \<Rightarrow> ts\<lparr>tsWorld := forget (tsWorld ts)\<rparr>)"

definition step_events :: "(f64 \<Rightarrow> int) \<Rightarrow> history_step \<Rightarrow> read_event list" where
  "step_events oob e = (case e of Sent p \<Rightarrow> payload_events oob p | Forgot \<Rightarrow> [])"

definition step_safe :: "history_step \<Rightarrow> bool" where
  "step_safe e = (case e of Sent p \<Rightarrow> payload_safe p \<and> \<not> payload_empty p | Forgot \<Rightarrow> True)"

lemma server_inv_forget: "server_inv ts \<Longrightarrow> server_inv (ts\<lparr>tsWorld := forget (tsWorld ts)\<rparr>)"
  by (auto simp: server_inv_def Let_def forget_def empty_reader_def consistent_def past_session_def rd_right_def
      split: option.splits)

lemma history_step_inv:
  assumes "htEndpoint t \<noteq> []" and "validateWorkload w = None" and "server_inv ts" and "step_safe e"
  shows "server_inv (history oob t w ts e)"
    and "svLog (tsWorld (history oob t w ts e)) = svLog (tsWorld ts) @ step_events oob e"
proof -
  show "server_inv (history oob t w ts e)"
    using assms send_delivers(2) server_inv_forget
    by (cases e) (simp_all add: history_def step_safe_def)
  show "svLog (tsWorld (history oob t w ts e)) = svLog (tsWorld ts) @ step_events oob e"
    using assms send_delivers(3)
    by (cases e) (simp_all add: history_def step_safe_def step_events_def forget_def)
qed

lemma history_run:
  assumes "htEndpoint t \<noteq> []" and "validateWorkload w = None"
  shows "server_inv ts \<Longrightarrow> \<forall>e \<in> set es. step_safe e \<Longrightarrow>
    server_inv (run_steps (history oob t w) ts es) \<and>
    svLog (tsWorld (run_steps (history oob t w) ts es)) = svLog (tsWorld ts) @ concat (map (step_events oob) es)"
proof (induction es arbitrary: ts)
  case (Cons e es)
  then show ?case using history_step_inv [OF assms Cons.prems(1), of e oob] by simp
qed simp

definition start_state :: "(nat \<Rightarrow> int) \<Rightarrow> server transportState" where
  "start_state clk =
     \<lparr>tsDict = None, tsWorld = \<lparr>svReader = empty_reader, svLog = [], svClock = clk, svReadings = 0\<rparr>\<rparr>"

lemma server_inv_start: "inj clk \<Longrightarrow> server_inv (start_state clk)"
  by (simp add: server_inv_def start_state_def empty_reader_def)

definition sample_transport :: httpTransport where
  "sample_transport = new_http_transport ''http://h'' ''key'' None"

lemma sample_workload: "validateWorkload ''w'' = None"
  by (simp add: validateWorkload_iff workload_char_def)

subsection \<open>Properties\<close>

text \<open>
  C4 (safety). Exactly-once delivery of batches over losses of the server's dictionary. Against a
  server that reads the grammar and answers an undefined number with 409, every history of sends
  with the server forgetting its definitions in between leaves in the server's log exactly the events
  of the payloads sent, in order, and each further send succeeds (the 409 is resolved inside the send
  by a fresh dictionary). The clock may run back; it only never gives the same nanosecond twice.
\<close>

theorem delivered_exactly_once:
  assumes "htEndpoint t \<noteq> []" and "validateWorkload w = None" and "inj clk"
    and "\<forall>e \<in> set es. step_safe e" and "payload_safe p" and "\<not> payload_empty p"
  shows "svLog (tsWorld (run_steps (history oob t w) (start_state clk) es)) = concat (map (step_events oob) es) \<and>
    fst (send_http (grammar_env oob) (Some t) (Some p) w (run_steps (history oob t w) (start_state clk) es)) = None"
  using history_run [OF assms(1,2) server_inv_start [OF assms(3)] assms(4), of oob]
    send_delivers(1) [OF _ assms(1,2,5,6), of _ oob]
  by (simp add: start_state_def)

theorem delivered_exactly_once_witness:
  "svLog (tsWorld (run_steps (history (\<lambda>x. 0) sample_transport ''w'') (start_state int) [Sent wire_sample, Forgot, Sent wire_sample])) =
    payload_events (\<lambda>x. 0) wire_sample @ payload_events (\<lambda>x. 0) wire_sample"
proof -
  have t: "htEndpoint sample_transport \<noteq> []" by (simp add: sample_transport_def new_http_transport_def)
  have s: "\<forall>e \<in> set [Sent wire_sample, Forgot, Sent wire_sample]. step_safe e"
    using wire_sample_safe by (simp add: step_safe_def)
  show ?thesis
    using delivered_exactly_once [OF t sample_workload, of int "[Sent wire_sample, Forgot, Sent wire_sample]" wire_sample "\<lambda>x. 0"]
      s wire_sample_safe by (simp add: step_events_def)
qed

text \<open>
  C16 (bounds). Whatever the server answers, the dictionary never holds more than 2047 series plus the
  events of one payload, over any sequence of sends of payloads of at most \<open>n\<close> events: a full
  dictionary is replaced before the next encoding.
\<close>

theorem dictionary_bounded:
  assumes "\<forall>p \<in> set ps. payload_size p \<le> n" and "tsDict ts = None"
  shows "dict_size (run_steps (\<lambda>ts p. snd (send_http env t (Some p) w ts)) ts ps) < 2048 + n"
proof -
  have "dict_bounded n ts" using assms(2) by (simp add: dict_bounded_def dict_size_def defaultMaxDictionarySeries_def)
  from dict_steps.run_keeps [OF this assms(1)] show ?thesis
    by (simp add: dict_bounded_def defaultMaxDictionarySeries_def)
qed

theorem dictionary_bounded_witness:
  "dict_size (run_steps (\<lambda>ts p. snd (send_http (grammar_env (\<lambda>x. 0)) (Some sample_transport) (Some p) ''w'' ts))
    (start_state int) [wire_sample, wire_sample]) < 2048 + 3"
  by (rule dictionary_bounded) (simp_all add: payload_size_def wire_sample_def start_state_def)

text \<open>
  C17 (safety). One send makes at most two requests, and each of them carries the API key, the workload
  and the trimmed batch ID of the payload, whatever headers the user configured: a resend inside the
  transport has the identity of the first.
\<close>

theorem send_requests:
  assumes "send_http (traced env) (Some t) (Some p) w ts = (err, ts')"
    and "htAPIKey t \<noteq> []" and "validateWorkload w = None" and "trim_space (batchID p) \<noteq> []"
  shows "\<exists>reqs. requests ts' = requests ts @ reqs \<and> length reqs \<le> 2 \<and>
    (\<forall>r \<in> set reqs.
       map_of (rqHeader r) ''Authorization'' = Some [htAPIKey t] \<and>
       map_of (rqHeader r) ''X-Statok-Workload'' = Some [w] \<and>
       map_of (rqHeader r) ''X-Statok-Batch-Id'' = Some [trim_space (batchID p)])"
proof -
  have "trim_space w = w" "w \<noteq> []" using validateWorkload_iff [of w] workload_plain [of w] assms(3) by auto
  then show ?thesis
    using send_http_requests [OF assms(1)] request_headers_fixed [OF assms(2) _ assms(4), of w]
    by (auto simp: carries_def)
qed

definition traced_start :: "(httpRequest list \<times> server) transportState" where
  "traced_start = \<lparr>tsDict = None, tsWorld = ([], tsWorld (start_state int))\<rparr>"

theorem send_requests_witness:
  "\<exists>reqs err ts'. send_http (traced (grammar_env (\<lambda>x. 0))) (Some sample_transport) (Some wire_sample) ''w'' traced_start = (err, ts') \<and>
    requests ts' = reqs \<and> length reqs \<le> 2 \<and>
    (\<forall>r \<in> set reqs. map_of (rqHeader r) ''X-Statok-Batch-Id'' = Some [''b''])"
proof -
  obtain err ts' where run: "send_http (traced (grammar_env (\<lambda>x. 0))) (Some sample_transport) (Some wire_sample) ''w'' traced_start = (err, ts')"
    by fastforce
  have key: "htAPIKey sample_transport \<noteq> []" by (simp add: sample_transport_def new_http_transport_def)
  have "trim_space ''b'' = ''b''" by (intro trim_space_plain) (simp_all add: plain_char_def)
  then have b: "trim_space (batchID wire_sample) = ''b''" by (simp add: wire_sample_def)
  then have bn: "trim_space (batchID wire_sample) \<noteq> []" by simp
  from send_requests [OF run key sample_workload bn] show ?thesis
    using run b by (auto simp: requests_def traced_start_def)
qed

lemma to_lower_idem [simp]: "to_lower (to_lower s) = to_lower s"
  by (simp add: to_lower_def lower_char_def)

text \<open>When a response stops the client, in terms of the configuration and the documented defaults.\<close>

lemma stops_iff:
  "stops t status raw \<longleftrightarrow>
     (if htStopStatusCodes t = [] then status = 401 else status \<in> set (htStopStatusCodes t)) \<or>
     to_lower (trim_space raw) \<noteq> [] \<and>
     (if htStopResponseCodes t = [] then to_lower (trim_space raw) \<in> {''unauthorized'', ''unsupported_protocol_version''}
      else \<exists>c \<in> set (htStopResponseCodes t). to_lower (trim_space c) = to_lower (trim_space raw))"
proof -
  have plain: "trim_space ''unauthorized'' = ''unauthorized''"
    "trim_space ''unsupported_protocol_version'' = ''unsupported_protocol_version''"
    by (intro trim_space_plain; simp add: plain_char_def)+
  have low: "to_lower ''unauthorized'' = ''unauthorized''"
    "to_lower ''unsupported_protocol_version'' = ''unsupported_protocol_version''" by code_simp+
  show ?thesis
    unfolding stops_def shouldStopOnStatus_def shouldStopOnResponseCode_def code_in_iff status_in_iff equal_fold_def Let_def
    by (auto simp: defaultStopStatusCode_def defaultStopResponseCodes_def plain low)
qed

text \<open>
  C18 (error). What a response means to the caller: a 2xx is success, whatever it dropped; any other is
  an error with its status. It stops the client exactly when its status is one of the configured ones (401 if
  none is configured) or its response code, whatever its case, is one of the configured ones
  (\<open>unauthorized\<close> and \<open>unsupported_protocol_version\<close> if none is); and it is retried exactly when it does not
  stop the client and the status is one of six.
\<close>

theorem response_decides:
  assumes "request_url env (htEndpoint t) = Inr url"
    and "http_do env \<lparr>rqURL = url, rqHeader = request_headers t w b, rqBody = body\<rparr> (tsWorld ts) = (Inr resp, x)"
  shows "let status = rsStatusCode resp;
      code = to_lower (trim_space (snd (readErrorBody (json_code env) (rsBody resp))));
      stop = (if htStopStatusCodes t = [] then status = 401 else status \<in> set (htStopStatusCodes t)) \<or>
        code \<noteq> [] \<and>
        (if htStopResponseCodes t = [] then code \<in> {''unauthorized'', ''unsupported_protocol_version''}
         else \<exists>c \<in> set (htStopResponseCodes t). to_lower (trim_space c) = code) in
    \<exists>result err. sendBody env t body w b ts = ((result, err), ts\<lparr>tsWorld := x\<rparr>) \<and>
    (err = None \<longleftrightarrow> 200 \<le> status \<and> status < 300) \<and>
    (case err of
       None \<Rightarrow> True
     | Some e \<Rightarrow> (IsStopIngestError e \<longleftrightarrow> stop) \<and>
         (shouldRetryTransport (Some e) \<longleftrightarrow> \<not> stop \<and> status \<in> {408, 429, 500, 502, 503, 504}))"
proof -
  let ?code = "snd (readErrorBody (json_code env) (rsBody resp))" and ?status = "rsStatusCode resp"
  obtain result err where r: "sendBody env t body w b ts = ((result, err), ts\<lparr>tsWorld := x\<rparr>)"
      "if 200 \<le> ?status \<and> ?status < 300 then err = None
     else srResponseCode result = ?code \<and>
       (\<exists>h. StatusCode h = ?status \<and>
          err = Some (if stops t ?status (srResponseCode result)
                      then StopIngestErr ?status (Some (HTTPTransportErr h)) else HTTPTransportErr h))"
    using sendBody_response [OF assms] by blast
  have "(err = None \<longleftrightarrow> 200 \<le> ?status \<and> ?status < 300) \<and>
    (case err of
       None \<Rightarrow> True
     | Some e \<Rightarrow> (IsStopIngestError e \<longleftrightarrow> stops t ?status ?code) \<and>
         (shouldRetryTransport (Some e) \<longleftrightarrow> \<not> stops t ?status ?code \<and> ?status \<in> {408, 429, 500, 502, 503, 504}))"
    using r(2) by (auto simp: stop_never_retried retry_http split: if_split_asm)
  with r(1) show ?thesis unfolding stops_iff Let_def by blast
qed

text \<open>A server that refuses every request with one status and code.\<close>

definition refusing_env :: "int \<Rightarrow> string \<Rightarrow> unit environment" where
  "refusing_env status code =
     \<lparr>http_do = \<lambda>req w. (Inr (response status code), w), clock = \<lambda>w. (5, w), request_url = Inr,
      json_code = Some, int64_oob = \<lambda>x. 0\<rparr>"

theorem response_decides_witness:
  "let ts = \<lparr>tsDict = None, tsWorld = ()\<rparr> in
    (\<exists>result e. sendBody (refusing_env 403 ''Unauthorized'') sample_transport ''?'' ''w'' ''b'' ts = ((result, Some e), ts) \<and>
       IsStopIngestError e) \<and>
    (\<exists>result e. sendBody (refusing_env 503 ''busy'') sample_transport ''?'' ''w'' ''b'' ts = ((result, Some e), ts) \<and>
       \<not> IsStopIngestError e \<and> shouldRetryTransport (Some e))"
proof -
  let ?ts = "\<lparr>tsDict = None, tsWorld = ()\<rparr>"
  have url: "request_url (refusing_env st c) (htEndpoint sample_transport) = Inr (htEndpoint sample_transport)" for st c
    by (simp add: refusing_env_def)
  have http: "http_do (refusing_env st c) \<lparr>rqURL = htEndpoint sample_transport,
      rqHeader = request_headers sample_transport ''w'' ''b'', rqBody = ''?''\<rparr> (tsWorld ?ts) = (Inr (response st c), ())" for st c
    by (simp add: refusing_env_def)
  have code: "to_lower (trim_space (snd (readErrorBody Some ''Unauthorized''))) = ''unauthorized''"
    "to_lower (trim_space (snd (readErrorBody Some ''busy''))) = ''busy''" by code_simp+
  have conf: "htStopStatusCodes sample_transport = []" "htStopResponseCodes sample_transport = []"
    by (simp_all add: sample_transport_def new_http_transport_def)
  from response_decides [OF url http, of 403 "''Unauthorized''"] response_decides [OF url http, of 503 "''busy''"]
  show ?thesis
    by (auto simp: refusing_env_def response_def code conf split: option.split_asm)
qed

end
