(* ===== verification/ValueLimiter.thy ===== *)
theory ValueLimiter
  imports Prelude
begin

unbundle bit_operations_syntax

section \<open>The value rate limiter (value_rate_limiter.go)\<close>

text \<open>
  One atomic 64-bit word packs the current second (upper 48 bits) and the number of samples
  admitted in it (lower 16 bits). \<open>allowAt\<close> is a compare-and-swap loop: the sequential
  reading is \<open>allow_at\<close>, the concurrent one the step relation \<open>cas_step\<close> over any number of
  goroutines, each at its load, its compare-and-swap or done.
\<close>

definition maxValueEventsPerSecond :: nat where
  "maxValueEventsPerSecond = 20000"

definition rateLimitCounterBits :: nat where
  "rateLimitCounterBits = 16"

definition rateLimitCounterMask :: u64 where
  "rateLimitCounterMask = push_bit rateLimitCounterBits 1 - 1"

datatype cas_decision = Reject | Swap u64

text \<open>What one iteration of the loop does with the state it loaded.\<close>

definition allow_decide :: "u64 \<Rightarrow> u64 \<Rightarrow> cas_decision" where
  "allow_decide state window =
     (let currentWindow = drop_bit rateLimitCounterBits state in
      if window < currentWindow then Reject
      else if currentWindow < window
        then Swap (push_bit rateLimitCounterBits window OR 1)
      else let count = state AND rateLimitCounterMask in
        if of_nat maxValueEventsPerSecond \<le> count then Reject else Swap (state + 1))"

text \<open>The whole call when no other goroutine interferes.\<close>

definition allow_at :: "u64 \<Rightarrow> int \<Rightarrow> bool \<times> u64" where
  "allow_at state second =
     (case allow_decide state (word_of_int second) of
        Reject \<Rightarrow> (False, state)
      | Swap new \<Rightarrow> (True, new))"

subsection \<open>The packed word\<close>

definition pack :: "nat \<Rightarrow> nat \<Rightarrow> u64" where
  "pack w c = of_nat (w * 65536 + c)"

lemma pack_push: "push_bit rateLimitCounterBits (of_nat w) OR 1 = pack w 1"
proof -
  have "push_bit 16 (of_nat w :: u64) AND 1 = 0"
    by (rule bit_eqI) (auto simp: bit_simps)
  then have "push_bit 16 (of_nat w :: u64) OR 1 = push_bit 16 (of_nat w) + 1"
    by (metis disjunctive_add_eq_or)
  then show ?thesis
    by (simp add: pack_def rateLimitCounterBits_def push_bit_eq_mult mult.commute)
qed

lemma unat_pack: "w < 2 ^ 48 \<Longrightarrow> c < 65536 \<Longrightarrow> unat (pack w c) = w * 65536 + c"
  unfolding pack_def by (subst unat_of_nat) (simp add: take_bit_eq_mod)

lemma drop_pack:
  assumes "w < 2 ^ 48" and "c < 65536"
  shows "drop_bit rateLimitCounterBits (pack w c) = of_nat w"
proof -
  have "unat (drop_bit 16 (pack w c)) = w"
    using assms by (simp add: unat_drop_bit_eq unat_pack) (simp add: drop_bit_eq_div)
  then show ?thesis
    using assms by (simp add: rateLimitCounterBits_def word_unat_eq_iff unat_of_nat take_bit_eq_mod)
qed

lemma mask_pack:
  assumes "w < 2 ^ 48" and "c < 65536"
  shows "pack w c AND rateLimitCounterMask = of_nat c"
proof -
  have "rateLimitCounterMask = mask 16"
    by (simp add: rateLimitCounterMask_def rateLimitCounterBits_def mask_eq_exp_minus_1 push_bit_eq_mult)
  then have "pack w c AND rateLimitCounterMask = take_bit 16 (pack w c)"
    by (simp only: take_bit_eq_mask)
  then have "unat (pack w c AND rateLimitCounterMask) = c"
    using assms by (simp add: unsigned_take_bit_eq unat_pack) (simp add: take_bit_eq_mod)
  then show ?thesis
    using assms by (simp add: word_unat_eq_iff unat_of_nat take_bit_eq_mod)
qed

lemma pack_Suc: "pack w c + 1 = pack w (Suc c)"
  by (simp add: pack_def)

lemma of_nat_less_word: "a < 2 ^ 64 \<Longrightarrow> b < 2 ^ 64 \<Longrightarrow> ((of_nat a :: u64) < of_nat b) = (a < b)"
  by (simp add: word_less_nat_alt unat_of_nat take_bit_eq_mod)

text \<open>The decision on a packed state, over plain numbers.\<close>

fun allow_spec :: "nat \<times> nat \<Rightarrow> nat \<Rightarrow> (nat \<times> nat) option" where
  "allow_spec (w, c) sec =
     (if sec < w then None
      else if w < sec then Some (sec, 1)
      else if maxValueEventsPerSecond \<le> c then None else Some (w, Suc c))"

lemma allow_decide_pack:
  assumes "w < 2 ^ 48" and "c < 65536" and "sec < 2 ^ 48"
  shows "allow_decide (pack w c) (of_nat sec) =
    (case allow_spec (w, c) sec of None \<Rightarrow> Reject | Some (w', c') \<Rightarrow> Swap (pack w' c'))"
  using assms
  by (simp add: allow_decide_def Let_def drop_pack mask_pack of_nat_less_word pack_push pack_Suc
      word_le_nat_alt unat_of_nat take_bit_eq_mod maxValueEventsPerSecond_def)

subsection \<open>Sequential behaviour\<close>

fun allow_run :: "u64 \<Rightarrow> nat list \<Rightarrow> bool list \<times> u64" where
  "allow_run st [] = ([], st)"
| "allow_run st (sec # secs) =
     (let (ok, st') = allow_at st (int sec); (oks, st'') = allow_run st' secs in (ok # oks, st''))"

lemma allow_at_pack:
  assumes "w < 2 ^ 48" and "c < 65536" and "sec < 2 ^ 48"
  shows "allow_at (pack w c) (int sec) =
    (case allow_spec (w, c) sec of None \<Rightarrow> (False, pack w c) | Some (w', c') \<Rightarrow> (True, pack w' c'))"
  using allow_decide_pack [OF assms]
  by (simp add: allow_at_def split: option.splits prod.splits)

lemma allow_spec_bounds:
  "allow_spec (w, c) sec = Some (w', c') \<Longrightarrow>
     w' = sec \<and> w \<le> sec \<and> 0 < c' \<and> c' \<le> maxValueEventsPerSecond"
  by (auto simp: maxValueEventsPerSecond_def split: if_splits)

text \<open>Within one second: \<open>n\<close> calls admit the first ones up to the limit and reject the rest.\<close>

lemma allow_run_same_second:
  assumes "w < 2 ^ 48" and "c \<le> maxValueEventsPerSecond"
  shows "allow_run (pack w c) (replicate n w) =
    (replicate (min n (maxValueEventsPerSecond - c)) True
       @ replicate (n - (maxValueEventsPerSecond - c)) False,
     pack w (min (c + n) maxValueEventsPerSecond))"
  using assms
proof (induction n arbitrary: c)
  case 0
  then show ?case by simp
next
  case (Suc n)
  have c: "c < 65536" using Suc.prems by (simp add: maxValueEventsPerSecond_def)
  show ?case
  proof (cases "c < maxValueEventsPerSecond")
    case True
    then have "allow_at (pack w c) (int w) = (True, pack w (Suc c))"
      using allow_at_pack [OF Suc.prems(1) c Suc.prems(1)] by simp
    moreover have "maxValueEventsPerSecond - c = Suc (maxValueEventsPerSecond - Suc c)"
      using True by simp
    ultimately show ?thesis
      using Suc.IH [OF Suc.prems(1), of "Suc c"] True by simp
  next
    case False
    then have "c = maxValueEventsPerSecond" using Suc.prems(2) by simp
    then have "allow_at (pack w c) (int w) = (False, pack w c)"
      using allow_at_pack [OF Suc.prems(1) c Suc.prems(1)] by simp
    then show ?thesis
      using Suc.IH [OF Suc.prems] \<open>c = maxValueEventsPerSecond\<close> by simp
  qed
qed

text \<open>How many of the calls made in second \<open>sec\<close> were admitted.\<close>

fun admitted_in :: "nat \<Rightarrow> nat list \<Rightarrow> bool list \<Rightarrow> nat" where
  "admitted_in sec (s # secs) (ok # oks) =
     (if ok \<and> s = sec then 1 else 0) + admitted_in sec secs oks"
| "admitted_in _ _ _ = 0"

lemma allow_run_budget:
  assumes "w < 2 ^ 48" and "c \<le> maxValueEventsPerSecond" and "\<forall>s \<in> set secs. s < 2 ^ 48"
  shows "admitted_in sec secs (fst (allow_run (pack w c) secs)) \<le>
    (if sec < w then 0 else if sec = w then maxValueEventsPerSecond - c else maxValueEventsPerSecond)"
  using assms
proof (induction secs arbitrary: w c)
  case Nil
  then show ?case by simp
next
  case (Cons s secs)
  have c: "c < 65536" using Cons.prems(2) by (simp add: maxValueEventsPerSecond_def)
  have s: "s < 2 ^ 48" using Cons.prems(3) by simp
  note at = allow_at_pack [OF Cons.prems(1) c s]
  show ?case
  proof (cases "allow_spec (w, c) s")
    case None
    then have "allow_at (pack w c) (int s) = (False, pack w c)" using at by simp
    then show ?thesis
      using Cons.IH [of w c] Cons.prems by (simp add: case_prod_unfold Let_def)
  next
    case (Some p)
    obtain w' c' where p: "p = (w', c')" by fastforce
    have b: "w' = s" "w \<le> s" "0 < c'" "c' \<le> maxValueEventsPerSecond"
      using allow_spec_bounds Some p by blast+
    have ok: "allow_at (pack w c) (int s) = (True, pack w' c')" using at Some p by simp
    have c': "s = w \<Longrightarrow> c' = Suc c" "s \<noteq> w \<Longrightarrow> c' = 1"
      using Some p by (auto split: if_splits)
    show ?thesis
      using Cons.IH [of w' c'] Cons.prems ok b c'
      by (cases "s = w") (auto simp: case_prod_unfold Let_def split: if_splits)
  qed
qed

lemma pack_zero: "0 = pack 0 0"
  by (simp add: pack_def)

subsection \<open>Concurrent behaviour: the compare-and-swap loop\<close>

text \<open>
  Every goroutine is at a program point of \<open>allowAt\<close>, with the window that it converted its second to.
  Two history variables: \<open>called\<close>, the seconds of all calls, and \<open>lin\<close>, the windows of the calls whose
  compare-and-swap succeeded, in the order of the swaps.
\<close>

datatype cas_pc = Idle | Loading nat | Loaded nat u64 | Returned nat bool

record cas_sys =
  shared :: u64
  pcs :: "nat \<Rightarrow> cas_pc"
  called :: "int list"
  lin :: "nat list"

definition cas_init :: cas_sys where
  "cas_init = \<lparr>shared = 0, pcs = (\<lambda>_. Idle), called = [], lin = []\<rparr>"

inductive cas_step :: "cas_sys \<Rightarrow> cas_sys \<Rightarrow> bool" where
  call: "pcs s i = Idle \<or> pcs s i = Returned sec0 ok \<Longrightarrow> - (2 ^ 63) \<le> second \<Longrightarrow> second < 2 ^ 63 \<Longrightarrow>
    cas_step s (s\<lparr>pcs := (pcs s)(i := Loading (unat (word_of_int second :: u64))), called := called s @ [second]\<rparr>)"
| load: "pcs s i = Loading sec \<Longrightarrow>
    cas_step s (s\<lparr>pcs := (pcs s)(i := Loaded sec (shared s))\<rparr>)"
| reject: "pcs s i = Loaded sec old \<Longrightarrow> allow_decide old (of_nat sec) = Reject \<Longrightarrow>
    cas_step s (s\<lparr>pcs := (pcs s)(i := Returned sec False)\<rparr>)"
| swap: "pcs s i = Loaded sec old \<Longrightarrow> allow_decide old (of_nat sec) = Swap new \<Longrightarrow>
    shared s = old \<Longrightarrow>
    cas_step s (s\<lparr>shared := new, pcs := (pcs s)(i := Returned sec True), lin := lin s @ [sec]\<rparr>)"
| retry: "pcs s i = Loaded sec old \<Longrightarrow> allow_decide old (of_nat sec) = Swap new \<Longrightarrow>
    shared s \<noteq> old \<Longrightarrow>
    cas_step s (s\<lparr>pcs := (pcs s)(i := Loading sec)\<rparr>)"

inductive cas_reachable :: "cas_sys \<Rightarrow> bool" where
  start: "cas_reachable cas_init"
| step: "cas_reachable s \<Longrightarrow> cas_step s t \<Longrightarrow> cas_reachable t"

definition pc_second_ok :: "cas_pc \<Rightarrow> bool" where
  "pc_second_ok p = (case p of Loading sec \<Rightarrow> sec < 2 ^ 48 | Loaded sec _ \<Rightarrow> sec < 2 ^ 48 | _ \<Rightarrow> True)"

text \<open>The seconds that fit the upper 48 bits: every Unix time from 1970 on, for nine million years.\<close>

definition seconds_fit :: "cas_sys \<Rightarrow> bool" where
  "seconds_fit s \<longleftrightarrow> (\<forall>second \<in> set (called s). 0 \<le> second \<and> second < 2 ^ 48)"

lemma window_of_second: "0 \<le> second \<Longrightarrow> second < 2 ^ 48 \<Longrightarrow> unat (word_of_int second :: u64) = nat second"
  by (simp add: unat_eq_nat_uint take_bit_int_eq_self uint_word_of_int_eq)

lemma cas_step_called: "cas_step s t \<Longrightarrow> seconds_fit t \<Longrightarrow> seconds_fit s"
  by (induction rule: cas_step.induct) (auto simp: seconds_fit_def)

text \<open>
  A second before 1970 becomes a window above every packed one, so such a call is always admitted.
\<close>

lemma negative_second_admitted:
  assumes "- (2 ^ 63) \<le> second" and "second < 0"
  shows "fst (allow_at st second)"
proof -
  have "uint (word_of_int second :: u64) = second mod 2 ^ 64" by (simp add: uint_word_of_int)
  also have "\<dots> = (second + 2 ^ 64) mod 2 ^ 64" by (simp only: mod_add_self2)
  also have "\<dots> = second + 2 ^ 64" by (rule mod_pos_pos_trivial) (use assms in simp_all)
  finally have e: "uint (word_of_int second :: u64) = second + 18446744073709551616" by simp
  have "int (unat (word_of_int second :: u64)) = uint (word_of_int second :: u64)" by (rule uint_nat [symmetric])
  moreover have "- 9223372036854775808 \<le> second" using assms(1) by simp
  ultimately have "281474976710656 \<le> unat (word_of_int second :: u64)" using e by linarith
  moreover have "unat st < 2 ^ LENGTH(64)" by (rule unsigned_less)
  then have "unat (drop_bit rateLimitCounterBits st) < 281474976710656"
    by (simp add: rateLimitCounterBits_def unat_drop_bit_eq) (simp add: drop_bit_eq_div)
  ultimately have "drop_bit rateLimitCounterBits st < (word_of_int second :: u64)" by (simp add: word_less_nat_alt)
  then show ?thesis by (simp add: allow_at_def allow_decide_def Let_def)
qed

text \<open>
  The invariant: the shared word is what the sequential limiter reaches on the history, and
  it admitted every call of the history.
\<close>

definition cas_inv :: "cas_sys \<Rightarrow> bool" where
  "cas_inv s \<longleftrightarrow> (\<forall>i. pc_second_ok (pcs s i)) \<and> (\<forall>sec \<in> set (lin s). sec < 2 ^ 48) \<and>
     allow_run 0 (lin s) = (replicate (length (lin s)) True, shared s)"

lemma allow_run_append:
  "allow_run st (xs @ ys) =
     (fst (allow_run st xs) @ fst (allow_run (snd (allow_run st xs)) ys),
      snd (allow_run (snd (allow_run st xs)) ys))"
  by (induction xs arbitrary: st) (auto simp: case_prod_unfold Let_def)

lemma allow_decide_at:
  "allow_decide st (of_nat sec) = Swap new \<Longrightarrow> allow_at st (int sec) = (True, new)"
  by (simp add: allow_at_def)

lemma cas_step_inv: "cas_step s t \<Longrightarrow> seconds_fit t \<Longrightarrow> cas_inv s \<Longrightarrow> cas_inv t"
proof (induction rule: cas_step.induct)
  case (call s i sec0 ok second)
  then show ?case by (auto simp: cas_inv_def pc_second_ok_def seconds_fit_def window_of_second)
next
  case (swap s i sec old new)
  then have "pc_second_ok (Loaded sec old)" by (metis cas_inv_def)
  then have sec: "sec < 2 ^ 48" by (simp add: pc_second_ok_def)
  have "allow_run 0 (lin s @ [sec]) = (replicate (length (lin s)) True @ [True], new)"
    using swap by (simp add: cas_inv_def allow_run_append allow_decide_at)
  then show ?case
    using swap sec by (simp add: cas_inv_def pc_second_ok_def replicate_append_same)
next
  case (load s i sec)
  then show ?case by (auto simp: cas_inv_def pc_second_ok_def split: cas_pc.splits)
next
  case (retry s i sec old new)
  then show ?case by (auto simp: cas_inv_def pc_second_ok_def split: cas_pc.splits)
qed (auto simp: cas_inv_def pc_second_ok_def)

lemma cas_reachable_inv: "cas_reachable s \<Longrightarrow> seconds_fit s \<Longrightarrow> cas_inv s"
proof (induction rule: cas_reachable.induct)
  case start
  show ?case by (simp add: cas_inv_def cas_init_def pc_second_ok_def)
next
  case (step s t)
  then show ?case by (blast intro: cas_step_inv cas_step_called)
qed

text \<open>
  What a goroutine has loaded is the word that the limiter reached on a prefix of the history: rejections
  are decided on a state that really was the shared one.
\<close>

definition loads_known :: "cas_sys \<Rightarrow> bool" where
  "loads_known s \<longleftrightarrow>
     (\<forall>i sec old. pcs s i = Loaded sec old \<longrightarrow>
        (\<exists>n \<le> length (lin s). old = snd (allow_run 0 (take n (lin s)))))"

lemma loads_known_step: "cas_step s t \<Longrightarrow> cas_inv s \<Longrightarrow> loads_known s \<Longrightarrow> loads_known t"
proof (induction rule: cas_step.induct)
  case (load s i sec)
  have "shared s = snd (allow_run 0 (take (length (lin s)) (lin s)))" using load.prems(1) by (simp add: cas_inv_def)
  then show ?case using load.prems(2) by (auto simp: loads_known_def)
next
  case (swap s i sec old new)
  have "\<exists>n \<le> length (lin s @ [sec]). old' = snd (allow_run 0 (take n (lin s @ [sec])))"
    if "pcs s j = Loaded sec' old'" for j sec' old'
  proof -
    from swap.prems(2) that obtain n where "n \<le> length (lin s)" "old' = snd (allow_run 0 (take n (lin s)))"
      by (fastforce simp: loads_known_def)
    then show ?thesis by (intro exI [where x = n]) simp
  qed
  then show ?case by (auto simp: loads_known_def)
qed (auto simp: loads_known_def)

lemma loads_known_reachable: "cas_reachable s \<Longrightarrow> seconds_fit s \<Longrightarrow> loads_known s"
proof (induction rule: cas_reachable.induct)
  case start
  show ?case by (simp add: loads_known_def cas_init_def)
next
  case (step s t)
  then show ?case by (blast intro: loads_known_step cas_reachable_inv cas_step_called)
qed

text \<open>The word after a history of admitted calls: the latest second and how often it was admitted.\<close>

lemma admitted_word:
  assumes "allow_run 0 xs = (replicate (length xs) True, st)" and "\<forall>sec \<in> set xs. sec < 2 ^ 48"
  shows "\<exists>w c. st = pack w c \<and> w < 2 ^ 48 \<and> c \<le> maxValueEventsPerSecond \<and> c = count_list xs w \<and>
    (\<forall>x \<in> set xs. x \<le> w) \<and> (w \<in> set xs \<or> w = 0)"
  using assms
proof (induction xs arbitrary: st rule: rev_induct)
  case Nil
  then show ?case by (intro exI [where x = 0]) (simp add: pack_def)
next
  case (snoc x xs)
  obtain oks mid where mid: "allow_run 0 xs = (oks, mid)" by fastforce
  have run: "oks = replicate (length xs) True" "allow_at mid (int x) = (True, st)"
    using snoc.prems(1) by (auto simp: allow_run_append mid case_prod_beta replicate_append_same [symmetric] prod_eq_iff)
  from snoc.IH [of mid] mid run(1) snoc.prems(2) obtain w c where
    w: "mid = pack w c" "w < 2 ^ 48" "c \<le> maxValueEventsPerSecond" "c = count_list xs w"
      "\<forall>x \<in> set xs. x \<le> w" by auto
  have c: "c < 65536" using w(3) by (simp add: maxValueEventsPerSecond_def)
  have x: "x < 2 ^ 48" using snoc.prems(2) by simp
  from run(2) allow_at_pack [OF w(2) c x] obtain w' c' where
    s: "allow_spec (w, c) x = Some (w', c')" "st = pack w' c'" by (auto simp: w(1) split: option.splits)
  then have bounds: "w' = x" "w \<le> x" "c' \<le> maxValueEventsPerSecond" using allow_spec_bounds by blast+
  have "c' = count_list (xs @ [x]) x"
  proof (cases "w = x")
    case True
    then show ?thesis using s(1) w(4) by (auto split: if_splits)
  next
    case False
    then have "x \<notin> set xs" using w(5) bounds(2) by auto
    then show ?thesis using s(1) False by (simp add: count_list_0_iff split: if_splits)
  qed
  then show ?case using bounds s(2) x w(5) by (intro exI [where x = w'] exI [where x = c']) auto
qed

lemma admitted_prefix:
  assumes "allow_run 0 xs = (replicate (length xs) True, st)"
  shows "allow_run 0 (take n xs) = (replicate (length (take n xs)) True, snd (allow_run 0 (take n xs)))"
proof -
  have "fst (allow_run 0 (take n xs @ drop n xs)) = replicate (length xs) True" using assms by simp
  then have "fst (allow_run 0 (take n xs)) = take (length (fst (allow_run 0 (take n xs)))) (replicate (length xs) True)"
    unfolding allow_run_append by (metis append_eq_conv_conj fst_conv)
  moreover have "length (fst (allow_run st ys)) = length ys" for st ys
    by (induction ys arbitrary: st) (simp_all add: case_prod_beta Let_def)
  ultimately show ?thesis by (simp add: prod_eq_iff min_def)
qed

lemma reject_justified:
  assumes "cas_reachable s" and "seconds_fit s" and "pcs s i = Loaded sec old" and "allow_decide old (of_nat sec) = Reject"
  shows "\<exists>n. (\<exists>sec' \<in> set (take n (lin s)). sec < sec') \<or>
    count_list (take n (lin s)) sec = maxValueEventsPerSecond"
proof -
  note inv = cas_reachable_inv [OF assms(1,2)]
  have "pc_second_ok (pcs s i)" using inv by (simp add: cas_inv_def)
  then have sec: "sec < 2 ^ 48" using assms(3) by (simp add: pc_second_ok_def)
  from loads_known_reachable [OF assms(1,2)] assms(3) obtain n where
    n: "old = snd (allow_run 0 (take n (lin s)))" by (fastforce simp: loads_known_def)
  have "allow_run 0 (take n (lin s)) = (replicate (length (take n (lin s))) True, old)"
    unfolding n by (rule admitted_prefix) (use inv in \<open>simp add: cas_inv_def\<close>)
  moreover have "\<forall>sec \<in> set (take n (lin s)). sec < 2 ^ 48" using inv by (auto simp: cas_inv_def dest: in_set_takeD)
  ultimately obtain w c where
    w: "old = pack w c" "w < 2 ^ 48" "c \<le> maxValueEventsPerSecond" "c = count_list (take n (lin s)) w"
      "w \<in> set (take n (lin s)) \<or> w = 0" using admitted_word by blast
  have "c < 65536" using w(3) by (simp add: maxValueEventsPerSecond_def)
  then have "allow_spec (w, c) sec = None"
    using allow_decide_pack [OF w(2) _ sec, of c] assms(4)
    by (cases "allow_spec (w, c) sec") (auto simp: w(1) simp del: allow_spec.simps)
  then have "sec < w \<or> sec = w \<and> c = maxValueEventsPerSecond" using w(3) by (auto split: if_splits)
  then show ?thesis using w(4,5) by (cases "sec < w") (auto intro: exI [where x = n])
qed

lemma admitted_in_all: "admitted_in sec xs (replicate (length xs) True) = count_list xs sec"
  by (induction xs) auto

text \<open>
  C5 (safety). In every interleaving of any number of goroutines running the compare-and-swap
  loop, at most \<open>maxValueEventsPerSecond\<close> samples of any one second are admitted, and the
  shared word and the admissions are those of the sequential limiter run on the admitted calls
  in the order of their swaps (linearization). No sample is dropped without need: a goroutine that is about
  to reject one has loaded a state in which a later second had begun or the limit of its second was used up.
\<close>

theorem limiter_concurrent_bound:
  assumes "cas_reachable s" and "\<forall>second \<in> set (called s). 0 \<le> second \<and> second < 2 ^ 48"
  shows "count_list (lin s) sec \<le> maxValueEventsPerSecond \<and>
    allow_run 0 (lin s) = (replicate (length (lin s)) True, shared s) \<and>
    (\<forall>i sec old. pcs s i = Loaded sec old \<and> allow_decide old (of_nat sec) = Reject \<longrightarrow>
       (\<exists>n. (\<exists>sec' \<in> set (take n (lin s)). sec < sec') \<or>
          count_list (take n (lin s)) sec = maxValueEventsPerSecond))"
proof -
  have fit: "seconds_fit s" using assms(2) by (simp add: seconds_fit_def)
  have inv: "cas_inv s" by (rule cas_reachable_inv [OF assms(1) fit])
  then have "admitted_in sec (lin s) (fst (allow_run (pack 0 0) (lin s))) \<le> maxValueEventsPerSecond"
    using allow_run_budget [of 0 0 "lin s" sec] by (auto simp: cas_inv_def split: if_splits)
  moreover have "\<forall>i sec old. pcs s i = Loaded sec old \<and> allow_decide old (of_nat sec) = Reject \<longrightarrow>
      (\<exists>n. (\<exists>sec' \<in> set (take n (lin s)). sec < sec') \<or> count_list (take n (lin s)) sec = maxValueEventsPerSecond)"
    using reject_justified [OF assms(1) fit] by blast
  ultimately show ?thesis using inv by (simp add: cas_inv_def admitted_in_all flip: pack_zero)
qed

theorem limiter_concurrent_bound_witness:
  "\<exists>s. cas_reachable s \<and> lin s = [7] \<and> count_list (lin s) 7 \<le> maxValueEventsPerSecond"
proof -
  let ?s1 = "cas_init\<lparr>pcs := (pcs cas_init)(0 := Loading (unat (word_of_int 7 :: u64))), called := called cas_init @ [7]\<rparr>"
  let ?s2 = "?s1\<lparr>pcs := (pcs ?s1)(0 := Loaded 7 (shared ?s1))\<rparr>"
  let ?s3 = "?s2\<lparr>shared := pack 7 1, pcs := (pcs ?s2)(0 := Returned 7 True), lin := lin ?s2 @ [7]\<rparr>"
  have "cas_reachable ?s1"
    by (rule cas_reachable.step [OF cas_reachable.start], rule cas_step.call) (simp_all add: cas_init_def)
  then have "cas_reachable ?s2"
    by (rule cas_reachable.step) (rule cas_step.load, simp add: window_of_second)
  then have "cas_reachable ?s3"
  proof (rule cas_reachable.step, intro cas_step.swap)
    have "allow_decide (pack 0 0) (of_nat 7) = Swap (pack 7 1)"
      by (subst allow_decide_pack) simp_all
    then show "allow_decide (shared ?s1) (of_nat 7) = Swap (pack 7 1)"
      by (simp add: cas_init_def flip: pack_zero)
  qed simp_all
  then have "cas_reachable ?s3 \<and> lin ?s3 = [7] \<and> count_list (lin ?s3) 7 \<le> maxValueEventsPerSecond"
    using limiter_concurrent_bound [of ?s3 7] by (simp add: cas_init_def)
  then show ?thesis by blast
qed

text \<open>
  The limit is not conservative: of \<open>n\<close> calls in a fresh second the first
  \<open>maxValueEventsPerSecond\<close> are admitted and exactly the others are dropped.
\<close>

theorem limiter_fills_window:
  assumes "w < 2 ^ 48" and "w0 < w" and "c \<le> maxValueEventsPerSecond" and "0 < n"
  shows "fst (allow_run (pack w0 c) (replicate n w)) =
    replicate (min n maxValueEventsPerSecond) True @ replicate (n - maxValueEventsPerSecond) False"
proof -
  obtain k where n: "n = Suc k" using assms(4) by (cases n) auto
  have "allow_at (pack w0 c) (int w) = (True, pack w 1)"
    using assms allow_at_pack [of w0 c w] by (simp add: maxValueEventsPerSecond_def)
  moreover have "min n maxValueEventsPerSecond = Suc (min k (maxValueEventsPerSecond - 1))"
    and "n - maxValueEventsPerSecond = k - (maxValueEventsPerSecond - 1)"
    and "1 \<le> maxValueEventsPerSecond"
    by (auto simp: n maxValueEventsPerSecond_def)
  ultimately show ?thesis
    using allow_run_same_second [OF assms(1), of 1 k] by (simp add: n)
qed

theorem limiter_fills_window_witness:
  "fst (allow_run (pack 1752000000 3) (replicate 30000 1752000001)) =
    replicate (min 30000 maxValueEventsPerSecond) True @ replicate (30000 - maxValueEventsPerSecond) False"
  by (rule limiter_fills_window) (simp_all add: maxValueEventsPerSecond_def)

end
