(* ===== verification/UniqueId.thy ===== *)
theory UniqueId
  imports FloatFormat
begin

section \<open>Unique IDs (unique_id.go)\<close>

text \<open>
  The argument of \<open>CountUnique\<close> may have any type. \<open>goAny\<close> has a constructor for each case of
  the type switch, on a 64-bit platform, and \<open>GoOther\<close> for the rest. A Go result
  \<open>(string, bool)\<close> is a pair.
\<close>

datatype goAny =
    GoInt "64 word" | GoInt8 "8 word" | GoInt16 "16 word" | GoInt32 "32 word" | GoInt64 "64 word"
  | GoUint "64 word" | GoUint8 "8 word" | GoUint16 "16 word" | GoUint32 "32 word" | GoUint64 "64 word"
  | GoUintptr "64 word" | GoString string | GoBytes string | GoOther

definition canonicalUniqueDecimalString :: "string \<Rightarrow> string \<times> bool" where
  "canonicalUniqueDecimalString s =
     (if s = [] then ([], False)
      else (case parse_uint maxUint64 s of
              (v, None) \<Rightarrow> (fmt_nat 10 v, True)
            | (_, Some _) \<Rightarrow> ([], False)))"

definition format_u64 :: "u64 \<Rightarrow> string" where
  "format_u64 v = fmt_nat 10 (unat v)"

fun canonicalUniqueID :: "goAny \<Rightarrow> string \<times> bool" where
  "canonicalUniqueID (GoInt v) = (if sint v < 0 then ([], False) else (format_u64 v, True))"
| "canonicalUniqueID (GoInt8 v) = (if sint v < 0 then ([], False) else (format_u64 (scast v), True))"
| "canonicalUniqueID (GoInt16 v) = (if sint v < 0 then ([], False) else (format_u64 (scast v), True))"
| "canonicalUniqueID (GoInt32 v) = (if sint v < 0 then ([], False) else (format_u64 (scast v), True))"
| "canonicalUniqueID (GoInt64 v) = (if sint v < 0 then ([], False) else (format_u64 v, True))"
| "canonicalUniqueID (GoUint v) = (format_u64 v, True)"
| "canonicalUniqueID (GoUint8 v) = (format_u64 (ucast v), True)"
| "canonicalUniqueID (GoUint16 v) = (format_u64 (ucast v), True)"
| "canonicalUniqueID (GoUint32 v) = (format_u64 (ucast v), True)"
| "canonicalUniqueID (GoUint64 v) = (format_u64 v, True)"
| "canonicalUniqueID (GoUintptr v) = (format_u64 v, True)"
| "canonicalUniqueID (GoString v) = canonicalUniqueDecimalString v"
| "canonicalUniqueID (GoBytes v) = (if length v = 0 then ([], False) else canonicalUniqueDecimalString v)"
| "canonicalUniqueID GoOther = ([], False)"

subsection \<open>The number an argument stands for\<close>

definition nonneg :: "int \<Rightarrow> nat option" where
  "nonneg i = (if i < 0 then None else Some (nat i))"

definition decimal_value :: "string \<Rightarrow> nat option" where
  "decimal_value s =
     (if s \<noteq> [] \<and> list_all is_digit s \<and> digits_val s < 2 ^ 64 then Some (digits_val s) else None)"

fun unique_value :: "goAny \<Rightarrow> nat option" where
  "unique_value (GoInt v) = nonneg (sint v)"
| "unique_value (GoInt8 v) = nonneg (sint v)"
| "unique_value (GoInt16 v) = nonneg (sint v)"
| "unique_value (GoInt32 v) = nonneg (sint v)"
| "unique_value (GoInt64 v) = nonneg (sint v)"
| "unique_value (GoUint v) = Some (unat v)"
| "unique_value (GoUint8 v) = Some (unat v)"
| "unique_value (GoUint16 v) = Some (unat v)"
| "unique_value (GoUint32 v) = Some (unat v)"
| "unique_value (GoUint64 v) = Some (unat v)"
| "unique_value (GoUintptr v) = Some (unat v)"
| "unique_value (GoString v) = decimal_value v"
| "unique_value (GoBytes v) = decimal_value v"
| "unique_value GoOther = None"

lemma digits_val_ge_start: "n \<le> foldl (\<lambda>n c. n * 10 + digit_val c) n s"
proof (induction s arbitrary: n)
  case (Cons c s)
  have "n \<le> n * 10 + digit_val c" by simp
  also have "\<dots> \<le> foldl (\<lambda>n c. n * 10 + digit_val c) (n * 10 + digit_val c) s" by (rule Cons.IH)
  finally show ?case by simp
qed simp

lemma parse_digits_value:
  "(case parse_digits mx n s of (v, None) \<Rightarrow> Some v | _ \<Rightarrow> None) =
     (if list_all is_digit s \<and> (s \<noteq> [] \<longrightarrow> foldl (\<lambda>n c. n * 10 + digit_val c) n s \<le> mx)
      then Some (foldl (\<lambda>n c. n * 10 + digit_val c) n s) else None)"
proof (induction s arbitrary: n)
  case (Cons c s)
  show ?case
  proof (cases "is_digit c \<and> n * 10 + digit_val c \<le> mx")
    case True
    then show ?thesis using Cons.IH [of "n * 10 + digit_val c"] by (cases s) auto
  next
    case False
    then show ?thesis using digits_val_ge_start [of "n * 10 + digit_val c" s] by auto
  qed
qed simp

lemma decimal_string_value:
  "canonicalUniqueDecimalString s =
     (case decimal_value s of Some n \<Rightarrow> (fmt_nat 10 n, True) | None \<Rightarrow> ([], False))"
proof (cases "s = []")
  case False
  let ?d = "foldl (\<lambda>n c. n * 10 + digit_val c) 0 s"
  have lim: "?d \<le> maxUint64 \<longleftrightarrow> digits_val s < 2 ^ 64" unfolding digits_val_def maxUint64_def by simp linarith
  show ?thesis
    using parse_digits_value [of maxUint64 0 s] False lim
    by (auto simp: canonicalUniqueDecimalString_def parse_uint_def decimal_value_def digits_val_def
        split: prod.splits option.splits if_splits)
qed (simp add: canonicalUniqueDecimalString_def decimal_value_def)

lemma nonneg_word:
  fixes v :: "'a :: len word"
  assumes "LENGTH('a) \<le> 64"
  shows "(if sint v < 0 then ([], False) else (format_u64 (scast v), True)) =
    (case nonneg (sint v) of Some n \<Rightarrow> (fmt_nat 10 n, True) | None \<Rightarrow> ([], False))"
proof (cases "sint v < 0")
  case False
  have "sint v < 2 ^ (LENGTH('a) - 1)" using sint_lt [of v] by simp
  also have "\<dots> \<le> 2 ^ 63" using assms by (intro power_increasing) auto
  finally have lt: "sint v < 2 ^ 63" .
  have "uint (scast v :: u64) = take_bit 64 (sint v)" by transfer simp
  then have "unat (scast v :: u64) = nat (take_bit 64 (sint v))" by (simp add: unat_eq_nat_uint)
  then have "unat (scast v :: u64) = nat (sint v)"
    using False lt by (simp add: take_bit_int_eq_self)
  then show ?thesis using False by (simp add: nonneg_def format_u64_def)
qed (simp add: nonneg_def)

lemma nonneg_u64:
  "(if sint v < 0 then ([], False) else (format_u64 v, True)) =
    (case nonneg (sint v) of Some n \<Rightarrow> (fmt_nat 10 n, True) | None \<Rightarrow> ([], False))" for v :: u64
proof -
  have "LENGTH(64) \<le> 64" by simp
  from nonneg_word [OF this, of v] show ?thesis unfolding scast_id .
qed

lemma unat_ucast_up:
  fixes v :: "'a :: len word"
  assumes "LENGTH('a) \<le> 64"
  shows "unat (ucast v :: u64) = unat v"
proof -
  have "unat v < 2 ^ LENGTH('a)" by (rule unsigned_less)
  also have "\<dots> \<le> 2 ^ 64" using assms by (intro power_increasing) auto
  finally show ?thesis by (simp add: unsigned_ucast_eq take_bit_nat_eq_self)
qed

lemma unat_below:
  fixes v :: "'a :: len word"
  assumes "LENGTH('a) \<le> 64"
  shows "unat v < 2 ^ 64"
  using less_le_trans [OF unsigned_less [of v] power_increasing [OF assms]] by simp

lemma sint_below:
  fixes v :: "'a :: len word"
  assumes "LENGTH('a) \<le> 64"
  shows "nat (sint v) < 2 ^ 64"
proof -
  have "sint v < 2 ^ (LENGTH('a) - 1)" using sint_lt [of v] by simp
  also have "(2 :: int) ^ (LENGTH('a) - 1) \<le> 2 ^ 64" using assms by (intro power_increasing) auto
  finally show ?thesis by (simp add: nat_less_iff)
qed

lemma canonical_value:
  "canonicalUniqueID a =
     (case unique_value a of Some n \<Rightarrow> (fmt_nat 10 n, True) | None \<Rightarrow> ([], False))"
  by (cases a) (simp_all add: decimal_string_value nonneg_word nonneg_u64
      unat_ucast_up format_u64_def [of "ucast _"] format_u64_def decimal_value_def
      del: split_paired_All split: if_split_asm)

lemma unique_value_bound: "unique_value a = Some n \<Longrightarrow> n < 2 ^ 64"
  by (cases a) (auto simp: nonneg_def decimal_value_def unat_below [simplified] sint_below [simplified] split: if_split_asm)

lemma canonical_accepted: "canonicalUniqueID a = (s, True) \<Longrightarrow> \<exists>n < 2 ^ 64. s = fmt_nat 10 n"
  using unique_value_bound [of a] by (auto simp: canonical_value split: option.split_asm)

subsection \<open>Properties\<close>

text \<open>
  An argument of \<open>CountUnique\<close> is accepted exactly when it stands for a number
  below \<open>2 ^ 64\<close> (an integer of any width that is not negative, or a non-empty text of decimal
  digits, leading zeros allowed), and its ID is that number's decimal text without leading zeros.
\<close>

theorem canonical_unique_id:
  "canonicalUniqueID a =
     (case unique_value a of Some n \<Rightarrow> (fmt_nat 10 n, True) | None \<Rightarrow> ([], False))"
  by (rule canonical_value)

text \<open>
  C33 (equivalence). Arguments of different types count as the same occurrence exactly when they
  stand for the same number; an ID given back as a string is the same occurrence again.
\<close>

theorem canonical_id_identifies:
  "(canonicalUniqueID a = canonicalUniqueID b \<longleftrightarrow> unique_value a = unique_value b) \<and>
   canonicalUniqueID (GoString (fst (canonicalUniqueID a))) = canonicalUniqueID a"
  using unique_value_bound [of a]
  by (auto simp: canonical_value decimal_value_def dest: fmt_nat_inj [of 10, simplified] split: option.splits)

end
