(* ===== verification/Client.thy ===== *)
theory Client
  imports Transport ValueLimiter UniqueId
begin

section \<open>The client and its worker (client.go)\<close>

text \<open>
  Callers check and push events to a bounded channel; one worker goroutine receives them, turns
  totals into counters, builds batches, sends them, and keeps failed batches in a bounded retry
  queue behind a client-wide backoff gate. The transport and the clock are the environment:
  \<open>transport_send\<close> is the \<open>Send\<close> of the configured transport and \<open>time_now\<close> one reading of the clock
  (nanoseconds), both with a state of the world \<open>'w\<close>. Log output is not modelled.
\<close>

record retryBatch =
  rbPayload :: payload
  rbAttempts :: int
  rbNextAttempt :: int

datatype phase = Running | Draining | Exited

text \<open>
  The client with the local variables of its worker (\<open>clBatch\<close>, \<open>clRetry\<close>, \<open>clTotals\<close>). \<open>clPending\<close>
  holds the events of callers that passed the checks and have not reached the channel yet;
  \<open>clNextSend\<close> is \<open>None\<close> for the zero time; \<open>clPhase = Exited\<close> means that \<open>done\<close> is closed.
\<close>

record 'w client =
  clWorkload :: string
  clBatchSession :: string
  clBatchSeq :: u64
  clDropped :: u64
  clLimiter :: u64
  clStopSending :: bool
  clBackoffAttempt :: int
  clNextSend :: "int option"
  clPending :: "event list"
  clQueue :: "event list"
  clBatch :: "event list"
  clRetry :: "retryBatch list"
  clTotals :: "(string \<times> f64) list"
  clCancelled :: bool
  clPhase :: phase
  clWorld :: 'w

record 'w client_env =
  transport_send :: "payload \<Rightarrow> 'w \<Rightarrow> go_error option \<times> 'w"
  time_now :: "'w \<Rightarrow> int \<times> 'w"
  series_hash :: "string \<Rightarrow> string list \<Rightarrow> u64"

definition read_clock :: "'w client_env \<Rightarrow> 'w client \<Rightarrow> int \<times> 'w client" where
  "read_clock env c = (let (now, w) = time_now env (clWorld c) in (now, c\<lparr>clWorld := w\<rparr>))"

definition fmt_base36 :: "int \<Rightarrow> string" where
  "fmt_base36 i = (if i < 0 then ''-'' @ fmt_nat 36 (nat (- i)) else fmt_nat 36 (nat i))"

definition newBatchSessionID :: "int \<Rightarrow> string" where
  "newBatchSessionID now = fmt_base36 now"

text \<open>The client that \<open>NewClient\<close> starts, for a workload it accepted.\<close>

definition new_client :: "string \<Rightarrow> int \<Rightarrow> 'w \<Rightarrow> 'w client" where
  "new_client workload now w =
     \<lparr>clWorkload = workload, clBatchSession = newBatchSessionID now, clBatchSeq = 0, clDropped = 0,
      clLimiter = 0, clStopSending = False, clBackoffAttempt = 0, clNextSend = None, clPending = [],
      clQueue = [], clBatch = [], clRetry = [], clTotals = [], clCancelled = False,
      clPhase = Running, clWorld = w\<rparr>"

definition ErrNoTransport :: go_error where
  "ErrNoTransport = PlainErr ''statok: no transport configured''"

text \<open>What \<open>cfg.Transport\<close> is in a running client: the HTTP transport is wrapped with the workload.\<close>

datatype clientTransport = WorkloadHttp workloadHTTPTransport | GivenTransport transport

definition NewClient ::
  "(string \<Rightarrow> url option) \<Rightarrow> (url \<Rightarrow> string) \<Rightarrow> string \<Rightarrow> config \<Rightarrow> int \<Rightarrow> 'w \<Rightarrow>
     go_error + 'w client \<times> clientTransport" where
  "NewClient url_parse url_string workload0 cfg now w =
     (let workload = trim_space workload0 in
      case validateWorkload workload of
        Some err \<Rightarrow> Inl err
      | None \<Rightarrow>
          (case applyDefaults url_parse url_string cfg of
             (cfg', Some err) \<Rightarrow> Inl err
           | (cfg', None) \<Rightarrow>
               (case cfgTransport cfg' of
                  None \<Rightarrow> Inl ErrNoTransport
                | Some t \<Rightarrow>
                    Inr (new_client workload now w,
                      case t of
                        HttpTransport ht \<Rightarrow> WorkloadHttp \<lparr>wtBase = Some ht, wtWorkload = workload\<rparr>
                      | _ \<Rightarrow> GivenTransport t))))"

subsection \<open>Delays\<close>

text \<open>Go's \<open>%\<close>: the remainder has the sign of the dividend.\<close>

definition go_rem :: "int \<Rightarrow> int \<Rightarrow> int" where
  "go_rem a b = (if a < 0 then - ((- a) mod b) else a mod b)"

function delay_loop :: "int \<Rightarrow> int \<Rightarrow> int \<Rightarrow> int \<Rightarrow> int" where
  "delay_loop mx attempt step delay =
     (if step < attempt \<and> delay < mx
      then let delay' = delay * 2 in
        if mx \<le> delay' then mx else delay_loop mx attempt (step + 1) delay'
      else delay)"
  by pat_completeness auto
termination
  by (relation "measure (\<lambda>(mx, attempt, step, delay). nat (attempt - step))") auto

declare delay_loop.simps [simp del]

text \<open>\<open>now\<close> is the reading of the clock that gives the jitter.\<close>

definition retryDelay :: "int \<Rightarrow> int \<Rightarrow> int" where
  "retryDelay attempt0 now =
     (let attempt = (if attempt0 < 1 then 1 else attempt0);
          delay = delay_loop defaultRetryMaxDelay attempt 1 defaultRetryBaseDelay in
      if defaultRetryJitterWindow > 0 then delay + go_rem now defaultRetryJitterWindow else delay)"

definition clientBackoffDelay :: "int \<Rightarrow> int \<Rightarrow> int" where
  "clientBackoffDelay attempt0 now =
     (let attempt = (if attempt0 < 1 then 1 else attempt0);
          delay = delay_loop defaultClientBackoffMaxDelay attempt 1 defaultRetryBaseDelay in
      if defaultClientBackoffJitterWindow > 0 then delay + go_rem now defaultClientBackoffJitterWindow
      else delay)"

subsection \<open>Totals\<close>

definition applyTotal :: "event \<Rightarrow> (string \<times> f64) list \<Rightarrow> nat \<Rightarrow> event option \<times> (string \<times> f64) list" where
  "applyTotal ev totals limit =
     (if limit = 0 then (None, totals)
      else let key = seriesKey (ename ev) (elabels ev) in
        case map_of totals key of
          None \<Rightarrow>
            (if limit \<le> length totals then (None, totals)
             else (None, AList.update key (evalue ev) totals))
        | Some prev \<Rightarrow>
            (if evalue ev < prev then (None, AList.update key (evalue ev) totals)
             else let delta = evalue ev - prev in
               if delta \<le> 0 then (None, AList.update key (evalue ev) totals)
               else (Some (ev\<lparr>etyp := MtCounter, evalue := delta\<rparr>), AList.update key (evalue ev) totals)))"

subsection \<open>Sending with retries\<close>

definition nextBatchID :: "'w client \<Rightarrow> string \<times> 'w client" where
  "nextBatchID c =
     (let s = clBatchSeq c + 1 in
      (clBatchSession c @ ''-'' @ fmt_nat 36 (unat s), c\<lparr>clBatchSeq := s\<rparr>))"

definition noteTransientFailure :: "'w client_env \<Rightarrow> 'w client \<Rightarrow> 'w client" where
  "noteTransientFailure env c0 =
     (let c1 = c0\<lparr>clBackoffAttempt := clBackoffAttempt c0 + 1\<rparr>;
          (now, c2) = read_clock env c1;
          (jitter, c3) = read_clock env c2 in
      c3\<lparr>clNextSend := Some (now + clientBackoffDelay (clBackoffAttempt c3) jitter)\<rparr>)"

definition resetTransientBackoff :: "'w client \<Rightarrow> 'w client" where
  "resetTransientBackoff c = c\<lparr>clBackoffAttempt := 0, clNextSend := None\<rparr>"

definition enqueueRetryAt :: "payload \<Rightarrow> int \<Rightarrow> int \<Rightarrow> 'w client \<Rightarrow> bool \<times> 'w client" where
  "enqueueRetryAt p attempts nextAttempt c =
     (if attempts \<ge> defaultRetryMaxAttempts then (False, c)
      else if length (clRetry c) \<ge> defaultRetryQueueSize then (False, c)
      else (True, c\<lparr>clRetry := clRetry c @
             [\<lparr>rbPayload = p, rbAttempts = attempts, rbNextAttempt = nextAttempt\<rparr>]\<rparr>))"

definition enqueueRetry :: "'w client_env \<Rightarrow> payload \<Rightarrow> int \<Rightarrow> 'w client \<Rightarrow> bool \<times> 'w client" where
  "enqueueRetry env p attempt c0 =
     (let (now, c1) = read_clock env c0; (jitter, c2) = read_clock env c1 in
      enqueueRetryAt p attempt (now + retryDelay attempt jitter) c2)"

definition deferForClientBackoff ::
  "'w client_env \<Rightarrow> payload \<Rightarrow> int \<Rightarrow> 'w client \<Rightarrow> bool \<times> 'w client" where
  "deferForClientBackoff env p attempt c0 =
     (case clNextSend c0 of
        None \<Rightarrow> (False, c0)
      | Some t \<Rightarrow>
          (let (now, c1) = read_clock env c0 in
           if \<not> now < t then (False, c1)
           else
             let lastAttempt = (if attempt - 1 < 0 then 0 else attempt - 1);
                 (queued, c2) = enqueueRetryAt p lastAttempt t c1 in
             (True, c2)))"

definition sendPayload ::
  "'w client_env \<Rightarrow> payload \<Rightarrow> int \<Rightarrow> 'w client \<Rightarrow> 'w client" where
  "sendPayload env p0 attempt c0 =
     (if payload_empty p0 \<or> clStopSending c0 then c0
      else
        let (p, c1) = (if batchID p0 = [] then let (i, c) = nextBatchID c0 in (p0\<lparr>batchID := i\<rparr>, c) else (p0, c0));
            (deferred, c2) = deferForClientBackoff env p attempt c1 in
        if deferred then c2
        else
          let (err, w) = transport_send env p (clWorld c2); c3 = c2\<lparr>clWorld := w\<rparr> in
          case err of
            Some e \<Rightarrow>
              (if IsStopIngestError e then c3\<lparr>clStopSending := True\<rparr>
               else if shouldRetryTransport (Some e)
               then let (queued, c4) = enqueueRetry env p attempt (noteTransientFailure env c3) in c4
               else c3)
          | None \<Rightarrow> resetTransientBackoff c3)"

text \<open>The builder never fails (\<open>add_events_effect\<close>), so its \<open>None\<close> is not a case of its own.\<close>

definition buildPayload :: "'w client_env \<Rightarrow> event list \<Rightarrow> 'w client \<Rightarrow> payload option \<times> 'w client" where
  "buildPayload env events c =
     (case Option.bind (add_events (series_hash env) events newBatchBuilder) build of
        None \<Rightarrow> (None, c)
      | Some p \<Rightarrow>
          (if batchID p = [] then let (i, c') = nextBatchID c in (Some (p\<lparr>batchID := i\<rparr>), c')
           else (Some p, c)))"

definition flush_events :: "'w client_env \<Rightarrow> event list \<Rightarrow> 'w client \<Rightarrow> 'w client" where
  "flush_events env events c =
     (if clStopSending c then c
      else case buildPayload env events c of
        (None, c') \<Rightarrow> c'
      | (Some p, c') \<Rightarrow> sendPayload env p 1 c')"

text \<open>The closure \<open>flush\<close> of the worker.\<close>

definition flush_batch :: "'w client_env \<Rightarrow> 'w client \<Rightarrow> 'w client" where
  "flush_batch env c =
     (if clBatch c = [] then c else (flush_events env (clBatch c) c)\<lparr>clBatch := []\<rparr>)"

function (sequential) retry_loop ::
  "'w client_env \<Rightarrow> bool \<Rightarrow> nat \<Rightarrow> nat \<Rightarrow> nat \<Rightarrow> int \<Rightarrow> 'w client \<Rightarrow> 'w client" where
  "retry_loop env ignoreBackoff processLimit i processed now c =
     (if i < length (clRetry c) \<and> processed < processLimit
      then
        let item = clRetry c ! i in
        if \<not> ignoreBackoff \<and> rbNextAttempt item > now
        then retry_loop env ignoreBackoff processLimit (i + 1) processed now c
        else
          let c1 = c\<lparr>clRetry := take i (clRetry c) @ drop (i + 1) (clRetry c)\<rparr>;
              c2 = sendPayload env (rbPayload item) (rbAttempts item + 1) c1;
              (now', c3) = read_clock env c2 in
          retry_loop env ignoreBackoff processLimit i (processed + 1) now' c3
      else c)"
  by pat_completeness auto
termination
  by (relation "measures [\<lambda>(env, ig, lim, i, pr, now, c). lim - pr, \<lambda>(env, ig, lim, i, pr, now, c). length (clRetry c) - i]")
    auto

declare retry_loop.simps [simp del]

definition flushRetryQueue :: "'w client_env \<Rightarrow> bool \<Rightarrow> 'w client \<Rightarrow> 'w client" where
  "flushRetryQueue env ignoreBackoff c0 =
     (if length (clRetry c0) = 0 \<or> clStopSending c0 then c0
      else
        let (now, c1) = read_clock env c0;
            processLimit = (if defaultRetryFlushMaxSends > 0 \<and> length (clRetry c1) > defaultRetryFlushMaxSends
                            then defaultRetryFlushMaxSends else length (clRetry c1)) in
        retry_loop env ignoreBackoff processLimit 0 0 now c1)"

subsection \<open>The entry points\<close>

definition metaLabelFillMode :: string where "metaLabelFillMode = ''__statok_fill''"
definition metaFillModeCarry :: string where "metaFillModeCarry = ''carry''"

definition allowValue :: "'w client_env \<Rightarrow> string \<Rightarrow> 'w client \<Rightarrow> bool \<times> 'w client" where
  "allowValue env metric c0 =
     (if metric = [] \<or> clWorkload c0 = [] \<or> clStopSending c0 then (False, c0)
      else
        let (now, c1) = read_clock env c0; (ok, state) = allow_at (clLimiter c1) (unix_sec now) in
        (ok, c1\<lparr>clLimiter := state\<rparr>))"

text \<open>
  The checks before the channel send. \<open>pooled\<close> is what the pool held: any event, released. The
  event is then pending until its (atomic, non-blocking) channel send.
\<close>

definition admits :: "string \<Rightarrow> string list \<Rightarrow> 'w client \<Rightarrow> bool" where
  "admits metric labels c \<longleftrightarrow>
     \<not> (metric = []) \<and> \<not> (clWorkload c = []) \<and> \<not> clStopSending c \<and>
     \<not> hasWorkloadLabel labels \<and> clPhase c \<noteq> Exited"

definition enqueue ::
  "'w client_env \<Rightarrow> event \<Rightarrow> metricType \<Rightarrow> string \<Rightarrow> f64 \<Rightarrow> string list \<Rightarrow> 'w client \<Rightarrow> 'w client" where
  "enqueue env pooled t metric value labels c0 =
     (if \<not> admits metric labels c0 then c0
      else
        let (now, c1) = read_clock env c0 in
        c1\<lparr>clPending := clPending c1 @ [borrowEvent (releaseEvent pooled) t metric value labels now]\<rparr>)"

definition enqueueUnique ::
  "'w client_env \<Rightarrow> event \<Rightarrow> string \<Rightarrow> string \<Rightarrow> string list \<Rightarrow> 'w client \<Rightarrow> 'w client" where
  "enqueueUnique env pooled metric uid labels c0 =
     (if uid = [] \<or> \<not> admits metric labels c0 then c0
      else
        let (now, c1) = read_clock env c0 in
        c1\<lparr>clPending := clPending c1 @ [borrowUniqueEvent (releaseEvent pooled) metric uid labels now]\<rparr>)"

definition push_event :: "event \<Rightarrow> 'w client \<Rightarrow> 'w client" where
  "push_event ev c =
     (if length (clQueue c) < defaultQueueSize then c\<lparr>clQueue := clQueue c @ [ev]\<rparr>
      else c\<lparr>clDropped := clDropped c + 1\<rparr>)"

datatype call =
    Count string f64 "string list"
  | CountUnique goAny string "string list"
  | Total string f64 "string list"
  | Value string f64 "string list"
  | ValueSparse string f64 "string list"

definition client_call :: "'w client_env \<Rightarrow> event \<Rightarrow> call \<Rightarrow> 'w client \<Rightarrow> 'w client" where
  "client_call env pooled k c =
     (case k of
        Count metric delta labels \<Rightarrow> enqueue env pooled MtCounter metric delta labels c
      | CountUnique uid metric labels \<Rightarrow>
          (case canonicalUniqueID uid of
             (encodedID, ok) \<Rightarrow> if \<not> ok then c else enqueueUnique env pooled metric encodedID labels c)
      | Total metric amount labels \<Rightarrow> enqueue env pooled MtTotal metric amount labels c
      | Value metric value labels \<Rightarrow>
          (case allowValue env metric c of
             (ok, c') \<Rightarrow> if \<not> ok then c' else enqueue env pooled MtValue metric value labels c')
      | ValueSparse metric value labels \<Rightarrow>
          (case allowValue env metric c of
             (ok, c') \<Rightarrow>
               if \<not> ok then c'
               else enqueue env pooled MtValue metric value
                 (labels @ [Label metaLabelFillMode metaFillModeCarry]) c'))"

subsection \<open>The worker\<close>

definition receive :: "'w client_env \<Rightarrow> event \<Rightarrow> 'w client \<Rightarrow> 'w client" where
  "receive env ev0 c0 =
     (let (ev, c1) =
        (if etyp ev0 = MtTotal
         then let (ev', totals) = applyTotal ev0 (clTotals c0) defaultMaxTotalSeries in
           (ev', c0\<lparr>clTotals := totals\<rparr>)
         else (Some ev0, c0)) in
      case ev of
        None \<Rightarrow> c1
      | Some e \<Rightarrow>
          (let c2 = c1\<lparr>clBatch := clBatch c1 @ [e]\<rparr> in
           if length (clBatch c2) \<ge> defaultMaxBatchSize then flush_batch env c2 else c2))"

text \<open>
  The atomic steps. \<open>DoCall\<close> and \<open>DoPush\<close> are callers' (any number of goroutines: the event of one
  call may be pushed after others were), \<open>Cancel\<close> is \<open>Close\<close>, the rest is the worker: the cases of
  its \<open>select\<close>, the start of the drain, and its end, when the channel is found empty.
\<close>

datatype action = DoCall call event | DoPush nat | Cancel | Tick | Recv | BeginDrain | EndDrain

definition client_step :: "'w client_env \<Rightarrow> 'w client \<Rightarrow> action \<Rightarrow> 'w client" where
  "client_step env c a =
     (case a of
        DoCall k pooled \<Rightarrow> client_call env pooled k c
      | DoPush i \<Rightarrow>
          (if i < length (clPending c)
           then push_event (clPending c ! i)
             (c\<lparr>clPending := take i (clPending c) @ drop (i + 1) (clPending c)\<rparr>)
           else c)
      | Cancel \<Rightarrow> c\<lparr>clCancelled := True\<rparr>
      | Tick \<Rightarrow>
          (if clPhase c = Running then flushRetryQueue env False (flush_batch env c) else c)
      | Recv \<Rightarrow>
          (case clQueue c of
             [] \<Rightarrow> c
           | ev # rest \<Rightarrow> (if clPhase c = Exited then c else receive env ev (c\<lparr>clQueue := rest\<rparr>)))
      | BeginDrain \<Rightarrow> (if clPhase c = Running \<and> clCancelled c then c\<lparr>clPhase := Draining\<rparr> else c)
      | EndDrain \<Rightarrow>
          (if clPhase c = Draining \<and> clQueue c = []
           then (flushRetryQueue env True (flush_batch env c))\<lparr>clPhase := Exited\<rparr>
           else c))"

subsection \<open>Bounds\<close>

definition retry_ok :: "retryBatch list \<Rightarrow> bool" where
  "retry_ok q \<longleftrightarrow> length q \<le> defaultRetryQueueSize \<and>
     (\<forall>r \<in> set q. 0 \<le> rbAttempts r \<and> rbAttempts r < defaultRetryMaxAttempts)"

lemma retry_okI_remove: "retry_ok q \<Longrightarrow> retry_ok (take i q @ drop (Suc i) q)"
  by (auto simp: retry_ok_def dest: in_set_takeD in_set_dropD)

text \<open>What sending leaves alone: everything but the retry queue, the gate and the world.\<close>

definition send_frame :: "'w client \<Rightarrow> 'w client \<Rightarrow> bool" where
  "send_frame c c' \<longleftrightarrow>
     clQueue c' = clQueue c \<and> clBatch c' = clBatch c \<and> clTotals c' = clTotals c \<and>
     clPending c' = clPending c \<and> clPhase c' = clPhase c \<and> clCancelled c' = clCancelled c \<and>
     clWorkload c' = clWorkload c \<and> clDropped c' = clDropped c \<and> clLimiter c' = clLimiter c \<and>
     clBatchSession c' = clBatchSession c"

lemma send_frame_refl [simp]: "send_frame c c"
  by (simp add: send_frame_def)

lemma send_frame_trans: "send_frame a b \<Longrightarrow> send_frame b c \<Longrightarrow> send_frame a c"
  by (simp add: send_frame_def)

text \<open>A reading of the clock changes nothing else at all; any number of them is \<open>clock_star\<close>.\<close>

definition clock_star :: "'w client_env \<Rightarrow> 'w \<Rightarrow> 'w \<Rightarrow> bool" where
  "clock_star env = (\<lambda>w w'. w' = snd (time_now env w))\<^sup>*\<^sup>*"

lemma clock_star_simps [simp]:
  "clock_star env w w" "time_now env w = (now, w') \<Longrightarrow> clock_star env w w'"
  by (auto simp: clock_star_def)

lemma clock_star_trans: "clock_star env a b \<Longrightarrow> clock_star env b c \<Longrightarrow> clock_star env a c"
  unfolding clock_star_def by (rule rtranclp_trans)

lemma clock_star2:
  "time_now env a = (t, b) \<Longrightarrow> time_now env b = (t', c) \<Longrightarrow> clock_star env a c"
  by (rule clock_star_trans [of env a b]) simp_all

lemma clock_eq: "read_clock env c = (now, c') \<Longrightarrow> \<exists>w. c' = c\<lparr>clWorld := w\<rparr>"
  by (auto simp: read_clock_def split: prod.split_asm)

lemma clock_frame: "read_clock env c = (now, c') \<Longrightarrow> send_frame c c'"
  by (auto simp: send_frame_def dest: clock_eq)

lemma noteTransientFailure_eq:
  "\<exists>w t. noteTransientFailure env c =
     c\<lparr>clBackoffAttempt := clBackoffAttempt c + 1, clNextSend := Some t, clWorld := w\<rparr> \<and>
     clock_star env (clWorld c) w"
proof -
  obtain now w where 1: "time_now env (clWorld c) = (now, w)" by fastforce
  obtain jitter w' where 2: "time_now env w = (jitter, w')" by fastforce
  show ?thesis
    by (intro exI [of _ w'] exI [of _ "now + clientBackoffDelay (clBackoffAttempt c + 1) jitter"])
      (simp add: noteTransientFailure_def read_clock_def 1 2 clock_star2 [OF 1 2])
qed

lemma enqueueRetryAt_eq:
  "snd (enqueueRetryAt p n t c) =
     (if n < defaultRetryMaxAttempts \<and> length (clRetry c) < defaultRetryQueueSize
      then c\<lparr>clRetry := clRetry c @ [\<lparr>rbPayload = p, rbAttempts = n, rbNextAttempt = t\<rparr>]\<rparr> else c)"
  by (simp add: enqueueRetryAt_def)

lemma enqueueRetry_eq:
  "\<exists>w t. snd (enqueueRetry env p n c) = snd (enqueueRetryAt p n t (c\<lparr>clWorld := w\<rparr>)) \<and>
     clock_star env (clWorld c) w"
proof -
  obtain now w where 1: "time_now env (clWorld c) = (now, w)" by fastforce
  obtain jitter w' where 2: "time_now env w = (jitter, w')" by fastforce
  show ?thesis
    by (intro exI [of _ w'] exI [of _ "now + retryDelay n jitter"])
      (simp add: enqueueRetry_def read_clock_def 1 2 clock_star2 [OF 1 2])
qed

text \<open>The client-wide gate, at the reading that \<open>deferForClientBackoff\<close> makes.\<close>

definition gate_open :: "'w client_env \<Rightarrow> 'w client \<Rightarrow> bool" where
  "gate_open env c = (case clNextSend c of None \<Rightarrow> True | Some t \<Rightarrow> \<not> fst (time_now env (clWorld c)) < t)"

lemma defer_eq:
  assumes "deferForClientBackoff env p n c = (d, c')"
  shows "\<exists>w t. c' = (if d then snd (enqueueRetryAt p (max 0 (n - 1)) t (c\<lparr>clWorld := w\<rparr>)) else c\<lparr>clWorld := w\<rparr>) \<and>
    clock_star env (clWorld c) w \<and> d = (\<not> gate_open env c)"
proof (cases "clNextSend c")
  case None
  then have "c' = c\<lparr>clWorld := clWorld c\<rparr>" "\<not> d" "gate_open env c"
    using assms by (auto simp: deferForClientBackoff_def gate_open_def)
  then show ?thesis by (intro exI [of _ "clWorld c"]) simp
next
  case (Some t)
  obtain now w where 1: "time_now env (clWorld c) = (now, w)" by fastforce
  have m: "max 0 (n - 1) = (if n - 1 < 0 then 0 else n - 1)" by simp
  have "clock_star env (clWorld c) w" using 1 by (rule clock_star_simps)
  then show ?thesis
    using assms Some 1
    by (intro exI [of _ w] exI [of _ t])
      (auto simp: deferForClientBackoff_def read_clock_def Let_def m gate_open_def split: prod.split_asm if_split_asm)
qed

text \<open>
  The six ways a \<open>sendPayload\<close> of a payload with a batch ID ends, without the clock readings:
  nothing sent, deferred, stopped, failed for good, failed and queued, or delivered.
\<close>

datatype send_end = NotSent | Deferred int | Stopped | Failed | Retried int | Delivered

definition send_result :: "payload \<Rightarrow> int \<Rightarrow> 'w client \<Rightarrow> send_end \<Rightarrow> 'w client \<Rightarrow> bool" where
  "send_result p n c r c' \<longleftrightarrow>
     (\<exists>w b t.
        c' = (case r of
          NotSent \<Rightarrow> c
        | Deferred t' \<Rightarrow> snd (enqueueRetryAt p (max 0 (n - 1)) t' (c\<lparr>clWorld := w\<rparr>))
        | Stopped \<Rightarrow> c\<lparr>clStopSending := True, clWorld := w\<rparr>
        | Failed \<Rightarrow> c\<lparr>clWorld := w\<rparr>
        | Retried t' \<Rightarrow> snd (enqueueRetryAt p n t' (c\<lparr>clBackoffAttempt := b, clNextSend := t, clWorld := w\<rparr>))
        | Delivered \<Rightarrow> c\<lparr>clBackoffAttempt := 0, clNextSend := None, clWorld := w\<rparr>))"

definition is_send :: "send_end \<Rightarrow> bool" where
  "is_send r = (case r of NotSent \<Rightarrow> False | Deferred _ \<Rightarrow> False | _ \<Rightarrow> True)"

text \<open>How the world got from \<open>w\<close> to \<open>w'\<close>: clock readings, around at most one \<open>Send\<close>, of \<open>p\<close>.\<close>

definition world_result :: "'w client_env \<Rightarrow> payload \<Rightarrow> send_end \<Rightarrow> 'w \<Rightarrow> 'w \<Rightarrow> bool" where
  "world_result env p r w w' \<longleftrightarrow>
     (if is_send r
      then \<exists>w0. clock_star env w w0 \<and> clock_star env (snd (transport_send env p w0)) w'
      else clock_star env w w')"

lemma sendPayload_result:
  assumes "batchID p \<noteq> []"
  shows "\<exists>r. send_result p n c r (sendPayload env p n c) \<and>
    world_result env p r (clWorld c) (clWorld (sendPayload env p n c)) \<and>
    (is_send r \<longrightarrow> gate_open env c \<and> \<not> clStopSending c \<and> \<not> payload_empty p)"
proof (cases "payload_empty p \<or> clStopSending c")
  case True
  then have "sendPayload env p n c = c" by (auto simp: sendPayload_def)
  then show ?thesis by (intro exI [of _ NotSent]) (simp add: send_result_def world_result_def is_send_def)
next
  case False
  obtain d c2 where d: "deferForClientBackoff env p n c = (d, c2)" by fastforce
  from defer_eq [OF d] obtain w t where
    c2: "c2 = (if d then snd (enqueueRetryAt p (max 0 (n - 1)) t (c\<lparr>clWorld := w\<rparr>)) else c\<lparr>clWorld := w\<rparr>)"
    and w: "clock_star env (clWorld c) w" and gate: "d = (\<not> gate_open env c)"
    by blast
  obtain err w' where e: "transport_send env p (clWorld c2) = (err, w')" by fastforce
  let ?c3 = "c2\<lparr>clWorld := w'\<rparr>"
  have run: "sendPayload env p n c =
      (if d then c2
       else case err of
         None \<Rightarrow> resetTransientBackoff ?c3
       | Some x \<Rightarrow>
           if IsStopIngestError x then ?c3\<lparr>clStopSending := True\<rparr>
           else if shouldRetryTransport (Some x) then snd (enqueueRetry env p n (noteTransientFailure env ?c3))
           else ?c3)"
    using False assms d e by (simp add: sendPayload_def Let_def case_prod_beta split: option.split)
  show ?thesis
  proof (cases d)
    case True
    then have "send_result p n c (Deferred t) (sendPayload env p n c)"
      unfolding run send_result_def c2 by auto
    moreover have "clWorld (sendPayload env p n c) = w" using True unfolding run c2 by (simp add: enqueueRetryAt_eq)
    ultimately show ?thesis using w by (intro exI [of _ "Deferred t"]) (simp add: world_result_def is_send_def)
  next
    case nd: False
    have c3: "?c3 = c\<lparr>clWorld := w'\<rparr>" using nd c2 by simp
    have e': "snd (transport_send env p w) = w'" using e nd c2 by simp
    have sent: "world_result env p r (clWorld c) w''" if "is_send r" "clock_star env w' w''" for r w''
      using that w unfolding world_result_def e' [symmetric] by auto
    have open': "gate_open env c \<and> \<not> clStopSending c \<and> \<not> payload_empty p" using nd gate False by simp
    show ?thesis
    proof (cases err)
      case None
      then have "sendPayload env p n c = c\<lparr>clBackoffAttempt := 0, clNextSend := None, clWorld := w'\<rparr>"
        using nd unfolding run c3 by (simp add: resetTransientBackoff_def)
      then show ?thesis
        using sent [of Delivered w'] open'
        by (intro exI [of _ Delivered]) (auto simp: send_result_def is_send_def)
    next
      case (Some x)
      consider "IsStopIngestError x" | "\<not> IsStopIngestError x" "shouldRetryTransport (Some x)"
        | "\<not> IsStopIngestError x" "\<not> shouldRetryTransport (Some x)" by blast
      then show ?thesis
      proof cases
        case 1
        then have "sendPayload env p n c = c\<lparr>clStopSending := True, clWorld := w'\<rparr>"
          using nd Some unfolding run c3 by simp
        then show ?thesis
          using sent [of Stopped w'] open'
          by (intro exI [of _ Stopped]) (auto simp: send_result_def is_send_def)
      next
        case 2
        obtain w1 t1 where nt: "noteTransientFailure env (c\<lparr>clWorld := w'\<rparr>) =
            c\<lparr>clWorld := w', clBackoffAttempt := clBackoffAttempt c + 1, clNextSend := Some t1, clWorld := w1\<rparr>"
            "clock_star env w' w1"
          using noteTransientFailure_eq [of env "c\<lparr>clWorld := w'\<rparr>"] by auto
        obtain w2 t2 where rt: "snd (enqueueRetry env p n (noteTransientFailure env (c\<lparr>clWorld := w'\<rparr>))) =
            snd (enqueueRetryAt p n t2 ((noteTransientFailure env (c\<lparr>clWorld := w'\<rparr>))\<lparr>clWorld := w2\<rparr>))"
            "clock_star env w1 w2"
          using enqueueRetry_eq [of env p n "noteTransientFailure env (c\<lparr>clWorld := w'\<rparr>)"] nt(1) by auto
        have eq: "sendPayload env p n c = snd (enqueueRetryAt p n t2
            (c\<lparr>clBackoffAttempt := clBackoffAttempt c + 1, clNextSend := Some t1, clWorld := w2\<rparr>))"
          using 2 nd Some unfolding run c3 by (simp add: rt(1)) (simp add: nt(1))
        then have "send_result p n c (Retried t2) (sendPayload env p n c)" unfolding send_result_def by auto
        moreover have "clWorld (sendPayload env p n c) = w2" unfolding eq by (simp add: enqueueRetryAt_eq)
        ultimately show ?thesis
          using sent [of "Retried t2" w2] clock_star_trans [OF nt(2) rt(2)] open'
          by (intro exI [of _ "Retried t2"]) (simp add: is_send_def)
      next
        case 3
        then have "sendPayload env p n c = c\<lparr>clWorld := w'\<rparr>" using nd Some unfolding run c3 by simp
        then show ?thesis
          using sent [of Failed w'] open'
          by (intro exI [of _ Failed]) (auto simp: send_result_def is_send_def)
      qed
    qed
  qed
qed

lemma send_result_frame: "send_result p n c r c' \<Longrightarrow> send_frame c c'"
  by (cases r) (auto simp: send_result_def send_frame_def enqueueRetryAt_eq split: if_split_asm)

lemma send_result_seq: "send_result p n c r c' \<Longrightarrow> clBatchSeq c' = clBatchSeq c"
  by (cases r) (auto simp: send_result_def enqueueRetryAt_eq split: if_split_asm)

lemma send_result_retry:
  "send_result p n c r c' \<Longrightarrow>
   clRetry c' = clRetry c \<or>
   (\<exists>a t. clRetry c' = clRetry c @ [\<lparr>rbPayload = p, rbAttempts = a, rbNextAttempt = t\<rparr>] \<and>
      a < defaultRetryMaxAttempts \<and> length (clRetry c) < defaultRetryQueueSize \<and>
      (r = Deferred t \<and> a = max 0 (n - 1) \<or> r = Retried t \<and> a = n))"
  by (cases r) (auto simp: send_result_def enqueueRetryAt_eq split: if_split_asm)

lemma nextBatchID_not_Nil: "fst (nextBatchID c) \<noteq> []"
  by (simp add: nextBatchID_def Let_def)

lemma build_payload_result:
  "buildPayload env es c = (None, c) \<or>
   (\<exists>p. buildPayload env es c = (Some p, snd (nextBatchID c)) \<and> batchID p = fst (nextBatchID c))"
proof -
  obtain b where b: "add_events (series_hash env) es newBatchBuilder = Some b"
      "event_effect (series_hash env) es newBatchBuilder b"
    using add_events_effect [OF wf_newBatchBuilder] by blast
  then have "batchID (bPayload b) = []" by (simp add: event_effect_def newBatchBuilder_def)
  then show ?thesis
    using b(1) by (simp add: buildPayload_def build_def case_prod_beta)
qed

text \<open>One induction for every invariant of the retry loop.\<close>

definition retry_send :: "'w client_env \<Rightarrow> nat \<Rightarrow> 'w client \<Rightarrow> 'w client" where
  "retry_send env i c =
     sendPayload env (rbPayload (clRetry c ! i)) (rbAttempts (clRetry c ! i) + 1)
       (c\<lparr>clRetry := take i (clRetry c) @ drop (i + 1) (clRetry c)\<rparr>)"

lemma retry_loop_step:
  "retry_loop env ig mxs i pr now c =
     (if i < length (clRetry c) \<and> pr < mxs
      then if \<not> ig \<and> rbNextAttempt (clRetry c ! i) > now then retry_loop env ig mxs (i + 1) pr now c
        else (case read_clock env (retry_send env i c) of
                (now', c') \<Rightarrow> retry_loop env ig mxs i (pr + 1) now' c')
      else c)"
  by (subst retry_loop.simps) (simp add: retry_send_def Let_def)

lemma retry_loop_inv:
  "(\<And>c i. P c \<Longrightarrow> i < length (clRetry c) \<Longrightarrow> P (retry_send env i c)) \<Longrightarrow>
   (\<And>c now c'. P c \<Longrightarrow> read_clock env c = (now, c') \<Longrightarrow> P c') \<Longrightarrow>
   P c \<Longrightarrow> P (retry_loop env ig mxs i pr now c)"
proof (induction env ig mxs i pr now c rule: retry_loop.induct)
  case (1 env ig mxs i pr now c)
  obtain now' c' where c': "read_clock env (retry_send env i c) = (now', c')" by fastforce
  show ?case
  proof (cases "i < length (clRetry c) \<and> pr < mxs")
    case True
    show ?thesis
    proof (cases "\<not> ig \<and> rbNextAttempt (clRetry c ! i) > now")
      case skip: True
      have "P (retry_loop env ig mxs (i + 1) pr now c)"
        by (rule "1.IH"(1) [OF True refl skip]) (use "1.prems" in blast)+
      then show ?thesis by (subst retry_loop_step) (simp add: True skip)
    next
      case False
      have "P c'" using "1.prems" True c' by blast
      have "P (retry_loop env ig mxs i (pr + 1) now' c')"
        by (rule "1.IH"(2) [OF True refl False refl refl _ refl])
          (use c' \<open>P c'\<close> "1.prems"(1,2) in \<open>simp_all add: retry_send_def\<close>)
      then show ?thesis by (subst retry_loop_step) (simp add: True False c' del: not_less)
    qed
  next
    case False
    then show ?thesis using "1.prems"(3) by (subst retry_loop_step) auto
  qed
qed

lemma flushRetryQueue_inv:
  assumes step: "\<And>c i. P c \<Longrightarrow> i < length (clRetry c) \<Longrightarrow> P (retry_send env i c)"
    and clk: "\<And>c now c'. P c \<Longrightarrow> read_clock env c = (now, c') \<Longrightarrow> P c'"
    and "P c"
  shows "P (flushRetryQueue env ig c)"
proof -
  obtain now c1 where c1: "read_clock env c = (now, c1)" by fastforce
  then have "P c1" using clk \<open>P c\<close> by blast
  then show ?thesis
    using \<open>P c\<close> c1 retry_loop_inv [of P env, OF step clk]
    by (auto simp: flushRetryQueue_def Let_def)
qed

definition removed :: "nat \<Rightarrow> 'w client \<Rightarrow> 'w client" where
  "removed i c = c\<lparr>clRetry := take i (clRetry c) @ drop (i + 1) (clRetry c)\<rparr>"

text \<open>
  Every state of a worker: the queues within their bounds, the attempts of a queued batch below the
  maximum, and a batch ID on it.
\<close>

definition client_bounds :: "'w client \<Rightarrow> bool" where
  "client_bounds c \<longleftrightarrow>
     length (clQueue c) \<le> defaultQueueSize \<and> length (clBatch c) < defaultMaxBatchSize \<and>
     length (clTotals c) \<le> defaultMaxTotalSeries \<and> retry_ok (clRetry c) \<and>
     (\<forall>r \<in> set (clRetry c). batchID (rbPayload r) \<noteq> [])"

definition retry_bounds :: "retryBatch list \<Rightarrow> bool" where
  "retry_bounds q \<longleftrightarrow> retry_ok q \<and> (\<forall>r \<in> set q. batchID (rbPayload r) \<noteq> [])"

lemma sendPayload_bounds:
  assumes "retry_bounds (clRetry c)" and "batchID p \<noteq> []" and "0 \<le> n"
  shows "retry_bounds (clRetry (sendPayload env p n c)) \<and> send_frame c (sendPayload env p n c)"
proof -
  obtain r where r: "send_result p n c r (sendPayload env p n c)" using sendPayload_result [OF assms(2)] by blast
  from send_result_retry [OF r] assms show ?thesis
    using send_result_frame [OF r] by (auto simp: retry_bounds_def retry_ok_def)
qed

lemma retry_send_bounds:
  assumes "retry_bounds (clRetry c)" and "i < length (clRetry c)"
  shows "retry_bounds (clRetry (retry_send env i c)) \<and> send_frame c (retry_send env i c)"
proof -
  have "clRetry c ! i \<in> set (clRetry c)" using assms(2) by simp
  then have i: "batchID (rbPayload (clRetry c ! i)) \<noteq> []" "0 \<le> rbAttempts (clRetry c ! i) + 1"
    using assms(1) by (auto simp: retry_bounds_def retry_ok_def)
  have "retry_bounds (clRetry (removed i c))"
    using assms(1) retry_okI_remove by (auto simp: retry_bounds_def removed_def dest: in_set_takeD in_set_dropD)
  from sendPayload_bounds [OF this i] show ?thesis
    by (auto simp: retry_send_def removed_def send_frame_def)
qed

lemma flush_events_bounds:
  assumes "retry_bounds (clRetry c)"
  shows "retry_bounds (clRetry (flush_events env es c)) \<and> send_frame c (flush_events env es c)"
proof -
  have seq: "retry_bounds (clRetry (snd (nextBatchID c)))" "send_frame c (snd (nextBatchID c))"
    using assms by (simp_all add: nextBatchID_def Let_def send_frame_def)
  show ?thesis
    using build_payload_result [of env es c] assms
      sendPayload_bounds [OF seq(1), of _ 1 env] nextBatchID_not_Nil [of c] send_frame_trans [OF seq(2)]
    by (auto simp: flush_events_def)
qed

lemma flushRetryQueue_bounds:
  assumes "retry_bounds (clRetry c)"
  shows "retry_bounds (clRetry (flushRetryQueue env ig c)) \<and> send_frame c (flushRetryQueue env ig c)"
proof (rule flushRetryQueue_inv [where P = "\<lambda>c'. retry_bounds (clRetry c') \<and> send_frame c c'"])
  fix c' i assume "retry_bounds (clRetry c') \<and> send_frame c c'" "i < length (clRetry c')"
  then show "retry_bounds (clRetry (retry_send env i c')) \<and> send_frame c (retry_send env i c')"
    using retry_send_bounds send_frame_trans by blast
next
  fix c' now c'' assume "retry_bounds (clRetry c') \<and> send_frame c c'" "read_clock env c' = (now, c'')"
  then show "retry_bounds (clRetry c'') \<and> send_frame c c''"
    using clock_frame [of env c' now c''] send_frame_trans [of c c' c''] clock_eq [of env c' now c''] by auto
qed (use assms in simp)

text \<open>What a call changes: the pending events, the limiter, the clock.\<close>

definition call_frame :: "'w client_env \<Rightarrow> 'w client \<Rightarrow> 'w client \<Rightarrow> bool" where
  "call_frame env c c' \<longleftrightarrow>
     (\<exists>ps l w. c' = c\<lparr>clPending := ps, clLimiter := l, clWorld := w\<rparr> \<and> clock_star env (clWorld c) w)"

lemma call_frame_refl: "call_frame env c c"
  unfolding call_frame_def by (intro exI [of _ "clPending c"] exI [of _ "clLimiter c"] exI [of _ "clWorld c"]) simp

lemma call_frame_trans: "call_frame env a b \<Longrightarrow> call_frame env b c \<Longrightarrow> call_frame env a c"
proof -
  assume "call_frame env a b" "call_frame env b c"
  then obtain ps l w ps' l' w' where b: "b = a\<lparr>clPending := ps, clLimiter := l, clWorld := w\<rparr>" "clock_star env (clWorld a) w"
    and c: "c = b\<lparr>clPending := ps', clLimiter := l', clWorld := w'\<rparr>" "clock_star env (clWorld b) w'"
    unfolding call_frame_def by blast
  then have "clock_star env (clWorld a) w'" using clock_star_trans by fastforce
  then show ?thesis unfolding call_frame_def b(1) c(1)
    by (intro exI [of _ ps'] exI [of _ l'] exI [of _ w']) simp
qed

lemma enqueue_frame: "call_frame env c (enqueue env pooled t metric v labels c)"
proof (cases "admits metric labels c")
  case True
  obtain now w where 1: "time_now env (clWorld c) = (now, w)" by fastforce
  show ?thesis
    unfolding call_frame_def
    by (intro exI [of _ "clPending c @ [borrowEvent (releaseEvent pooled) t metric v labels now]"]
        exI [of _ "clLimiter c"] exI [of _ w]) (simp add: enqueue_def True read_clock_def 1)
qed (simp add: enqueue_def call_frame_refl)

lemma enqueueUnique_frame: "call_frame env c (enqueueUnique env pooled metric uid labels c)"
proof (cases "uid \<noteq> [] \<and> admits metric labels c")
  case True
  obtain now w where 1: "time_now env (clWorld c) = (now, w)" by fastforce
  show ?thesis
    unfolding call_frame_def
    by (intro exI [of _ "clPending c @ [borrowUniqueEvent (releaseEvent pooled) metric uid labels now]"]
        exI [of _ "clLimiter c"] exI [of _ w]) (simp add: enqueueUnique_def True read_clock_def 1)
qed (auto simp: enqueueUnique_def call_frame_refl)

lemma allowValue_frame: "call_frame env c (snd (allowValue env metric c))"
proof (cases "metric = [] \<or> clWorkload c = [] \<or> clStopSending c")
  case False
  obtain now w where 1: "time_now env (clWorld c) = (now, w)" by fastforce
  obtain ok st where 2: "allow_at (clLimiter c) (unix_sec now) = (ok, st)" by fastforce
  show ?thesis
    using False unfolding call_frame_def
    by (intro exI [of _ "clPending c"] exI [of _ st] exI [of _ w]) (simp add: allowValue_def read_clock_def 1 2)
qed (auto simp: allowValue_def call_frame_refl)

lemma client_call_frame: "call_frame env c (client_call env pooled k c)"
proof (cases k)
  case (CountUnique uid metric labels)
  then show ?thesis by (simp add: client_call_def call_frame_refl enqueueUnique_frame case_prod_beta)
next
  case (Value metric v labels)
  then show ?thesis
    by (auto simp: client_call_def case_prod_beta allowValue_frame
        intro: call_frame_trans [OF allowValue_frame enqueue_frame])
next
  case (ValueSparse metric v labels)
  then show ?thesis
    by (auto simp: client_call_def case_prod_beta allowValue_frame
        intro: call_frame_trans [OF allowValue_frame enqueue_frame])
qed (simp_all add: client_call_def enqueue_frame)

lemma call_frame_simps:
  assumes "call_frame env c c'"
  shows "clRetry c' = clRetry c" "clQueue c' = clQueue c" "clBatch c' = clBatch c" "clTotals c' = clTotals c"
    "clStopSending c' = clStopSending c" "clBatchSeq c' = clBatchSeq c" "clBatchSession c' = clBatchSession c"
    "clPhase c' = clPhase c" "clNextSend c' = clNextSend c" "clWorkload c' = clWorkload c"
  using assms by (auto simp: call_frame_def)

lemma client_bounds_alt:
  "client_bounds c \<longleftrightarrow> length (clQueue c) \<le> defaultQueueSize \<and> length (clBatch c) < defaultMaxBatchSize \<and>
     length (clTotals c) \<le> defaultMaxTotalSeries \<and> retry_bounds (clRetry c)"
  by (simp add: client_bounds_def retry_bounds_def)

lemma flush_batch_bounds:
  assumes "retry_bounds (clRetry c)"
  shows "retry_bounds (clRetry (flush_batch env c))" and "clBatch (flush_batch env c) = []"
    and "clQueue (flush_batch env c) = clQueue c" and "clTotals (flush_batch env c) = clTotals c"
    and "clPhase (flush_batch env c) = clPhase c"
  using flush_events_bounds [OF assms, of env "clBatch c"] assms
  by (simp_all add: flush_batch_def send_frame_def)

lemma applyTotal_length:
  "length totals \<le> limit \<Longrightarrow> length (snd (applyTotal ev totals limit)) \<le> limit"
proof (cases "map_of totals (seriesKey (ename ev) (elabels ev))")
  case None
  assume "length totals \<le> limit"
  then show ?thesis
    using None length_update_le [of "seriesKey (ename ev) (elabels ev)" "evalue ev" totals]
    by (auto simp: applyTotal_def Let_def)
next
  case (Some prev)
  assume "length totals \<le> limit"
  then show ?thesis
    using map_of_Some_fst [OF Some] by (auto simp: applyTotal_def Let_def Some)
qed

lemma receive_bounds:
  assumes "client_bounds c"
  shows "client_bounds (receive env ev c)"
proof -
  have app: "client_bounds
      (let c2 = c1\<lparr>clBatch := clBatch c1 @ [e]\<rparr> in
       if length (clBatch c2) \<ge> defaultMaxBatchSize then flush_batch env c2 else c2)"
    if "client_bounds c1" for e c1
    using that flush_batch_bounds [of "c1\<lparr>clBatch := clBatch c1 @ [e]\<rparr>" env]
    by (auto simp: client_bounds_alt Let_def defaultMaxBatchSize_def)
  have tot: "client_bounds (c\<lparr>clTotals := snd (applyTotal ev (clTotals c) defaultMaxTotalSeries)\<rparr>)"
    using assms applyTotal_length by (simp add: client_bounds_alt)
  show ?thesis
    using app [OF assms, of ev] app [OF tot] tot
    by (auto simp: receive_def Let_def case_prod_beta split: option.split)
qed

lemma client_step_bounds [step_inv]:
  assumes inv: "client_bounds c"
  shows "client_bounds (client_step env c a)"
proof (cases a)
  case (DoCall k pooled)
  then show ?thesis
    using inv call_frame_simps [OF client_call_frame [of env c pooled k]]
    by (simp add: client_step_def client_bounds_alt)
next
  case (DoPush i)
  then show ?thesis using inv by (auto simp: client_step_def push_event_def client_bounds_alt)
next
  case Cancel
  then show ?thesis using inv by (simp add: client_step_def client_bounds_alt)
next
  case Tick
  then show ?thesis
    using inv flush_batch_bounds [of c env] flushRetryQueue_bounds [of "flush_batch env c" env False]
    by (auto simp: client_step_def client_bounds_alt send_frame_def defaultMaxBatchSize_def)
next
  case Recv
  have "client_bounds (c\<lparr>clQueue := rest\<rparr>)" if "clQueue c = ev # rest" for ev rest
    using inv that by (simp add: client_bounds_alt)
  then show ?thesis using inv receive_bounds Recv by (auto simp: client_step_def split: list.split)
next
  case BeginDrain
  then show ?thesis using inv by (simp add: client_step_def client_bounds_alt)
next
  case EndDrain
  then show ?thesis
    using inv flush_batch_bounds [of c env] flushRetryQueue_bounds [of "flush_batch env c" env True]
    by (auto simp: client_step_def client_bounds_alt send_frame_def defaultMaxBatchSize_def)
qed

interpretation client_run: inv_steps "client_step env" client_bounds "\<lambda>a. True" for env
  by unfold_locales (rule client_step_bounds)

lemma client_bounds_new [simp]: "client_bounds (new_client wl now w)"
  by (simp add: client_bounds_def new_client_def retry_ok_def defaultMaxBatchSize_def)

subsection \<open>How often a batch is sent\<close>

text \<open>The environment with a log of the payloads given to the transport.\<close>

definition logged :: "'w client_env \<Rightarrow> (payload list \<times> 'w) client_env" where
  "logged env =
     \<lparr>transport_send = \<lambda>p (log, w). let (err, w') = transport_send env p w in (err, (log @ [p], w')),
      time_now = \<lambda>(log, w). let (now, w') = time_now env w in (now, (log, w')),
      series_hash = series_hash env\<rparr>"

definition sent :: "(payload list \<times> 'w) client \<Rightarrow> payload list" where
  "sent c = fst (clWorld c)"

lemma clock_star_logged: "clock_star (logged env) x y \<Longrightarrow> fst y = fst x"
  unfolding clock_star_def
  by (induction rule: rtranclp_induct) (auto simp: logged_def case_prod_beta)

lemma send_logged: "fst (snd (transport_send (logged env) p x)) = fst x @ [p]"
  by (cases x) (simp add: logged_def case_prod_beta)

lemma world_logged:
  "world_result (logged env) p r x y \<Longrightarrow> fst y = fst x @ (if is_send r then [p] else [])"
  unfolding world_result_def
  by (cases "is_send r") (force dest!: clock_star_logged simp: send_logged)+

definition issued :: "string \<Rightarrow> nat \<Rightarrow> string \<Rightarrow> bool" where
  "issued sess n b \<longleftrightarrow> (\<exists>k. 1 \<le> k \<and> k \<le> n \<and> b = sess @ ''-'' @ fmt_nat 36 k)"

definition attempts_of :: "payload list \<Rightarrow> string \<Rightarrow> nat" where
  "attempts_of l b = count_list (map batchID l) b"

lemma attempts_of_snoc [simp]:
  "attempts_of (l @ [p]) b = attempts_of l b + (if batchID p = b then 1 else 0)"
  by (simp add: attempts_of_def)

abbreviation rb_id :: "retryBatch \<Rightarrow> string" where
  "rb_id r \<equiv> batchID (rbPayload r)"

definition log_inv :: "string \<Rightarrow> nat \<Rightarrow> payload list \<Rightarrow> retryBatch list \<Rightarrow> bool" where
  "log_inv sess n l q \<longleftrightarrow>
     (\<forall>p \<in> set l. issued sess n (batchID p)) \<and> (\<forall>r \<in> set q. issued sess n (rb_id r)) \<and>
     distinct (map rb_id q) \<and>
     (\<forall>r \<in> set q. int (attempts_of l (rb_id r)) = rbAttempts r) \<and>
     (\<forall>b. int (attempts_of l b) \<le> defaultRetryMaxAttempts) \<and>
     (\<forall>p \<in> set l. \<forall>p' \<in> set l \<union> rbPayload ` set q. batchID p = batchID p' \<longrightarrow> p = p')"

definition may_send :: "string \<Rightarrow> nat \<Rightarrow> payload list \<Rightarrow> retryBatch list \<Rightarrow> payload \<Rightarrow> int \<Rightarrow> bool" where
  "may_send sess n l q p a \<longleftrightarrow>
     issued sess n (batchID p) \<and> batchID p \<notin> rb_id ` set q \<and>
     int (attempts_of l (batchID p)) = a - 1 \<and> a \<le> defaultRetryMaxAttempts \<and>
     (\<forall>p' \<in> set l. batchID p' = batchID p \<longrightarrow> p' = p)"

lemma log_inv_send:
  assumes "log_inv sess n l q" and "may_send sess n l q p a"
  shows "log_inv sess n (l @ [p]) q"
  using assms by (auto simp: log_inv_def may_send_def image_iff)

lemma log_inv_queue:
  assumes "log_inv sess n l q" and "issued sess n (batchID p)" and "batchID p \<notin> rb_id ` set q"
    and "int (attempts_of l (batchID p)) = a" and "\<forall>p' \<in> set l. batchID p' = batchID p \<longrightarrow> p' = p"
  shows "log_inv sess n l (q @ [\<lparr>rbPayload = p, rbAttempts = a, rbNextAttempt = t\<rparr>])"
  using assms by (auto simp: log_inv_def image_iff)

lemma distinct_remove:
  assumes "distinct (map f xs)" and "i < length xs"
  shows "distinct (map f (take i xs @ drop (Suc i) xs))"
    and "f (xs ! i) \<notin> f ` set (take i xs @ drop (Suc i) xs)"
proof -
  have "distinct (map f (take i xs @ xs ! i # drop (Suc i) xs))"
    using assms id_take_nth_drop [OF assms(2)] by simp
  then show "distinct (map f (take i xs @ drop (Suc i) xs))"
    and "f (xs ! i) \<notin> f ` set (take i xs @ drop (Suc i) xs)" by auto
qed

lemma log_inv_subset:
  assumes "log_inv sess n l q"
  shows "log_inv sess n l (take i q @ drop (Suc i) q)"
proof -
  have "set (take i q @ drop (Suc i) q) \<subseteq> set q" by (auto dest: in_set_takeD in_set_dropD)
  moreover have "distinct (map rb_id (take i q @ drop (Suc i) q))"
    using assms distinct_remove(1) [of rb_id q i] by (cases "i < length q") (simp_all add: log_inv_def)
  ultimately show ?thesis using assms unfolding log_inv_def by blast
qed

lemma issued_mono: "issued sess n b \<Longrightarrow> n \<le> n' \<Longrightarrow> issued sess n' b"
  unfolding issued_def using le_trans by blast

lemma log_inv_mono: "log_inv sess n l q \<Longrightarrow> n \<le> n' \<Longrightarrow> log_inv sess n' l q"
  unfolding log_inv_def using issued_mono by blast

definition log_ok :: "(payload list \<times> 'w) client \<Rightarrow> bool" where
  "log_ok c \<longleftrightarrow> log_inv (clBatchSession c) (unat (clBatchSeq c)) (sent c) (clRetry c) \<and> retry_bounds (clRetry c)"

definition may_send_client :: "(payload list \<times> 'w) client \<Rightarrow> payload \<Rightarrow> int \<Rightarrow> bool" where
  "may_send_client c p a \<longleftrightarrow> may_send (clBatchSession c) (unat (clBatchSeq c)) (sent c) (clRetry c) p a"

lemma issued_not_Nil: "issued sess n b \<Longrightarrow> b \<noteq> []"
  by (auto simp: issued_def)

lemma sendPayload_log:
  assumes ok: "log_ok c" and may: "may_send_client c p a" and a: "1 \<le> a"
  shows "log_ok (sendPayload (logged env) p a c) \<and>
    clBatchSeq (sendPayload (logged env) p a c) = clBatchSeq c \<and>
    send_frame c (sendPayload (logged env) p a c)"
proof -
  let ?c' = "sendPayload (logged env) p a c"
  have id: "batchID p \<noteq> []" using may by (auto simp: may_send_client_def may_send_def dest: issued_not_Nil)
  obtain r where r: "send_result p a c r ?c'" and w: "world_result (logged env) p r (clWorld c) (clWorld ?c')"
    using sendPayload_result [OF id] by blast
  have log: "sent ?c' = sent c @ (if is_send r then [p] else [])"
    using world_logged [OF w] by (simp add: sent_def)
  have fr: "send_frame c ?c'" and seq: "clBatchSeq ?c' = clBatchSeq c"
    by (rule send_result_frame [OF r], rule send_result_seq [OF r])
  have rb: "retry_bounds (clRetry ?c')"
    using sendPayload_bounds [of c p a "logged env"] ok id a by (simp add: log_ok_def)
  let ?inv = "log_inv (clBatchSession c) (unat (clBatchSeq c))"
  have i0: "?inv (sent c) (clRetry c)" and m: "may_send (clBatchSession c) (unat (clBatchSeq c)) (sent c) (clRetry c) p a"
    using ok may by (simp_all add: log_ok_def may_send_client_def)
  have "?inv (sent c @ (if is_send r then [p] else [])) (clRetry ?c')"
    using send_result_retry [OF r]
  proof (elim disjE exE conjE)
    assume "clRetry ?c' = clRetry c"
    then show ?thesis using i0 log_inv_send [OF i0 m] by simp
  next
    fix k t assume q: "clRetry ?c' = clRetry c @ [\<lparr>rbPayload = p, rbAttempts = k, rbNextAttempt = t\<rparr>]"
      and "r = Deferred t" "k = max 0 (a - 1)"
    then show ?thesis
      using m a by (simp add: is_send_def) (intro log_inv_queue [OF i0]; simp add: may_send_def)
  next
    fix k t assume q: "clRetry ?c' = clRetry c @ [\<lparr>rbPayload = p, rbAttempts = k, rbNextAttempt = t\<rparr>]"
      and "r = Retried t" "k = a"
    then show ?thesis
      using m by (simp add: is_send_def) (intro log_inv_queue [OF log_inv_send [OF i0 m]]; auto simp: may_send_def)
  qed
  then show ?thesis using fr seq rb by (simp add: log_ok_def log send_frame_def)
qed

lemma retry_send_log:
  assumes ok: "log_ok c" and i: "i < length (clRetry c)"
  shows "log_ok (retry_send (logged env) i c) \<and>
    clBatchSeq (retry_send (logged env) i c) = clBatchSeq c \<and> send_frame c (retry_send (logged env) i c)"
proof -
  let ?r = "clRetry c ! i" and ?q = "take i (clRetry c) @ drop (Suc i) (clRetry c)"
  have r: "?r \<in> set (clRetry c)" using i by simp
  have li: "log_inv (clBatchSession c) (unat (clBatchSeq c)) (sent c) (clRetry c)" and rb: "retry_bounds (clRetry c)"
    using ok by (simp_all add: log_ok_def)
  have "rb_id ?r \<notin> rb_id ` set ?q"
    using li distinct_remove(2) [of rb_id "clRetry c" i] i by (simp add: log_inv_def)
  then have "may_send_client (removed i c) (rbPayload ?r) (rbAttempts ?r + 1)"
    using li r rb by (auto simp: may_send_client_def may_send_def removed_def sent_def log_inv_def retry_bounds_def retry_ok_def)
  moreover have "log_ok (removed i c)"
    using log_inv_subset [OF li] retry_okI_remove rb
    by (auto simp: log_ok_def removed_def sent_def retry_bounds_def dest: in_set_takeD in_set_dropD)
  moreover have "1 \<le> rbAttempts ?r + 1" using rb r by (auto simp: retry_bounds_def retry_ok_def)
  ultimately show ?thesis
    using sendPayload_log [of "removed i c"] by (simp add: retry_send_def removed_def send_frame_def)
qed

lemma batch_seq_Suc:
  assumes "unat n < 2 ^ 64 - 1"
  shows "unat (n + 1 :: u64) = Suc (unat n)"
proof -
  have "1 + n \<noteq> 0"
  proof
    assume "1 + n = 0"
    then have "n = - 1" by (simp add: eq_neg_iff_add_eq_0 add.commute)
    then show False using assms by (simp add: unsigned_minus_1_eq_mask mask_eq_exp_minus_1)
  qed
  then show ?thesis using unatSuc [of n] by (simp add: add.commute)
qed

lemma flush_events_log:
  assumes ok: "log_ok c" and seq: "unat (clBatchSeq c) < 2 ^ 64 - 1"
  shows "log_ok (flush_events (logged env) es c) \<and>
    unat (clBatchSeq (flush_events (logged env) es c)) \<le> Suc (unat (clBatchSeq c)) \<and>
    send_frame c (flush_events (logged env) es c)"
proof -
  let ?c1 = "snd (nextBatchID c)"
  have suc: "unat (clBatchSeq c + 1) = Suc (unat (clBatchSeq c))" by (rule batch_seq_Suc [OF seq])
  have c1: "?c1 = c\<lparr>clBatchSeq := clBatchSeq c + 1\<rparr>" and
    fid: "fst (nextBatchID c) = clBatchSession c @ ''-'' @ fmt_nat 36 (Suc (unat (clBatchSeq c)))"
    by (simp_all add: nextBatchID_def Let_def suc)
  have li: "log_inv (clBatchSession c) (unat (clBatchSeq c)) (sent c) (clRetry c)" and rb: "retry_bounds (clRetry c)"
    using ok by (simp_all add: log_ok_def)
  have ok1: "log_ok ?c1"
    using log_inv_mono [OF li, of "Suc (unat (clBatchSeq c))"] rb by (simp add: log_ok_def c1 suc sent_def)
  have fresh: "\<not> issued (clBatchSession c) (unat (clBatchSeq c)) (fst (nextBatchID c))"
    by (auto simp: issued_def fid dest: fmt_nat_inj [of 36, simplified])
  have may: "may_send_client ?c1 p 1" if p: "batchID p = fst (nextBatchID c)" for p
  proof -
    have "batchID p \<notin> batchID ` set (sent c)" "batchID p \<notin> rb_id ` set (clRetry c)"
      using li fresh p by (auto simp: log_inv_def)
    moreover from this(1) have "attempts_of (sent c) (batchID p) = 0"
      by (simp add: attempts_of_def count_list_0_iff)
    moreover have "issued (clBatchSession c) (Suc (unat (clBatchSeq c))) (batchID p)"
      unfolding issued_def p fid by (intro exI [of _ "Suc (unat (clBatchSeq c))"]) simp
    ultimately show ?thesis
      by (auto simp: may_send_client_def may_send_def c1 suc sent_def defaultRetryMaxAttempts_def image_iff)
  qed
  have sends: "log_ok (sendPayload (logged env) p 1 ?c1) \<and>
      unat (clBatchSeq (sendPayload (logged env) p 1 ?c1)) = Suc (unat (clBatchSeq c)) \<and>
      send_frame c (sendPayload (logged env) p 1 ?c1)" if "batchID p = fst (nextBatchID c)" for p
    using sendPayload_log [OF ok1 may [OF that], of env] by (simp add: c1 suc send_frame_def)
  show ?thesis
    using build_payload_result [of "logged env" es c] ok sends
    by (auto simp: flush_events_def)
qed

lemma flush_batch_log:
  assumes "log_ok c" and "unat (clBatchSeq c) < 2 ^ 64 - 1"
  shows "log_ok (flush_batch (logged env) c) \<and> unat (clBatchSeq (flush_batch (logged env) c)) \<le> Suc (unat (clBatchSeq c))"
  using flush_events_log [OF assms, of env "clBatch c"] assms(1)
  by (auto simp: flush_batch_def log_ok_def sent_def)

lemma flushRetryQueue_log:
  fixes c :: "(payload list \<times> 'w) client"
  assumes "log_ok c"
  shows "log_ok (flushRetryQueue (logged env) ig c) \<and> clBatchSeq (flushRetryQueue (logged env) ig c) = clBatchSeq c"
proof (rule flushRetryQueue_inv [where P = "\<lambda>c'. log_ok c' \<and> clBatchSeq c' = clBatchSeq c"])
  fix c' :: "(payload list \<times> 'w) client" and i
  assume "log_ok c' \<and> clBatchSeq c' = clBatchSeq c" "i < length (clRetry c')"
  then show "log_ok (retry_send (logged env) i c') \<and> clBatchSeq (retry_send (logged env) i c') = clBatchSeq c"
    using retry_send_log by auto
next
  fix c' c'' :: "(payload list \<times> 'w) client" and now
  assume p: "log_ok c' \<and> clBatchSeq c' = clBatchSeq c" and r: "read_clock (logged env) c' = (now, c'')"
  have "sent c'' = sent c'" using r by (auto simp: read_clock_def logged_def sent_def split: prod.split_asm)
  then show "log_ok c'' \<and> clBatchSeq c'' = clBatchSeq c"
    using p clock_eq [OF r] by (auto simp: log_ok_def)
qed (use assms in simp)

lemma receive_log:
  assumes "log_ok c" and "unat (clBatchSeq c) < 2 ^ 64 - 1"
  shows "log_ok (receive (logged env) ev c) \<and> unat (clBatchSeq (receive (logged env) ev c)) \<le> Suc (unat (clBatchSeq c))"
proof -
  have app: "log_ok (let c2 = c1\<lparr>clBatch := clBatch c1 @ [e]\<rparr> in
       if length (clBatch c2) \<ge> defaultMaxBatchSize then flush_batch (logged env) c2 else c2) \<and>
     unat (clBatchSeq (let c2 = c1\<lparr>clBatch := clBatch c1 @ [e]\<rparr> in
       if length (clBatch c2) \<ge> defaultMaxBatchSize then flush_batch (logged env) c2 else c2)) \<le> Suc (unat (clBatchSeq c))"
    if "log_ok c1" "clBatchSeq c1 = clBatchSeq c" for e c1
  proof -
    have "log_ok (c1\<lparr>clBatch := clBatch c1 @ [e]\<rparr>)" using that(1) by (simp add: log_ok_def sent_def)
    from flush_batch_log [OF this, of env] show ?thesis
      using assms(2) that by (auto simp: Let_def log_ok_def sent_def)
  qed
  have tot: "log_ok (c\<lparr>clTotals := t\<rparr>)" for t using assms(1) by (simp add: log_ok_def sent_def)
  show ?thesis
    using app [OF assms(1) refl, of ev] app [OF tot] tot
    by (auto simp: receive_def Let_def case_prod_beta split: option.split)
qed

lemma client_step_log:
  fixes c :: "(payload list \<times> 'w) client"
  assumes ok: "log_ok c" and seq: "unat (clBatchSeq c) < 2 ^ 64 - 1"
  shows "log_ok (client_step (logged env) c a) \<and> unat (clBatchSeq (client_step (logged env) c a)) \<le> Suc (unat (clBatchSeq c))"
proof (cases a)
  case (DoCall k pooled)
  obtain ps l w where f: "client_call (logged env) pooled k c = c\<lparr>clPending := ps, clLimiter := l, clWorld := w\<rparr>"
      "clock_star (logged env) (clWorld c) w"
    using client_call_frame [of "logged env" c pooled k] unfolding call_frame_def by blast
  then show ?thesis
    using ok clock_star_logged [OF f(2)] DoCall by (simp add: client_step_def log_ok_def sent_def)
next
  case (DoPush i)
  then show ?thesis using ok by (auto simp: client_step_def push_event_def log_ok_def sent_def)
next
  case Tick
  then show ?thesis
    using ok flush_batch_log [OF ok seq, of env] flushRetryQueue_log [of "flush_batch (logged env) c" env False]
    by (auto simp: client_step_def)
next
  case Recv
  have "log_ok (c\<lparr>clQueue := rest\<rparr>)" for rest using ok by (simp add: log_ok_def sent_def)
  then show ?thesis
    using ok seq receive_log [of "c\<lparr>clQueue := rest\<rparr>" env for rest] Recv
    by (auto simp: client_step_def split: list.split)
next
  case EndDrain
  then show ?thesis
    using ok flush_batch_log [OF ok seq, of env] flushRetryQueue_log [of "flush_batch (logged env) c" env True]
    by (auto simp: client_step_def log_ok_def sent_def)
qed (use ok in \<open>simp_all add: client_step_def log_ok_def sent_def\<close>)

lemma client_run_log:
  assumes "log_ok c" and "unat (clBatchSeq c) + length es < 2 ^ 64"
  shows "log_ok (run_steps (client_step (logged env)) c es)"
  using assms
proof (induction es arbitrary: c)
  case (Cons a es)
  then show ?case using client_step_log [OF Cons.prems(1), of env a] by (auto intro!: Cons.IH)
qed simp

lemma log_ok_new: "log_ok (new_client wl now ([], w))"
  by (simp add: log_ok_def log_inv_def new_client_def sent_def retry_bounds_def retry_ok_def
      attempts_of_def defaultRetryMaxAttempts_def)

subsection \<open>After a stop\<close>

lemma stopped_flush [simp]:
  "clStopSending c \<Longrightarrow> flush_events env es c = c"
  "clStopSending c \<Longrightarrow> flushRetryQueue env ig c = c"
  by (simp_all add: flush_events_def flushRetryQueue_def)

lemma stopped_flush_batch [simp]: "clStopSending c \<Longrightarrow> flush_batch env c = c\<lparr>clBatch := []\<rparr>"
  by (simp add: flush_batch_def)

subsection \<open>The backoff gate\<close>

text \<open>While the clock stays before the gate, nothing is sent and the gate stays.\<close>

definition gated :: "(payload list \<times> 'w) client \<Rightarrow> int \<Rightarrow> payload list \<Rightarrow> bool" where
  "gated c t l \<longleftrightarrow> clNextSend c = Some t \<and> sent c = l \<and> retry_bounds (clRetry c)"

lemma sendPayload_gated:
  assumes g: "gated c t l" and early: "\<forall>x. fst (time_now (logged env) x) < t"
    and p: "batchID p \<noteq> []" "0 \<le> a"
  shows "gated (sendPayload (logged env) p a c) t l"
proof -
  let ?c' = "sendPayload (logged env) p a c"
  obtain r where r: "send_result p a c r ?c'" "world_result (logged env) p r (clWorld c) (clWorld ?c')"
      "is_send r \<longrightarrow> gate_open (logged env) c"
    using sendPayload_result [OF p(1)] by blast
  have "\<not> gate_open (logged env) c" using g early [rule_format, of "clWorld c"] by (simp add: gate_open_def gated_def)
  with r(3) have ns: "\<not> is_send r" by blast
  then have "clNextSend ?c' = clNextSend c"
    using r(1) by (cases r) (auto simp: send_result_def is_send_def enqueueRetryAt_eq split: if_split_asm)
  moreover have "sent ?c' = sent c" using world_logged [OF r(2)] ns by (simp add: sent_def)
  moreover have "retry_bounds (clRetry ?c')" using sendPayload_bounds [OF _ p, of c "logged env"] g by (simp add: gated_def)
  ultimately show ?thesis using g by (simp add: gated_def)
qed

lemma flush_batch_gated:
  assumes g: "gated c t l" and early: "\<forall>x. fst (time_now (logged env) x) < t"
  shows "gated (flush_batch (logged env) c) t l"
proof -
  have "gated (snd (nextBatchID c)) t l" using g by (simp add: gated_def nextBatchID_def Let_def sent_def)
  then have "gated (flush_events (logged env) es c) t l" for es
    using build_payload_result [of "logged env" es c] g sendPayload_gated [OF _ early, of _ l _ 1]
      nextBatchID_not_Nil [of c]
    by (auto simp: flush_events_def)
  then show ?thesis using g by (simp add: flush_batch_def gated_def sent_def)
qed

lemma flushRetryQueue_gated:
  fixes c :: "(payload list \<times> 'w) client"
  assumes g: "gated c t l" and early: "\<forall>x. fst (time_now (logged env) x) < t"
  shows "gated (flushRetryQueue (logged env) ig c) t l"
proof (rule flushRetryQueue_inv [where P = "\<lambda>c. gated c t l"])
  fix c' :: "(payload list \<times> 'w) client" and i
  assume g': "gated c' t l" and i: "i < length (clRetry c')"
  have "clRetry c' ! i \<in> set (clRetry c')" using i by simp
  then have p: "batchID (rbPayload (clRetry c' ! i)) \<noteq> []" "0 \<le> rbAttempts (clRetry c' ! i) + 1"
    using g' by (auto simp: gated_def retry_bounds_def retry_ok_def)
  have "gated (removed i c') t l"
    using g' retry_okI_remove by (auto simp: gated_def removed_def sent_def retry_bounds_def dest: in_set_takeD in_set_dropD)
  from sendPayload_gated [OF this early p]
  show "gated (retry_send (logged env) i c') t l" by (simp add: retry_send_def removed_def)
next
  fix c' c'' :: "(payload list \<times> 'w) client" and now
  assume "gated c' t l" and r: "read_clock (logged env) c' = (now, c'')"
  moreover have "sent c'' = sent c'" using r by (auto simp: read_clock_def logged_def sent_def split: prod.split_asm)
  ultimately show "gated c'' t l" using clock_eq [OF r] by (auto simp: gated_def)
qed (use g in simp)

subsection \<open>Delays\<close>

lemma delay_loop_closed:
  "0 < d \<Longrightarrow> d \<le> mx \<Longrightarrow> delay_loop mx a s d = (if s < a then min mx (d * 2 ^ nat (a - s)) else d)"
proof (induction mx a s d rule: delay_loop.induct)
  case (1 mx a s d)
  show ?case
  proof (cases "s < a \<and> d < mx")
    case True
    then have e: "nat (a - s) = Suc (nat (a - (s + 1)))" by linarith
    show ?thesis
    proof (cases "mx \<le> d * 2")
      case big: True
      have "d * 2 \<le> d * 2 ^ nat (a - s)" unfolding e using "1.prems" by simp
      with big have "mx \<le> d * 2 ^ nat (a - s)" by (rule order_trans)
      then show ?thesis using True big by (subst delay_loop.simps) simp
    next
      case False
      then have "delay_loop mx a (s + 1) (d * 2) =
          (if s + 1 < a then min mx (d * 2 * 2 ^ nat (a - (s + 1))) else d * 2)"
        using True "1.prems" by (intro "1.IH") auto
      then show ?thesis using True False by (subst delay_loop.simps) (auto simp: e Let_def algebra_simps min_def)
    qed
  next
    case False
    then have "d = mx \<or> \<not> s < a" using "1.prems" by auto
    moreover have "mx \<le> mx * 2 ^ nat (a - s)" using "1.prems" by simp
    ultimately show ?thesis using False by (subst delay_loop.simps) auto
  qed
qed

subsection \<open>Totals\<close>

text \<open>The events that a run of totals emits, and the specification per series.\<close>

fun total_run :: "nat \<Rightarrow> (string \<times> f64) list \<Rightarrow> event list \<Rightarrow> event list" where
  "total_run limit totals [] = []"
| "total_run limit totals (e # es) =
     (case applyTotal e totals limit of
        (None, totals') \<Rightarrow> total_run limit totals' es
      | (Some e', totals') \<Rightarrow> e' # total_run limit totals' es)"

fun increases :: "int option \<Rightarrow> int list \<Rightarrow> int list" where
  "increases prev [] = []"
| "increases None (x # xs) = increases (Some x) xs"
| "increases (Some p) (x # xs) = (if p < x then [x - p] else []) @ increases (Some x) xs"

definition totals_hold :: "(string \<times> f64) list \<Rightarrow> (string \<times> string list \<Rightarrow> int option) \<Rightarrow> bool" where
  "totals_hold totals prev \<longleftrightarrow>
     (\<forall>m ls. nul_free m ls \<longrightarrow> map_of totals (seriesKey m ls) = map_option f64_of_int (prev (m, ls)))"

definition total_ok :: "(event \<Rightarrow> int) \<Rightarrow> event \<Rightarrow> bool" where
  "total_ok v e \<longleftrightarrow> nul_free (ename e) (elabels e) \<and> evalue e = f64_of_int (v e) \<and> \<bar>v e\<bar> < 2 ^ 52"

lemma totals_hold_update:
  assumes "totals_hold totals prev" and "nul_free m ls"
  shows "totals_hold (AList.update (seriesKey m ls) (f64_of_int x) totals) (prev((m, ls) \<mapsto> x))"
  using assms by (auto simp: totals_hold_def sk.lookup_update)

lemma applyTotal_int:
  assumes hold: "totals_hold totals prev" and ok: "total_ok v e" and lim: "0 < limit"
    and room: "prev (series_of e) = None \<Longrightarrow> length totals < limit"
    and small: "\<And>p. prev (series_of e) = Some p \<Longrightarrow> \<bar>p\<bar> < 2 ^ 52"
  shows "\<exists>totals'. totals_hold totals' (prev(series_of e \<mapsto> v e)) \<and>
    length totals' = length totals + (if prev (series_of e) = None then 1 else 0) \<and>
    applyTotal e totals limit =
      (case prev (series_of e) of
         Some p \<Rightarrow> if p < v e then Some (e\<lparr>etyp := MtCounter, evalue := f64_of_int (v e - p)\<rparr>) else None
       | None \<Rightarrow> None, totals')"
proof -
  let ?k = "seriesKey (ename e) (elabels e)" and ?t' = "AList.update (seriesKey (ename e) (elabels e)) (evalue e) totals"
  have nf: "nul_free (ename e) (elabels e)" and ev: "evalue e = f64_of_int (v e)" and ve: "\<bar>v e\<bar> < 2 ^ 52"
    using ok by (simp_all add: total_ok_def)
  have m: "map_of totals ?k = map_option f64_of_int (prev (series_of e))"
    using hold nf by (simp add: totals_hold_def series_of_def)
  have hold': "totals_hold ?t' (prev(series_of e \<mapsto> v e))"
    using totals_hold_update [OF hold nf, of "v e"] by (simp add: ev series_of_def)
  show ?thesis
  proof (cases "prev (series_of e)")
    case None
    then have "map_of totals ?k = None" using m by simp
    then have "?k \<notin> fst ` set totals" by (simp add: map_of_None_fst)
    then show ?thesis
      using None m hold' room lim by (intro exI [of _ ?t']) (simp add: applyTotal_def)
  next
    case (Some p)
    then have mp: "map_of totals ?k = Some (f64_of_int p)" using m by simp
    have p: "\<bar>p\<bar> < 2 ^ 53" "\<bar>v e\<bar> < 2 ^ 53" "\<bar>v e - p\<bar> < 2 ^ 53" "\<bar>0 :: int\<bar> < 2 ^ 53"
      using small [OF Some] ve by (auto simp: abs_if split: if_splits)
    have cmp: "f64_of_int (v e) < f64_of_int p \<longleftrightarrow> v e < p"
      "f64_of_int (v e) - f64_of_int p = f64_of_int (v e - p)"
      "f64_of_int (v e - p) \<le> 0 \<longleftrightarrow> v e - p \<le> 0"
      using f64_int_less(1) [OF p(2,1)] f64_int_sub [OF p(2,1)] f64_int_less(2) [OF p(3,4)]
      by (simp_all add: f64_zero_int)
    show ?thesis
      using Some mp hold' lim map_of_Some_fst [OF mp]
      by (intro exI [of _ ?t']) (auto simp: applyTotal_def Let_def ev cmp)
  qed
qed

end
