(* ===== verification/ClientRuns.thy ===== *)
theory ClientRuns
  imports Client
begin

section \<open>What runs of the client promise (client.go)\<close>

text \<open>
  Runs are lists of atomic steps from \<open>new_client\<close>: callers, the worker and \<open>Close\<close> in any
  interleaving, over any transport, clock and hash. \<open>sent\<close> is the log of payloads given to the
  transport. The demo environment instantiates the parameters for the witnesses: a transport that
  answers from a list of errors (and succeeds when the list is empty) and a clock that stands still.
\<close>

definition demo_env :: "int \<Rightarrow> go_error option list client_env" where
  "demo_env now =
     \<lparr>transport_send = \<lambda>p errs. (case errs of [] \<Rightarrow> (None, []) | e # es \<Rightarrow> (e, es)),
      time_now = \<lambda>errs. (now, errs), series_hash = \<lambda>_ _. 0\<rparr>"

definition demo_calls :: "action list" where
  "demo_calls =
     [DoCall (Count ''c'' (f64_of_int 2) []) new_event, DoPush 0, Recv, Tick]"

subsection \<open>Bounds\<close>

text \<open>
  C8 (bounds). Whatever the callers do and however long the transport fails, the memory of a client
  is bounded: at most 65536 queued events, a batch below 512 events, at most 2048 remembered
  totals, at most 128 batches waiting for a retry, each with 0 to 7 attempts behind it.
\<close>

theorem client_memory_bounded:
  fixes env :: "'w client_env" and wl :: string and now :: int and w :: 'w and es :: "action list"
  defines "c \<equiv> run_steps (client_step env) (new_client wl now w) es"
  shows "length (clQueue c) \<le> 65536 \<and> length (clBatch c) < 512 \<and> length (clTotals c) \<le> 2048 \<and>
    length (clRetry c) \<le> 128 \<and> (\<forall>r \<in> set (clRetry c). rbAttempts r \<in> {0..7})"
proof -
  have "client_bounds c" unfolding c_def by (rule client_run.run_keeps) simp_all
  then show ?thesis
    by (auto simp: client_bounds_def retry_ok_def defaultQueueSize_def defaultMaxBatchSize_def
        defaultMaxTotalSeries_def defaultRetryQueueSize_def defaultRetryMaxAttempts_def)
qed

theorem client_memory_bounded_witness:
  "let c = run_steps (client_step (demo_env 0)) (new_client ''w'' 0 [Some EOF]) (demo_calls @ [Cancel]) in
    length (clQueue c) \<le> 65536 \<and> length (clBatch c) < 512 \<and> length (clTotals c) \<le> 2048 \<and>
    length (clRetry c) \<le> 128 \<and> (\<forall>r \<in> set (clRetry c). rbAttempts r \<in> {0..7})"
  unfolding Let_def by (rule client_memory_bounded)

text \<open>
  C9 (safety). A batch ID names one payload for ever, and the payload is given to the transport at
  most eight times, over every interleaving, deferral and retry: what makes deduplication by batch
  ID sound. (The bound on the run keeps the 64-bit sequence number from wrapping.)
\<close>

theorem batch_sent_at_most_eight_times:
  fixes env :: "'w client_env" and wl :: string and now :: int and w :: 'w and es :: "action list"
  assumes "length es < 2 ^ 64"
  shows "let log = sent (run_steps (client_step (logged env)) (new_client wl now ([], w)) es) in
    (\<forall>b. length (filter (\<lambda>p. batchID p = b) log) \<le> 8) \<and>
    (\<forall>p \<in> set log. \<forall>q \<in> set log. batchID p = batchID q \<longrightarrow> p = q) \<and> (\<forall>p \<in> set log. batchID p \<noteq> [])"
proof -
  let ?c = "run_steps (client_step (logged env)) (new_client wl now ([], w)) es"
  have "log_ok ?c"
    by (rule client_run_log [OF log_ok_new]) (use assms in \<open>simp add: new_client_def\<close>)
  then have inv: "log_inv (clBatchSession ?c) (unat (clBatchSeq ?c)) (sent ?c) (clRetry ?c)" by (simp add: log_ok_def)
  have "length (filter (\<lambda>p. batchID p = b) (sent ?c)) \<le> 8" for b
  proof -
    have "length (filter (\<lambda>p. batchID p = b) (sent ?c)) = attempts_of (sent ?c) b"
      by (simp add: attempts_of_def count_list_eq_length_filter filter_map comp_def eq_commute)
    also have "int \<dots> \<le> 8" using inv by (simp add: log_inv_def defaultRetryMaxAttempts_def)
    finally show ?thesis by linarith
  qed
  then show ?thesis
    using inv issued_not_Nil unfolding Let_def log_inv_def by blast
qed

theorem batch_sent_at_most_eight_times_witness:
  "let log = sent (run_steps (client_step (logged (demo_env 0))) (new_client ''w'' 0 ([], [])) demo_calls) in
    (\<forall>b. length (filter (\<lambda>p. batchID p = b) log) \<le> 8) \<and>
    (\<forall>p \<in> set log. \<forall>q \<in> set log. batchID p = batchID q \<longrightarrow> p = q) \<and> (\<forall>p \<in> set log. batchID p \<noteq> [])"
  by (rule batch_sent_at_most_eight_times) (simp add: demo_calls_def)

subsection \<open>Stopping\<close>

text \<open>
  The environment with a log of the payloads given to the transport and of what it answered to
  each: \<open>None\<close> or the error.
\<close>

definition replied :: "'w client_env \<Rightarrow> ((payload \<times> go_error option) list \<times> 'w) client_env" where
  "replied env =
     \<lparr>transport_send = \<lambda>p (log, w). let (err, w') = transport_send env p w in (err, (log @ [(p, err)], w')),
      time_now = \<lambda>(log, w). let (now, w') = time_now env w in (now, (log, w')),
      series_hash = series_hash env\<rparr>"

abbreviation answers :: "((payload \<times> go_error option) list \<times> 'w) client \<Rightarrow> (payload \<times> go_error option) list" where
  "answers c \<equiv> fst (clWorld c)"

definition stops_in :: "(payload \<times> go_error option) list \<Rightarrow> bool" where
  "stops_in l \<longleftrightarrow> (\<exists>p e. (p, Some e) \<in> set l \<and> IsStopIngestError e)"

lemma stops_in_simps [simp]:
  "\<not> stops_in []" "stops_in (l @ l') \<longleftrightarrow> stops_in l \<or> stops_in l'"
  "stops_in ((p, None) # l) = stops_in l" "stops_in ((p, Some e) # l) = (IsStopIngestError e \<or> stops_in l)"
  by (auto simp: stops_in_def)

text \<open>A client obeys: a stop error was at most the last answer, and then it has stopped.\<close>

definition obedient :: "((payload \<times> go_error option) list \<times> 'w) client \<Rightarrow> bool" where
  "obedient c \<longleftrightarrow> (clStopSending c \<longrightarrow> \<not> stops_in (butlast (answers c))) \<and>
     (\<not> clStopSending c \<longrightarrow> \<not> stops_in (answers c))"

definition quiet :: "((payload \<times> go_error option) list \<times> 'w) client \<Rightarrow>
    ((payload \<times> go_error option) list \<times> 'w) client \<Rightarrow> bool" where
  "quiet c c' \<longleftrightarrow> answers c' = answers c \<and> clStopSending c' = clStopSending c"

lemma obedient_quiet: "obedient c \<Longrightarrow> quiet c c' \<Longrightarrow> obedient c'"
  by (simp add: obedient_def quiet_def)

lemma clock_star_replied: "clock_star (replied env) x y \<Longrightarrow> fst y = fst x"
  unfolding clock_star_def
  by (induction rule: rtranclp_induct) (auto simp: replied_def case_prod_beta)

lemma clock_quiet: "read_clock (replied env) c = (now, c') \<Longrightarrow> quiet c c'"
  by (auto simp: read_clock_def replied_def quiet_def split: prod.split_asm)

lemma retry_quiet: "quiet c (snd (enqueueRetry (replied env) p n (noteTransientFailure (replied env) c)))"
proof -
  obtain w t where n: "noteTransientFailure (replied env) c =
      c\<lparr>clBackoffAttempt := clBackoffAttempt c + 1, clNextSend := Some t, clWorld := w\<rparr>"
      "clock_star (replied env) (clWorld c) w" using noteTransientFailure_eq [of "replied env" c] by blast
  obtain w' t' where e: "snd (enqueueRetry (replied env) p n (noteTransientFailure (replied env) c)) =
      snd (enqueueRetryAt p n t' ((noteTransientFailure (replied env) c)\<lparr>clWorld := w'\<rparr>))"
      "clock_star (replied env) w w'"
    using enqueueRetry_eq [of "replied env" p n "noteTransientFailure (replied env) c"] n(1) by auto
  have "quiet c (snd (enqueueRetryAt p n t' ((noteTransientFailure (replied env) c)\<lparr>clWorld := w'\<rparr>)))"
    unfolding n(1)
    using clock_star_replied [OF n(2)] clock_star_replied [OF e(2)] by (simp add: quiet_def enqueueRetryAt_eq)
  then show ?thesis by (simp only: e(1))
qed

lemma send_obedient:
  fixes c :: "((payload \<times> go_error option) list \<times> 'w) client"
  assumes ok: "obedient c"
  shows "obedient (sendPayload (replied env) p0 n c)"
proof (cases "payload_empty p0 \<or> clStopSending c")
  case True
  then show ?thesis using ok by (auto simp: sendPayload_def)
next
  case go: False
  obtain p c1 where pc: "(if batchID p0 = [] then let (i, c) = nextBatchID c in (p0\<lparr>batchID := i\<rparr>, c)
      else (p0, c)) = (p, c1)" by fastforce
  then have c1: "quiet c c1" by (auto simp: quiet_def nextBatchID_def Let_def split: if_split_asm)
  obtain d c2 where d: "deferForClientBackoff (replied env) p n c1 = (d, c2)" by fastforce
  from defer_eq [OF d] obtain w0 t where
    "c2 = (if d then snd (enqueueRetryAt p (max 0 (n - 1)) t (c1\<lparr>clWorld := w0\<rparr>)) else c1\<lparr>clWorld := w0\<rparr>)"
    and "clock_star (replied env) (clWorld c1) w0" by blast
  then have "quiet c1 c2" using clock_star_replied by (fastforce simp: quiet_def enqueueRetryAt_eq)
  then have c2: "quiet c c2" using c1 by (simp add: quiet_def)
  obtain err w where s: "transport_send (replied env) p (clWorld c2) = (err, w)" by (rule prod.exhaust)
  have w: "fst w = answers c @ [(p, err)]"
    using s c2 by (cases "clWorld c2") (auto simp: replied_def quiet_def split: prod.split_asm)
  have st: "\<not> clStopSending c2" "\<not> stops_in (answers c)" using go c2 ok by (simp_all add: quiet_def obedient_def)
  let ?c3 = "c2\<lparr>clWorld := w\<rparr>"
  have run: "sendPayload (replied env) p0 n c =
      (if d then c2
       else case err of
         None \<Rightarrow> resetTransientBackoff ?c3
       | Some e \<Rightarrow>
           if IsStopIngestError e then ?c3\<lparr>clStopSending := True\<rparr>
           else if shouldRetryTransport (Some e)
           then snd (enqueueRetry (replied env) p n (noteTransientFailure (replied env) ?c3))
           else ?c3)"
    using go by (simp add: sendPayload_def pc d s Let_def case_prod_beta split: option.split)
  have c3: "obedient ?c3" if "err = None \<or> (\<exists>e. err = Some e \<and> \<not> IsStopIngestError e)"
    using that st w by (auto simp: obedient_def)
  have "obedient (?c3\<lparr>clStopSending := True\<rparr>)" using st w by (simp add: obedient_def)
  then show ?thesis
    unfolding run
    using obedient_quiet [OF ok c2] c3 obedient_quiet [OF c3 retry_quiet]
    by (auto simp: resetTransientBackoff_def obedient_def split: option.split)
qed

lemma flush_obedient: "obedient c \<Longrightarrow> obedient (flush_batch (replied env) c)"
proof -
  assume ok: "obedient c"
  then have "obedient (snd (nextBatchID c))" by (simp add: obedient_def nextBatchID_def Let_def)
  then have "obedient (flush_events (replied env) es c)" for es
    using build_payload_result [of "replied env" es c] ok send_obedient by (auto simp: flush_events_def)
  then show ?thesis using ok by (simp add: flush_batch_def) (simp add: obedient_def)
qed

lemma retries_obedient:
  fixes c :: "((payload \<times> go_error option) list \<times> 'w) client"
  assumes "obedient c"
  shows "obedient (flushRetryQueue (replied env) ig c)"
proof (rule flushRetryQueue_inv [where P = obedient, OF _ _ assms])
  fix c' :: "((payload \<times> go_error option) list \<times> 'w) client" and i
  assume "obedient c'"
  then show "obedient (retry_send (replied env) i c')"
    unfolding retry_send_def by (intro send_obedient) (simp add: obedient_def)
qed (rule obedient_quiet [OF _ clock_quiet])

lemma receive_obedient: "obedient c \<Longrightarrow> obedient (receive (replied env) ev c)"
proof -
  assume ok: "obedient c"
  have ext: "obedient (c\<lparr>clBatch := b\<rparr>)" "obedient (c\<lparr>clTotals := t\<rparr>)" "obedient (c\<lparr>clTotals := t, clBatch := b\<rparr>)" for b t
    using ok by (simp_all add: obedient_def)
  show ?thesis
    using flush_obedient ok ext by (auto simp: receive_def Let_def case_prod_beta split: option.split)
qed

lemma client_step_obedient [step_inv]:
  fixes c :: "((payload \<times> go_error option) list \<times> 'w) client"
  assumes ok: "obedient c"
  shows "obedient (client_step (replied env) c a)"
proof (cases a)
  case (DoCall k pooled)
  obtain ps l w where f: "client_call (replied env) pooled k c = c\<lparr>clPending := ps, clLimiter := l, clWorld := w\<rparr>"
      "clock_star (replied env) (clWorld c) w"
    using client_call_frame [of "replied env" c pooled k] unfolding call_frame_def by blast
  then show ?thesis using ok clock_star_replied [OF f(2)] DoCall by (simp add: client_step_def obedient_def)
next
  case (Tick)
  then show ?thesis using ok by (simp add: client_step_def flush_obedient retries_obedient)
next
  case Recv
  have "obedient (c\<lparr>clQueue := rest\<rparr>)" for rest using ok by (simp add: obedient_def)
  then show ?thesis using ok Recv by (simp add: client_step_def receive_obedient split: list.split)
next
  case EndDrain
  have "obedient (flushRetryQueue (replied env) True (flush_batch (replied env) c))"
    by (intro retries_obedient flush_obedient ok)
  then show ?thesis using ok EndDrain by (simp add: client_step_def) (simp add: obedient_def)
qed (use ok in \<open>auto simp: client_step_def push_event_def obedient_def\<close>)

interpretation obedient_run: inv_steps "client_step (replied env)" obedient "\<lambda>a. True" for env
  by unfold_locales (rule client_step_obedient)

text \<open>
  C20 (safety). A response that stops ingest is final: in every run from a new client, over any
  transport and any clock, an answer that is a stop error is the last one the transport ever gives,
  because nothing is sent after it; the client has stopped, and no call adds an event.
\<close>

theorem stop_is_final:
  fixes env :: "'w client_env" and wl :: string and now :: int and w :: 'w and es :: "action list"
  defines "c \<equiv> run_steps (client_step (replied env)) (new_client wl now ([], w)) es"
  assumes "fst (clWorld c) = earlier @ (p, Some e) # later" and "IsStopIngestError e"
  shows "later = [] \<and> clStopSending c \<and>
    clPending (client_call (replied env) pooled k c) = clPending c"
proof -
  have "obedient (new_client wl now ([], w))" by (simp add: obedient_def new_client_def)
  then have ob: "obedient c" unfolding c_def by (rule obedient_run.run_keeps) simp
  have log: "answers c = (earlier @ [(p, Some e)]) @ later" using assms(2) by simp
  have stop: "clStopSending c" using ob assms(3) log by (auto simp: obedient_def split: if_split_asm)
  have "later = []"
  proof (rule ccontr)
    assume "later \<noteq> []"
    then have "butlast (answers c) = (earlier @ [(p, Some e)]) @ butlast later" unfolding log by (simp add: butlast_append)
    then show False using ob stop assms(3) by (simp add: obedient_def)
  qed
  moreover have "clPending (client_call (replied env) pooled k c) = clPending c"
    using stop
    by (auto simp: client_call_def enqueue_def enqueueUnique_def admits_def allowValue_def
        split: call.split prod.split)
  ultimately show ?thesis using stop by simp
qed

definition sample_error :: go_error where
  "sample_error = StopIngestErr 401 None"

definition one_counter :: payload where
  "one_counter = \<lparr>batchID = ''s-1'',
     pCounters = [\<lparr>cMetric = ''c'', cValue = 0, cLabels = [], cTs = 0\<rparr>], pValues = [], pUniques = []\<rparr>"

lemma one_counter_simps [simp]: "batchID one_counter = ''s-1''" "\<not> payload_empty one_counter"
  by (simp_all add: one_counter_def payload_empty_def)

text \<open>One count: the first send meets the end of a connection, the retry behind the gate a stop error.\<close>

definition ticking_env :: "(int \<times> go_error option list) client_env" where
  "ticking_env =
     \<lparr>transport_send = \<lambda>p (now, errs). (case errs of [] \<Rightarrow> (None, now, []) | e # es \<Rightarrow> (e, now, es)),
      time_now = \<lambda>(now, errs). (now, now + 60 * second, errs), series_hash = \<lambda>_ _. 0\<rparr>"

definition stopped_run :: "((payload \<times> go_error option) list \<times> int \<times> go_error option list) client" where
  "stopped_run =
     run_steps (client_step (replied ticking_env)) (new_client ''w'' 0 ([], 0, [Some EOF, Some sample_error]))
       [DoCall (Count ''c'' 0 []) new_event, DoPush 0, Recv, Tick]"

lemma stopped_run_answers: "\<exists>p. answers stopped_run = [(p, Some EOF), (p, Some sample_error)]"
  by (simp add: stopped_run_def client_step_def client_call_def enqueue_def admits_def read_clock_def
      replied_def ticking_env_def push_event_def receive_def new_client_def borrowEvent_def releaseEvent_def
      new_event_def second_def defaultQueueSize_def defaultMaxBatchSize_def
      flush_batch_def flush_events_def buildPayload_def add_event_def addCounter_def newBatchBuilder_def
      agg_head_def push_counter_def event_counter_def build_def payload_empty_def nextBatchID_def
      defaultMaxSeriesPerBatch_def sendPayload_def deferForClientBackoff_def IsStopIngestError_def
      shouldRetryTransport_def noteTransientFailure_def enqueueRetry_def enqueueRetryAt_def retryDelay_def
      clientBackoffDelay_def go_rem_def flushRetryQueue_def retry_loop.simps delay_loop.simps
      sample_error_def defaultRetryMaxAttempts_def defaultRetryQueueSize_def defaultRetryFlushMaxSends_def
      defaultRetryBaseDelay_def defaultRetryMaxDelay_def defaultRetryJitterWindow_def
      defaultClientBackoffMaxDelay_def defaultClientBackoffJitterWindow_def Let_def)

theorem stop_is_final_witness:
  "length (answers stopped_run) = 2 \<and> clStopSending stopped_run \<and>
   clPending (client_call (replied ticking_env) new_event (Count ''c'' 0 []) stopped_run) = clPending stopped_run"
proof -
  obtain p where log: "answers stopped_run = [(p, Some EOF)] @ (p, Some sample_error) # []"
    using stopped_run_answers by auto
  have "IsStopIngestError sample_error" by (simp add: sample_error_def)
  from stop_is_final [OF log [unfolded stopped_run_def] this] show ?thesis
    using log by (simp add: stopped_run_def)
qed

subsection \<open>What a send does with the answer\<close>

definition gate_world :: "'w client_env \<Rightarrow> 'w client \<Rightarrow> 'w" where
  "gate_world env c = (case clNextSend c of None \<Rightarrow> clWorld c | Some t \<Rightarrow> snd (time_now env (clWorld c)))"

lemma defer_open:
  "gate_open env c \<Longrightarrow> deferForClientBackoff env p n c = (False, c\<lparr>clWorld := gate_world env c\<rparr>)"
  by (auto simp: gate_open_def gate_world_def deferForClientBackoff_def read_clock_def case_prod_beta split: option.split)

lemma delays_closed:
  "retryDelay n now = min (8 * second) (second * 2 ^ nat (n - 1)) + go_rem now second"
  "clientBackoffDelay n now = min (30 * second) (second * 2 ^ nat (n - 1)) + go_rem now (5 * second)"
proof -
  have n: "delay_loop mx n 1 second = min mx (second * 2 ^ nat (n - 1))"
      "n < 1 \<Longrightarrow> delay_loop mx 1 1 second = min mx (second * 2 ^ nat (n - 1))"
    if "second \<le> mx" for mx
    using that delay_loop_closed [of second mx n 1] delay_loop_closed [of second mx 1 1]
    by (auto simp: second_def)
  show "retryDelay n now = min (8 * second) (second * 2 ^ nat (n - 1)) + go_rem now second"
    using n [of "8 * second"]
    by (auto simp: retryDelay_def Let_def defaultRetryMaxDelay_def defaultRetryBaseDelay_def
        defaultRetryJitterWindow_def second_def)
  show "clientBackoffDelay n now = min (30 * second) (second * 2 ^ nat (n - 1)) + go_rem now (5 * second)"
    using n [of "30 * second"]
    by (auto simp: clientBackoffDelay_def Let_def defaultRetryBaseDelay_def defaultClientBackoffMaxDelay_def
        defaultClientBackoffJitterWindow_def second_def)
qed

text \<open>
  C19 (error). What becomes of a batch that the transport was given, by the answer alone. A success
  resets the backoff. A stop marker in the error, the outermost one, stops the client. Otherwise an HTTP
  response inside the error decides by its status, 408, 429, 500, 502, 503 and 504 being retried, and
  without one a network error or an end of file is retried; any other error drops the batch. A retry
  closes the gate of the client for a delay that doubles from one second to thirty, and queues the batch
  behind one that doubles from one second to eight, unless it was sent eight times or 128 batches wait.
\<close>

theorem send_outcome:
  assumes "batchID p \<noteq> []" and "\<not> payload_empty p" and "\<not> clStopSending c" and "gate_open env c"
    and "transport_send env p (gate_world env c) = (answer, w)"
  shows "let c' = sendPayload env p n c in
    case answer of
      None \<Rightarrow> c' = c\<lparr>clBackoffAttempt := 0, clNextSend := None, clWorld := w\<rparr>
    | Some e \<Rightarrow>
        (case fate_of e of
           StopClient \<Rightarrow> c' = c\<lparr>clStopSending := True, clWorld := w\<rparr>
         | DropBatch \<Rightarrow> c' = c\<lparr>clWorld := w\<rparr>
         | RetryBatch \<Rightarrow>
             (\<exists>t1 w1 j1 w2 t2 w3 j2 w4.
                time_now env w = (t1, w1) \<and> time_now env w1 = (j1, w2) \<and>
                time_now env w2 = (t2, w3) \<and> time_now env w3 = (j2, w4) \<and>
                c' = c\<lparr>clBackoffAttempt := clBackoffAttempt c + 1,
                       clNextSend := Some (t1 + (min (30 * second) (second * 2 ^ nat (clBackoffAttempt c)) + go_rem j1 (5 * second))),
                       clRetry := clRetry c @
                         (if n < 8 \<and> length (clRetry c) < 128
                          then [\<lparr>rbPayload = p, rbAttempts = n,
                                 rbNextAttempt = t2 + (min (8 * second) (second * 2 ^ nat (n - 1)) + go_rem j2 second)\<rparr>]
                          else []),
                       clWorld := w4\<rparr>))"
proof -
  let ?c3 = "c\<lparr>clWorld := w\<rparr>"
  have run: "sendPayload env p n c =
      (case answer of
         None \<Rightarrow> resetTransientBackoff ?c3
       | Some e \<Rightarrow>
           if fate_of e = StopClient then ?c3\<lparr>clStopSending := True\<rparr>
           else if fate_of e = RetryBatch then snd (enqueueRetry env p n (noteTransientFailure env ?c3))
           else ?c3)"
    using assms by (simp add: sendPayload_def defer_open fate_of_stop fate_of_retry Let_def case_prod_beta split: option.split)
  obtain t1 w1 j1 w2 t2 w3 j2 w4 where clk: "time_now env w = (t1, w1)" "time_now env w1 = (j1, w2)"
      "time_now env w2 = (t2, w3)" "time_now env w3 = (j2, w4)"
    by (metis prod.exhaust)
  have retry: "snd (enqueueRetry env p n (noteTransientFailure env ?c3)) =
      c\<lparr>clBackoffAttempt := clBackoffAttempt c + 1,
        clNextSend := Some (t1 + (min (30 * second) (second * 2 ^ nat (clBackoffAttempt c)) + go_rem j1 (5 * second))),
        clRetry := clRetry c @
          (if n < 8 \<and> length (clRetry c) < 128
           then [\<lparr>rbPayload = p, rbAttempts = n,
                  rbNextAttempt = t2 + (min (8 * second) (second * 2 ^ nat (n - 1)) + go_rem j2 second)\<rparr>]
           else []),
        clWorld := w4\<rparr>"
    by (simp add: enqueueRetry_def noteTransientFailure_def enqueueRetryAt_def read_clock_def clk delays_closed
        defaultRetryMaxAttempts_def defaultRetryQueueSize_def)
  show ?thesis
  proof (cases answer)
    case None
    then show ?thesis by (simp add: Let_def run resetTransientBackoff_def)
  next
    case (Some e)
    then show ?thesis using clk by (cases "fate_of e") (simp_all add: Let_def run retry)
  qed
qed

text \<open>A refused connection behind a gate that has just opened: the second attempt waits two seconds.\<close>

definition elapsed_client :: "(int \<times> go_error option list) client" where
  "elapsed_client =
     (new_client ''w'' 0 (7 * second, [Some (WrapErr ''send request'' (NetErr ''dial'' None))]))
       \<lparr>clNextSend := Some (5 * second), clBackoffAttempt := 1\<rparr>"

theorem send_outcome_witness:
  "let c' = sendPayload ticking_env one_counter 2 elapsed_client in
    clNextSend c' = Some (67 * second + 4 * second) \<and> clBackoffAttempt c' = 2 \<and> \<not> clStopSending c' \<and>
    clRetry c' = [\<lparr>rbPayload = one_counter, rbAttempts = 2, rbNextAttempt = 187 * second + 2 * second\<rparr>]"
  using send_outcome [of one_counter elapsed_client ticking_env
      "Some (WrapErr ''send request'' (NetErr ''dial'' None))" "(67 * second, [])" 2]
  by (simp add: Let_def elapsed_client_def new_client_def ticking_env_def gate_open_def gate_world_def
      fate_of_def go_rem_def second_def)

subsection \<open>Shutdown\<close>

lemma client_step_exited:
  fixes c :: "(payload list \<times> 'w) client"
  assumes "clPhase c = Exited"
  shows "clPhase (client_step (logged env) c a) = Exited \<and> sent (client_step (logged env) c a) = sent c"
proof (cases a)
  case (DoCall k pooled)
  obtain ps l w where f: "client_call (logged env) pooled k c = c\<lparr>clPending := ps, clLimiter := l, clWorld := w\<rparr>"
      "clock_star (logged env) (clWorld c) w"
    using client_call_frame [of "logged env" c pooled k] unfolding call_frame_def by blast
  then show ?thesis using assms clock_star_logged [OF f(2)] DoCall by (simp add: client_step_def sent_def)
qed (use assms in \<open>auto simp: client_step_def push_event_def sent_def split: list.split\<close>)

lemma client_run_exited:
  fixes c :: "(payload list \<times> 'w) client"
  assumes "clPhase c = Exited"
  shows "sent (run_steps (client_step (logged env)) c es) = sent c"
  using assms
proof (induction es arbitrary: c)
  case (Cons a es)
  then show ?case using client_step_exited [OF Cons.prems, of env a] by simp
qed simp

text \<open>
  C36 (safety). Shutdown behind a closed backoff gate sends nothing: when the channel is empty and
  the clock has not reached the gate, the end of the drain gives the transport neither the current
  batch nor any queued retry, exits, and no later step sends them. So the last attempt of \<open>Close\<close>
  ignores the backoff of a batch but not the gate of the client, and what is queued is lost.
\<close>

theorem close_behind_gate_loses_batches:
  fixes c :: "(payload list \<times> 'w) client"
  assumes "clPhase c = Draining" and "clQueue c = []" and "client_bounds c"
    and "clNextSend c = Some t" and "\<forall>x. fst (time_now env x) < t"
  shows "let c' = client_step (logged env) c EndDrain in
    clPhase c' = Exited \<and> clBatch c' = [] \<and> sent (run_steps (client_step (logged env)) c' es) = sent c"
proof -
  have early: "\<forall>x. fst (time_now (logged env) x) < t" using assms(5) by (auto simp: logged_def case_prod_beta)
  have "gated c t (sent c)" using assms(3,4) by (simp add: gated_def client_bounds_alt)
  then have fb: "gated (flush_batch (logged env) c) t (sent c)" by (rule flush_batch_gated [OF _ early])
  then have "gated (flushRetryQueue (logged env) True (flush_batch (logged env) c)) t (sent c)"
    by (rule flushRetryQueue_gated [OF _ early])
  moreover have "clBatch (flushRetryQueue (logged env) True (flush_batch (logged env) c)) = []"
    using assms(3) flush_batch_bounds [of c "logged env"]
      flushRetryQueue_bounds [of "flush_batch (logged env) c" "logged env" True]
    by (simp add: client_bounds_alt send_frame_def)
  ultimately show ?thesis
    using assms(1,2) by (simp add: Let_def client_step_def client_run_exited gated_def) (simp add: sent_def)
qed

definition closing_client :: "(payload list \<times> go_error option list) client" where
  "closing_client = (new_client ''w'' 0 ([], []))
     \<lparr>clPhase := Draining, clNextSend := Some 5,
      clRetry := [\<lparr>rbPayload = one_counter, rbAttempts = 1, rbNextAttempt = 3\<rparr>]\<rparr>"

theorem close_behind_gate_loses_batches_witness:
  "let c' = client_step (logged (demo_env 4)) closing_client EndDrain in
    clPhase c' = Exited \<and> clBatch c' = [] \<and>
    sent (run_steps (client_step (logged (demo_env 4))) c' [Tick, Tick]) = sent closing_client"
  by (rule close_behind_gate_loses_batches [of _ 5])
    (simp_all add: closing_client_def new_client_def client_bounds_def retry_ok_def demo_env_def
      defaultRetryQueueSize_def defaultRetryMaxAttempts_def defaultMaxBatchSize_def)

lemma receive_frame:
  assumes "client_bounds c"
  shows "clQueue (receive env ev c) = clQueue c \<and> clPhase (receive env ev c) = clPhase c"
proof -
  have "clQueue (flush_batch env c1) = clQueue c1 \<and> clPhase (flush_batch env c1) = clPhase c1"
    if "clRetry c1 = clRetry c" for c1
    using flush_batch_bounds [of c1 env] assms that by (simp add: client_bounds_alt)
  then show ?thesis by (auto simp: receive_def Let_def case_prod_beta split: option.split)
qed

lemma drain_receives:
  assumes "client_bounds c" and "clPhase c = Draining" and "length (clQueue c) = n"
  shows "clQueue (run_steps (client_step env) c (replicate n Recv)) = [] \<and>
    clPhase (run_steps (client_step env) c (replicate n Recv)) = Draining"
  using assms
proof (induction n arbitrary: c)
  case (Suc n)
  then obtain ev rest where q: "clQueue c = ev # rest" by (cases "clQueue c") auto
  let ?c1 = "receive env ev (c\<lparr>clQueue := rest\<rparr>)"
  have "client_bounds (c\<lparr>clQueue := rest\<rparr>)" using Suc.prems(1) q by (simp add: client_bounds_alt)
  from receive_frame [OF this, of env ev] receive_bounds [OF this, of env ev]
  have "client_bounds ?c1" "clPhase ?c1 = Draining" "length (clQueue ?c1) = n" using Suc.prems q by simp_all
  from Suc.IH [OF this] show ?case using q Suc.prems by (simp add: client_step_def)
qed simp

lemma close_ends:
  fixes env :: "'w client_env" and c :: "'w client"
  assumes cb: "client_bounds c" and run: "clPhase c = Running" and cancelled: "clCancelled c"
  defines "c' \<equiv> run_steps (client_step env) c (BeginDrain # replicate (length (clQueue c)) Recv @ [EndDrain])"
  shows "clPhase c' = Exited \<and> clQueue c' = [] \<and> clBatch c' = []"
proof -
  let ?d = "c\<lparr>clPhase := Draining\<rparr>"
  let ?e = "run_steps (client_step env) ?d (replicate (length (clQueue c)) Recv)"
  have d: "client_bounds ?d" using cb by (simp add: client_bounds_alt)
  have e: "clQueue ?e = []" "clPhase ?e = Draining" using drain_receives [OF d] by simp_all
  have "client_bounds ?e" by (rule client_run.run_keeps [OF d]) simp
  then have rb: "retry_bounds (clRetry ?e)" by (simp add: client_bounds_alt)
  let ?f = "flush_batch env ?e"
  have "send_frame ?f (flushRetryQueue env True ?f)"
    using flushRetryQueue_bounds flush_batch_bounds(1) [OF rb] by blast
  then have "clQueue (flushRetryQueue env True ?f) = [] \<and> clBatch (flushRetryQueue env True ?f) = []"
    using flush_batch_bounds [OF rb] e by (simp add: send_frame_def)
  then show ?thesis using run cancelled e by (simp add: c'_def client_step_def)
qed

text \<open>
  C10 (termination). \<open>Close\<close> ends the worker: in every reachable state that is cancelled and still
  running, when the callers stop pushing, the worker starts the drain, receives each queued event
  once and exits, in as many steps as there are queued events plus two, whatever the transport
  answers; the channel and the batch are empty then.
\<close>

theorem close_terminates:
  fixes env :: "'w client_env" and wl :: string and now :: int and w :: 'w and es :: "action list"
  defines "c \<equiv> run_steps (client_step env) (new_client wl now w) es"
  assumes "clPhase c = Running" and "clCancelled c"
  shows "let c' = run_steps (client_step env) c (BeginDrain # replicate (length (clQueue c)) Recv @ [EndDrain]) in
    clPhase c' = Exited \<and> clQueue c' = [] \<and> clBatch c' = []"
proof -
  have "client_bounds c" unfolding c_def by (rule client_run.run_keeps) simp_all
  from close_ends [OF this assms(2,3)] show ?thesis by (simp add: Let_def)
qed

definition close_run :: "action list" where
  "close_run = [DoCall (Count ''c'' (f64_of_int 2) []) new_event, DoPush 0, Cancel]"

theorem close_terminates_witness:
  "let c = run_steps (client_step (demo_env 0)) (new_client ''w'' 0 []) close_run;
       c' = run_steps (client_step (demo_env 0)) c (BeginDrain # replicate (length (clQueue c)) Recv @ [EndDrain]) in
    clPhase c' = Exited \<and> clQueue c' = [] \<and> clBatch c' = []"
  unfolding Let_def
  by (rule close_terminates [unfolded Let_def])
    (simp_all add: close_run_def client_step_def client_call_def enqueue_def admits_def read_clock_def
      demo_env_def new_client_def push_event_def defaultQueueSize_def)

subsection \<open>Recovery\<close>

text \<open>Everything queued is due, the gate is past, and the worker has no batch of its own.\<close>

definition recovering :: "int \<Rightarrow> (payload list \<times> 'w) client \<Rightarrow> bool" where
  "recovering t c \<longleftrightarrow>
     clPhase c = Running \<and> clBatch c = [] \<and> \<not> clStopSending c \<and>
     (case clNextSend c of None \<Rightarrow> True | Some g \<Rightarrow> g \<le> t) \<and>
     (\<forall>r \<in> set (clRetry c). rbNextAttempt r \<le> t \<and> batchID (rbPayload r) \<noteq> [] \<and> \<not> payload_empty (rbPayload r))"

lemma flushRetryQueue_one:
  assumes "clRetry c = r # rest" and "\<not> clStopSending c" and "ig \<or> rbNextAttempt r \<le> fst (time_now env (clWorld c))"
  shows "\<exists>w. clock_star env (clWorld c) w \<and>
    (\<exists>w'. flushRetryQueue env ig c =
      (sendPayload env (rbPayload r) (rbAttempts r + 1) (c\<lparr>clRetry := rest, clWorld := w\<rparr>))\<lparr>clWorld := w'\<rparr> \<and>
      clock_star env
        (clWorld (sendPayload env (rbPayload r) (rbAttempts r + 1) (c\<lparr>clRetry := rest, clWorld := w\<rparr>))) w')"
proof -
  obtain now w where 1: "time_now env (clWorld c) = (now, w)" by fastforce
  let ?c2 = "sendPayload env (rbPayload r) (rbAttempts r + 1) (c\<lparr>clRetry := rest, clWorld := w\<rparr>)"
  obtain now' w' where 2: "time_now env (clWorld ?c2) = (now', w')" by fastforce
  have comm: "c\<lparr>clWorld := w, clRetry := rest\<rparr> = c\<lparr>clRetry := rest, clWorld := w\<rparr>" by simp
  have "retry_loop env ig 1 0 0 now (c\<lparr>clWorld := w\<rparr>) = ?c2\<lparr>clWorld := w'\<rparr>"
    using assms(1,3) 1 2
    by (subst retry_loop_step) (auto simp: comm retry_send_def read_clock_def retry_loop_step [where pr = "Suc 0"])
  then have "flushRetryQueue env ig c = ?c2\<lparr>clWorld := w'\<rparr>"
    using assms(1,2) 1
    by (cases rest) (simp_all add: flushRetryQueue_def read_clock_def Let_def defaultRetryFlushMaxSends_def)
  then show ?thesis using 1 2 by (intro exI [of _ w] conjI exI [of _ w']) simp_all
qed

lemma sendPayload_delivers:
  assumes ok: "\<forall>x. fst (transport_send env p x) = None" and p: "\<not> payload_empty p" "batchID p \<noteq> []"
    and stop: "\<not> clStopSending c" and gate: "gate_open env c"
  shows "\<exists>w. clock_star env (clWorld c) w \<and>
    sendPayload env p n c =
      c\<lparr>clBackoffAttempt := 0, clNextSend := None, clWorld := snd (transport_send env p w)\<rparr>"
proof -
  obtain d c2 where d: "deferForClientBackoff env p n c = (d, c2)" by fastforce
  from defer_eq [OF d] obtain w t where
    c2: "c2 = (if d then snd (enqueueRetryAt p (max 0 (n - 1)) t (c\<lparr>clWorld := w\<rparr>)) else c\<lparr>clWorld := w\<rparr>)"
    and w: "clock_star env (clWorld c) w" and nd: "d = (\<not> gate_open env c)" by blast
  obtain err w' where e: "transport_send env p w = (err, w')" by fastforce
  have "err = None" using ok [rule_format, of w] e by simp
  with e have e': "transport_send env p w = (None, w')" by simp
  have c2': "c2 = c\<lparr>clWorld := w\<rparr>" "\<not> d" using c2 nd gate by simp_all
  have "sendPayload env p n c = c\<lparr>clBackoffAttempt := 0, clNextSend := None, clWorld := w'\<rparr>"
    using p stop d c2' e' by (simp add: sendPayload_def resetTransientBackoff_def)
  then show ?thesis using w e' by (intro exI [of _ w]) simp
qed

lemma tick_delivers:
  fixes env :: "'w client_env"
  assumes rec: "recovering t c" and q: "clRetry c = r # rest"
    and ok: "\<forall>p x. fst (transport_send env p x) = None" and late: "\<forall>x. t \<le> fst (time_now env x)"
  shows "let c' = client_step (logged env) c Tick in
    recovering t c' \<and> clRetry c' = rest \<and> sent c' = sent c @ [rbPayload r]"
proof -
  let ?e = "logged env"
  have late': "\<forall>x. t \<le> fst (time_now ?e x)" and ok': "\<forall>x. fst (transport_send ?e (rbPayload r) x) = None"
    using late ok by (auto simp: logged_def case_prod_beta)
  have due: "rbNextAttempt r \<le> fst (time_now ?e (clWorld c))"
    using rec q late' [rule_format, of "clWorld c"] by (auto simp: recovering_def)
  obtain w w' where w: "clock_star ?e (clWorld c) w" and
    fl: "flushRetryQueue ?e False c =
      (sendPayload ?e (rbPayload r) (rbAttempts r + 1) (c\<lparr>clRetry := rest, clWorld := w\<rparr>))\<lparr>clWorld := w'\<rparr>" and
    w': "clock_star ?e
      (clWorld (sendPayload ?e (rbPayload r) (rbAttempts r + 1) (c\<lparr>clRetry := rest, clWorld := w\<rparr>))) w'"
    using flushRetryQueue_one [OF q, of False ?e] rec due by (auto simp: recovering_def)
  have gate: "gate_open ?e (c\<lparr>clRetry := rest, clWorld := w\<rparr>)"
    using rec late' [rule_format, of w] by (auto simp: gate_open_def recovering_def split: option.splits)
  let ?c1 = "c\<lparr>clRetry := rest, clWorld := w\<rparr>"
  have p: "\<not> payload_empty (rbPayload r)" "batchID (rbPayload r) \<noteq> []" "\<not> clStopSending ?c1"
    using rec q by (auto simp: recovering_def)
  from sendPayload_delivers [OF ok' p gate, of "rbAttempts r + 1"]
  obtain v where v: "clock_star ?e (clWorld ?c1) v" and
    sp: "sendPayload ?e (rbPayload r) (rbAttempts r + 1) ?c1 =
      ?c1\<lparr>clBackoffAttempt := 0, clNextSend := None, clWorld := snd (transport_send ?e (rbPayload r) v)\<rparr>"
    by blast
  have "fst w' = fst (snd (transport_send ?e (rbPayload r) v))"
    using clock_star_logged [OF w'] unfolding sp by simp
  also have "\<dots> = fst v @ [rbPayload r]" by (rule send_logged)
  also have "fst v = sent c" using clock_star_logged [OF v] clock_star_logged [OF w] by (simp add: sent_def)
  finally have "fst w' = sent c @ [rbPayload r]" .
  moreover have "client_step ?e c Tick =
      c\<lparr>clRetry := rest, clBackoffAttempt := 0, clNextSend := None, clWorld := w'\<rparr>"
    using rec by (simp add: client_step_def recovering_def flush_batch_def fl sp)
  ultimately show ?thesis using rec q by (simp add: Let_def recovering_def sent_def)
qed

text \<open>
  C11 (liveness). After an outage every waiting batch is delivered: once the transport accepts again,
  the clock is past the gate and past what the queued batches wait for, each tick gives the
  transport the oldest queued batch, so after \<open>n\<close> ticks the first \<open>n\<close> batches are delivered, in
  order and once each, and after as many ticks as there are batches the retry queue is empty.
\<close>

theorem retry_queue_recovers:
  fixes env :: "'w client_env"
  assumes "recovering t c" and "\<forall>p x. fst (transport_send env p x) = None" and "\<forall>x. t \<le> fst (time_now env x)"
    and "n \<le> length (clRetry c)"
  shows "let c' = run_steps (client_step (logged env)) c (replicate n Tick) in
    clRetry c' = drop n (clRetry c) \<and> sent c' = sent c @ map rbPayload (take n (clRetry c))"
  using assms(1,4)
proof (induction n arbitrary: c)
  case (Suc n)
  then obtain r rest where q: "clRetry c = r # rest" by (cases "clRetry c") auto
  let ?c1 = "client_step (logged env) c Tick"
  from tick_delivers [OF Suc.prems(1) q assms(2,3)]
  have c1: "recovering t ?c1" "clRetry ?c1 = rest" "sent ?c1 = sent c @ [rbPayload r]" by (simp_all add: Let_def)
  have "n \<le> length (clRetry ?c1)" using Suc.prems(2) q c1(2) by simp
  from Suc.IH [OF c1(1) this] show ?case by (simp add: Let_def c1 q)
qed simp

definition outage_client :: "(payload list \<times> go_error option list) client" where
  "outage_client = (new_client ''w'' 0 ([], []))
     \<lparr>clNextSend := Some 5,
      clRetry := [\<lparr>rbPayload = one_counter, rbAttempts = 1, rbNextAttempt = 3\<rparr>,
                  \<lparr>rbPayload = one_counter\<lparr>batchID := ''s-2''\<rparr>, rbAttempts = 0, rbNextAttempt = 5\<rparr>]\<rparr>"

definition healthy_env :: "int \<Rightarrow> go_error option list client_env" where
  "healthy_env now = (demo_env now)\<lparr>transport_send := \<lambda>p w. (None, w)\<rparr>"

theorem retry_queue_recovers_witness:
  "let c' = run_steps (client_step (logged (healthy_env 9))) outage_client (replicate 2 Tick) in
    clRetry c' = drop 2 (clRetry outage_client) \<and>
    sent c' = sent outage_client @ map rbPayload (take 2 (clRetry outage_client))"
  by (rule retry_queue_recovers [of 9])
    (simp_all add: recovering_def outage_client_def new_client_def healthy_env_def demo_env_def
      payload_empty_def one_counter_def)

subsection \<open>What the worker holds\<close>

text \<open>An event as the entry points build it, and as it may stand in a batch.\<close>

definition event_ok :: "event \<Rightarrow> bool" where
  "event_ok e \<longleftrightarrow>
     ename e \<noteq> [] \<and> [] \<notin> set (elabels e) \<and> (\<forall>l \<in> set (elabels e). label_key l \<noteq> ''workload'') \<and>
     (case etyp e of
        MtNone \<Rightarrow> False
      | MtUnique \<Rightarrow> (\<exists>n < 2 ^ 64. uniqueID e = fmt_nat 10 n)
      | _ \<Rightarrow> uniqueID e = [])"

definition typed_client :: "'w client \<Rightarrow> bool" where
  "typed_client c \<longleftrightarrow>
     (\<forall>e \<in> set (clPending c) \<union> set (clQueue c). event_ok e) \<and>
     (\<forall>e \<in> set (clBatch c). event_ok e \<and> etyp e \<noteq> MtTotal) \<and> retry_bounds (clRetry c)"

lemma borrowEvent_ok:
  assumes "metric \<noteq> []" and "\<not> hasWorkloadLabel labels" and "t \<noteq> MtNone" and "t \<noteq> MtUnique"
  shows "event_ok (borrowEvent (releaseEvent pooled) t metric v labels now)"
  using assms trim_labels_no_workload [OF assms(2)] trim_labels_not_Nil [of labels]
  by (auto simp: event_ok_def borrowEvent_def releaseEvent_def split: metricType.split)

lemma borrowUniqueEvent_ok:
  assumes "metric \<noteq> []" and "\<not> hasWorkloadLabel labels" and "n < 2 ^ 64"
  shows "event_ok (borrowUniqueEvent (releaseEvent pooled) metric (fmt_nat 10 n) labels now)"
  using assms trim_labels_no_workload [OF assms(2)] trim_labels_not_Nil [of labels]
  by (auto simp: event_ok_def borrowUniqueEvent_def borrowEvent_def)

lemma typed_clock: "typed_client c \<Longrightarrow> typed_client (snd (read_clock env c))"
  by (simp add: typed_client_def read_clock_def case_prod_beta)

lemma enqueue_typed:
  assumes "typed_client c" and "t \<noteq> MtNone" and "t \<noteq> MtUnique"
  shows "typed_client (enqueue env pooled t metric v labels c)"
  using assms typed_clock [OF assms(1), of env] borrowEvent_ok [OF _ _ assms(2,3)]
  by (auto simp: enqueue_def admits_def typed_client_def read_clock_def case_prod_beta)

lemma enqueueUnique_typed:
  assumes "typed_client c" and "n < 2 ^ 64"
  shows "typed_client (enqueueUnique env pooled metric (fmt_nat 10 n) labels c)"
  using assms typed_clock [OF assms(1), of env] borrowUniqueEvent_ok [OF _ _ assms(2)]
  by (auto simp: enqueueUnique_def admits_def typed_client_def read_clock_def case_prod_beta)

lemma allowValue_typed: "typed_client c \<Longrightarrow> typed_client (snd (allowValue env metric c))"
  by (simp add: allowValue_def typed_client_def read_clock_def case_prod_beta)

lemma client_call_typed:
  assumes "typed_client c"
  shows "typed_client (client_call env pooled k c)"
proof (cases k)
  case (CountUnique uid metric labels)
  obtain s ok where u: "canonicalUniqueID uid = (s, ok)" by fastforce
  show ?thesis
  proof (cases ok)
    case True
    then obtain n where "n < 2 ^ 64" "s = fmt_nat 10 n" using canonical_accepted [of uid s] u by auto
    then show ?thesis using enqueueUnique_typed [OF assms] u CountUnique True by (simp add: client_call_def)
  qed (use assms u CountUnique in \<open>simp add: client_call_def\<close>)
next
  case (Value metric v labels)
  then show ?thesis
    using enqueue_typed [OF allowValue_typed [OF assms]] allowValue_typed [OF assms]
    by (simp add: client_call_def case_prod_beta)
next
  case (ValueSparse metric v labels)
  then show ?thesis
    using enqueue_typed [OF allowValue_typed [OF assms]] allowValue_typed [OF assms]
    by (simp add: client_call_def case_prod_beta)
qed (use enqueue_typed [OF assms] in \<open>simp_all add: client_call_def\<close>)

lemma flush_batch_typed:
  assumes "typed_client c"
  shows "typed_client (flush_batch env c) \<and> clPhase (flush_batch env c) = clPhase c"
proof -
  have rb: "retry_bounds (clRetry c)" using assms by (simp add: typed_client_def)
  have "clPending (flush_batch env c) = clPending c"
    using flush_events_bounds [OF rb, of env "clBatch c"] by (simp add: flush_batch_def send_frame_def)
  then show ?thesis using assms flush_batch_bounds [OF rb, of env] by (simp add: typed_client_def)
qed

lemma flushRetryQueue_typed: "typed_client c \<Longrightarrow> typed_client (flushRetryQueue env ig c)"
  using flushRetryQueue_bounds [of c env ig] by (simp add: typed_client_def send_frame_def)

lemma applyTotal_typed:
  "fst (applyTotal ev totals limit) = Some e \<Longrightarrow> event_ok ev \<Longrightarrow> etyp ev = MtTotal \<Longrightarrow>
   event_ok e \<and> etyp e = MtCounter"
  by (auto simp: applyTotal_def Let_def event_ok_def split: if_split_asm option.split_asm)

lemma receive_typed:
  assumes "typed_client c" and "event_ok ev"
  shows "typed_client (receive env ev c)"
proof -
  have app: "typed_client (let c2 = c1\<lparr>clBatch := clBatch c1 @ [e]\<rparr> in
      if length (clBatch c2) \<ge> defaultMaxBatchSize then flush_batch env c2 else c2)"
    if "typed_client c1" "event_ok e" "etyp e \<noteq> MtTotal" for e c1
  proof -
    have "typed_client (c1\<lparr>clBatch := clBatch c1 @ [e]\<rparr>)" using that by (auto simp: typed_client_def)
    from this flush_batch_typed [OF this, of env] show ?thesis by (simp add: Let_def)
  qed
  have tot: "typed_client (c\<lparr>clTotals := t\<rparr>)" for t using assms(1) by (simp add: typed_client_def)
  show ?thesis
  proof (cases "etyp ev = MtTotal")
    case True
    then show ?thesis
      using app [OF tot] tot applyTotal_typed [OF _ assms(2) True]
      by (auto simp: receive_def Let_def case_prod_beta split: option.split)
  next
    case False
    then show ?thesis using app [OF assms False] by (simp add: receive_def Let_def)
  qed
qed

lemma typed_phase: "typed_client (c\<lparr>clPhase := p\<rparr>) = typed_client c"
  by (simp add: typed_client_def)

lemma push_event_typed: "event_ok ev \<Longrightarrow> typed_client c \<Longrightarrow> typed_client (push_event ev c)"
  by (simp add: push_event_def typed_client_def)

lemma client_step_typed [step_inv]:
  assumes "typed_client c"
  shows "typed_client (client_step env c a)"
proof (cases a)
  case (DoPush i)
  show ?thesis
  proof (cases "i < length (clPending c)")
    case True
    let ?c1 = "c\<lparr>clPending := take i (clPending c) @ drop (i + 1) (clPending c)\<rparr>"
    have "event_ok (clPending c ! i)"
      using assms nth_mem [OF True] unfolding typed_client_def by blast
    moreover have "set (clPending ?c1) \<subseteq> set (clPending c)"
      by (auto dest: in_set_takeD in_set_dropD)
    then have "typed_client ?c1"
      using assms unfolding typed_client_def by (simp del: set_append) blast
    ultimately have "typed_client (push_event (clPending c ! i) ?c1)" by (rule push_event_typed)
    then show ?thesis using True DoPush by (simp add: client_step_def)
  qed (use DoPush assms in \<open>simp add: client_step_def\<close>)
next
  case Recv
  show ?thesis
  proof (cases "clQueue c")
    case (Cons ev rest)
    have "typed_client (receive env ev (c\<lparr>clQueue := rest\<rparr>))"
      using Cons assms by (intro receive_typed) (simp_all add: typed_client_def)
    then show ?thesis using Recv Cons assms by (simp add: client_step_def)
  qed (use Recv assms in \<open>simp add: client_step_def\<close>)
next
  case EndDrain
  have "typed_client (flushRetryQueue env True (flush_batch env c))"
    using flushRetryQueue_typed [OF conjunct1 [OF flush_batch_typed [OF assms]]] .
  then show ?thesis using assms by (simp add: client_step_def EndDrain typed_phase)
next
  case Tick
  then show ?thesis
    using flushRetryQueue_typed [of "flush_batch env c" env False] flush_batch_typed [OF assms, of env] assms
    by (simp add: client_step_def)
next
  case (DoCall k pooled)
  then show ?thesis using client_call_typed [OF assms, of env pooled k] by (simp add: client_step_def)
next
  case Cancel
  then show ?thesis using assms by (simp add: client_step_def typed_client_def)
next
  case BeginDrain
  then show ?thesis using assms by (simp add: client_step_def typed_client_def)
qed

interpretation typed_run: inv_steps "client_step env" typed_client "\<lambda>a. True" for env
  by unfold_locales (rule client_step_typed)

text \<open>
  C21 (type). Every event that a client ever queues or batches is well formed, whatever the callers
  pass and whatever the pool returns: a non-empty metric name, no empty label, no label with the
  reserved key \<open>workload\<close>, a kind; a unique event carries the decimal text of a number below
  \<open>2 ^ 64\<close> and no other event carries an ID. A batch never holds a total: the builder, which would
  drop it, gets counters, values and uniques only.
\<close>

theorem events_well_formed:
  fixes env :: "'w client_env" and wl :: string and now :: int and w :: 'w and es :: "action list"
  defines "c \<equiv> run_steps (client_step env) (new_client wl now w) es"
  shows "(\<forall>e \<in> set (clPending c) \<union> set (clQueue c) \<union> set (clBatch c).
      ename e \<noteq> [] \<and> [] \<notin> set (elabels e) \<and> \<not> (\<exists>l \<in> set (elabels e). label_key l = ''workload'') \<and>
      etyp e \<noteq> MtNone \<and> (uniqueID e \<noteq> []) = (etyp e = MtUnique) \<and>
      (uniqueID e = [] \<or> (\<exists>n < 2 ^ 64. uniqueID e = fmt_nat 10 n))) \<and>
    (\<forall>e \<in> set (clBatch c). etyp e \<in> {MtCounter, MtValue, MtUnique})"
proof -
  have "typed_client (new_client wl now w)"
    by (simp add: typed_client_def new_client_def retry_bounds_def retry_ok_def)
  then have c: "typed_client c" unfolding c_def by (rule typed_run.run_keeps) simp
  have ok: "ename e \<noteq> [] \<and> [] \<notin> set (elabels e) \<and> \<not> (\<exists>l \<in> set (elabels e). label_key l = ''workload'') \<and>
      etyp e \<noteq> MtNone \<and> (uniqueID e \<noteq> []) = (etyp e = MtUnique) \<and>
      (uniqueID e = [] \<or> (\<exists>n < 2 ^ 64. uniqueID e = fmt_nat 10 n))" if "event_ok e" for e
    using that by (cases "etyp e") (auto simp: event_ok_def)
  have b: "etyp e \<in> {MtCounter, MtValue, MtUnique}" if "event_ok e" "etyp e \<noteq> MtTotal" for e
    using that by (cases "etyp e") (auto simp: event_ok_def)
  have "\<forall>e \<in> set (clPending c) \<union> set (clQueue c) \<union> set (clBatch c). event_ok e"
    and "\<forall>e \<in> set (clBatch c). event_ok e \<and> etyp e \<noteq> MtTotal"
    using c unfolding typed_client_def by blast+
  then show ?thesis using ok b by blast
qed

theorem events_well_formed_witness:
  "let c = run_steps (client_step (demo_env 0)) (new_client ''w'' 0 []) [DoCall (Total ''t'' 0 ['' a=b '', []]) new_event, DoPush 0] in
    (\<forall>e \<in> set (clPending c) \<union> set (clQueue c) \<union> set (clBatch c).
      ename e \<noteq> [] \<and> [] \<notin> set (elabels e) \<and> \<not> (\<exists>l \<in> set (elabels e). label_key l = ''workload'') \<and>
      etyp e \<noteq> MtNone \<and> (uniqueID e \<noteq> []) = (etyp e = MtUnique) \<and>
      (uniqueID e = [] \<or> (\<exists>n < 2 ^ 64. uniqueID e = fmt_nat 10 n))) \<and>
    (\<forall>e \<in> set (clBatch c). etyp e \<in> {MtCounter, MtValue, MtUnique})"
  unfolding Let_def by (rule events_well_formed)

subsection \<open>Totals become counters\<close>

lemma increases_Cons:
  "increases p (x # xs) = (case p of Some q \<Rightarrow> if q < x then [x - q] else [] | None \<Rightarrow> []) @ increases (Some x) xs"
  by (cases p) simp_all

lemma total_run_int:
  assumes "totals_hold totals prev" and "\<forall>s p. prev s = Some p \<longrightarrow> \<bar>p\<bar> < 2 ^ 52"
    and "\<forall>e \<in> set es. total_ok v e" and "0 < limit"
    and "length totals + card (series_of ` set es - dom prev) \<le> limit"
  shows "map evalue (filter (\<lambda>e. series_of e = s) (total_run limit totals es)) =
    map f64_of_int (increases (prev s) (map v (filter (\<lambda>e. series_of e = s) es)))"
  using assms(1,2,3,5)
proof (induction es arbitrary: totals prev)
  case (Cons e es)
  let ?k = "series_of e"
  let ?new = "prev(?k \<mapsto> v e)"
  have ve: "total_ok v e" using Cons.prems(3) by simp
  have room: "length totals < limit" if "prev ?k = None"
  proof -
    have "?k \<in> series_of ` set (e # es) - dom prev" using that by auto
    then have "0 < card (series_of ` set (e # es) - dom prev)" by (auto simp: card_gt_0_iff)
    then show ?thesis using Cons.prems(4) by linarith
  qed
  have small: "\<And>p. prev ?k = Some p \<Longrightarrow> \<bar>p\<bar> < 2 ^ 52" using Cons.prems(2) by blast
  from applyTotal_int [OF Cons.prems(1) ve assms(4) room small] obtain totals' where
    t': "totals_hold totals' ?new" "length totals' = length totals + (if prev ?k = None then 1 else 0)"
    and ap: "applyTotal e totals limit =
      (case prev ?k of Some p \<Rightarrow> if p < v e then Some (e\<lparr>etyp := MtCounter, evalue := f64_of_int (v e - p)\<rparr>) else None
       | None \<Rightarrow> None, totals')" by blast
  have new_small: "\<forall>s p. ?new s = Some p \<longrightarrow> \<bar>p\<bar> < 2 ^ 52"
    using Cons.prems(2) ve by (auto simp: total_ok_def)
  have sub: "series_of ` set es - dom ?new = series_of ` set es - dom prev - {?k}" by auto
  have "length totals' + card (series_of ` set es - dom ?new) \<le> limit"
  proof (cases "prev ?k")
    case None
    have "series_of ` set (e # es) - dom prev = insert ?k (series_of ` set es - dom prev - {?k})"
      using None by auto
    then have "card (series_of ` set (e # es) - dom prev) = Suc (card (series_of ` set es - dom ?new))"
      unfolding sub by (metis card_insert_disjoint finite_Diff finite_imageI finite_set DiffD2 insertI1)
    then show ?thesis using Cons.prems(4) t'(2) None by simp
  next
    case (Some p)
    then have "series_of ` set (e # es) - dom prev = series_of ` set es - dom ?new" unfolding sub by auto
    then show ?thesis using Cons.prems(4) t'(2) Some by simp
  qed
  from Cons.IH [OF t'(1) new_small _ this] Cons.prems(3)
  have IH: "map evalue (filter (\<lambda>e. series_of e = s) (total_run limit totals' es)) =
      map f64_of_int (increases (?new s) (map v (filter (\<lambda>e. series_of e = s) es)))" by simp
  have keep: "series_of (e\<lparr>etyp := t, evalue := x\<rparr>) = ?k" for t x by (simp add: series_of_def)
  show ?case
  proof (cases "?k = s")
    case True
    then show ?thesis using ap IH by (cases "prev s") (auto simp: increases_Cons keep)
  next
    case False
    then show ?thesis using ap IH by (cases "prev ?k") (auto simp: keep)
  qed
qed simp

lemma total_run_counters: "e \<in> set (total_run limit totals es) \<Longrightarrow> etyp e = MtCounter"
proof (induction es arbitrary: totals)
  case (Cons a es)
  have "fst (applyTotal a totals limit) = Some x \<Longrightarrow> etyp x = MtCounter" for x
    by (auto simp: applyTotal_def Let_def split: if_split_asm option.split_asm)
  note one = this
  show ?case
  proof (cases "applyTotal a totals limit")
    case (Pair r totals')
    then show ?thesis
      using Cons.prems Cons.IH [of totals'] one [of "the r"] by (auto split: option.split_asm)
  qed
qed simp

text \<open>
  C22 (functional). What a run of totals turns into: for integer totals of any number of interleaved
  series (at most as many as the limit), the counters of each series are exactly the increases
  between its consecutive totals; the first total of a series is its baseline, and a total that
  falls is a new baseline, both emitting nothing.
\<close>

theorem totals_emit_increases:
  assumes "\<forall>e \<in> set es. nul_free (ename e) (elabels e) \<and> evalue e = f64_of_int (v e) \<and> \<bar>v e\<bar> < 2 ^ 52"
    and "card (series_of ` set es) \<le> defaultMaxTotalSeries"
  shows "map evalue (filter (\<lambda>e. series_of e = s) (total_run defaultMaxTotalSeries [] es)) =
      map f64_of_int (increases None (map v (filter (\<lambda>e. series_of e = s) es))) \<and>
    (\<forall>e \<in> set (total_run defaultMaxTotalSeries [] es). etyp e = MtCounter)"
proof -
  have "totals_hold [] Map.empty" by (simp add: totals_hold_def)
  moreover have "\<forall>e \<in> set es. total_ok v e" using assms(1) by (simp add: total_ok_def)
  moreover have "0 < defaultMaxTotalSeries" by (simp add: defaultMaxTotalSeries_def)
  ultimately show ?thesis
    using total_run_int [of "[]" Map.empty es v defaultMaxTotalSeries s] assms(2) total_run_counters by simp
qed

definition total_event :: "string \<Rightarrow> int \<Rightarrow> event" where
  "total_event m x = borrowEvent new_event MtTotal m (f64_of_int x) [] x"

lemma total_event_simps [simp]:
  "ename (total_event m x) = m" "elabels (total_event m x) = []" "evalue (total_event m x) = f64_of_int x"
  "ets (total_event m x) = x"
  by (simp_all add: total_event_def borrowEvent_def)

definition sample_totals :: "event list" where
  "sample_totals = [total_event ''a'' 10, total_event ''b'' 3, total_event ''a'' 15, total_event ''a'' 4, total_event ''a'' 6]"

theorem totals_emit_increases_witness:
  "map evalue (filter (\<lambda>e. series_of e = (''a'', [])) (total_run defaultMaxTotalSeries [] sample_totals)) =
      map f64_of_int [5, 2]"
proof -
  have ok: "\<forall>e \<in> set sample_totals. nul_free (ename e) (elabels e) \<and> evalue e = f64_of_int (ets e) \<and>
      \<bar>ets e\<bar> < 2 ^ 52"
    by (simp add: sample_totals_def nul_free_def)
  have card: "card (series_of ` set sample_totals) \<le> defaultMaxTotalSeries"
    by (simp add: sample_totals_def series_of_def card_insert_if defaultMaxTotalSeries_def)
  have amounts: "map ets (filter (\<lambda>e. series_of e = (''a'', [])) sample_totals) = [10, 15, 4, 6]"
    by (simp add: sample_totals_def series_of_def)
  show ?thesis using totals_emit_increases [OF ok card, of "(''a'', [])"] unfolding amounts by simp
qed

text \<open>
  C40 (error). A total that is not a number is not rejected: after a baseline it becomes a counter
  that is not a number, it is kept as the next baseline, and the next total, a good one, becomes a
  counter that is not a number as well.
\<close>

theorem nan_total_is_counted:
  assumes "map_of totals (seriesKey m ls) = Some prev" and "ename e = m" and "elabels e = ls"
    and "ename e' = m" and "elabels e' = ls" and "evalue e = NaN" and "0 < limit"
  shows "\<exists>totals'. applyTotal e totals limit = (Some (e\<lparr>etyp := MtCounter, evalue := NaN\<rparr>), totals') \<and>
    fst (applyTotal e' totals' limit) = Some (e'\<lparr>etyp := MtCounter, evalue := NaN\<rparr>)"
proof -
  have nan: "\<not> (NaN :: f64) < x" "\<not> x < (NaN :: f64)" "NaN - x = (NaN :: f64)" "x - NaN = (NaN :: f64)"
    "\<not> (NaN :: f64) \<le> x" for x
    by (cases x; simp add: minus_f64_def)+
  show ?thesis
    using assms by (intro exI [of _ "AList.update (seriesKey m ls) NaN totals"]) (simp add: applyTotal_def Let_def nan)
qed

theorem nan_total_is_counted_witness:
  "\<exists>totals'. applyTotal ((total_event ''a'' 0)\<lparr>evalue := NaN\<rparr>) [(seriesKey ''a'' [], 0)] 2048 =
      (Some ((total_event ''a'' 0)\<lparr>evalue := NaN, etyp := MtCounter, evalue := NaN\<rparr>), totals') \<and>
    fst (applyTotal (total_event ''a'' 7) totals' 2048) = Some ((total_event ''a'' 7)\<lparr>etyp := MtCounter, evalue := NaN\<rparr>)"
  by (rule nan_total_is_counted [of _ "''a''" "[]" 0]) simp_all

end
