(* ===== verification/Delivery.thy ===== *)
theory Delivery
  imports ClientRuns
begin

section \<open>The client, the transport and the ingester together (client.go, transport.go, line_protocol_v4.go)\<close>

text \<open>
  The components composed: the client's steps over the HTTP transport with its encoder and dictionary,
  over a service that reads the grammar. What the client asks of the code behind \<open>Transport.Send\<close> is
  the locale \<open>transport_contract\<close>; a transport whose receiver applies a batch ID once fulfils its
  extension \<open>dedup_transport\<close>, and the client instrumented with what it sent and what was acknowledged
  gives the contract again (the sublocale \<open>audited\<close>). Both are interpreted on the client over the HTTP
  transport and such a service.
\<close>

subsection \<open>What calls put in\<close>

text \<open>Batch IDs are digits, letters and a dash.\<close>

definition plain_id :: "string \<Rightarrow> bool" where
  "plain_id s \<longleftrightarrow> s \<noteq> [] \<and> list_all plain_char s"

lemma plain_char_digit: "n < 36 \<Longrightarrow> plain_char (digit_char n)"
  by (auto simp: plain_char_def digit_char_def)

lemma plain_fmt_nat36: "list_all plain_char (fmt_nat 36 n)"
proof (induction "36 :: nat" n rule: fmt_nat.induct)
  case (1 n)
  then show ?case by (subst fmt_nat.simps) (auto simp: plain_char_digit)
qed

lemma plain_dash [simp]: "plain_char (CHR ''-'')"
  by (simp add: plain_char_def)

lemma plain_session [simp]: "plain_id (newBatchSessionID now)"
  by (simp add: plain_id_def newBatchSessionID_def fmt_base36_def plain_fmt_nat36)

lemma plain_batch_id: "plain_id (clBatchSession c) \<Longrightarrow> plain_id (fst (nextBatchID c))"
  by (simp add: plain_id_def nextBatchID_def Let_def plain_fmt_nat36)

lemma trim_plain_id: "plain_id s \<Longrightarrow> trim_space s = s"
  by (intro trim_space_plain) (simp_all add: plain_id_def list_all_iff)

lemma build_payload_built:
  assumes "buildPayload env es c = (Some p, c')"
  shows "\<exists>b. add_events (series_hash env) es newBatchBuilder = Some b \<and> p = (bPayload b)\<lparr>batchID := fst (nextBatchID c)\<rparr>"
proof -
  obtain b where b: "add_events (series_hash env) es newBatchBuilder = Some b"
      "event_effect (series_hash env) es newBatchBuilder b"
    using add_events_effect [OF wf_newBatchBuilder] by blast
  then have "batchID (bPayload b) = []" by (simp add: event_effect_def newBatchBuilder_def)
  then show ?thesis
    using assms b(1) by (auto simp: buildPayload_def build_def case_prod_beta split: if_split_asm)
qed


text \<open>The event that an accepted call puts into the pending list, at the time of its clock reading.\<close>

definition call_event :: "call \<Rightarrow> int \<Rightarrow> event" where
  "call_event k now =
     (case k of
        Count metric delta labels \<Rightarrow> borrowEvent new_event MtCounter metric delta labels now
      | CountUnique uid metric labels \<Rightarrow>
          borrowUniqueEvent new_event metric (fst (canonicalUniqueID uid)) labels now
      | Total metric amount labels \<Rightarrow> borrowEvent new_event MtTotal metric amount labels now
      | Value metric value labels \<Rightarrow> borrowEvent new_event MtValue metric value labels now
      | ValueSparse metric value labels \<Rightarrow>
          borrowEvent new_event MtValue metric value (labels @ [Label metaLabelFillMode metaFillModeCarry]) now)"

lemma enqueue_pending:
  "clPending (enqueue env pooled t m v ls c) = clPending c \<or>
   (\<exists>now. clPending (enqueue env pooled t m v ls c) = clPending c @ [borrowEvent new_event t m v ls now])"
  by (auto simp: enqueue_def read_clock_def borrow_released case_prod_beta)

lemma enqueueUnique_pending:
  "clPending (enqueueUnique env pooled m u ls c) = clPending c \<or>
   (\<exists>now. clPending (enqueueUnique env pooled m u ls c) = clPending c @ [borrowUniqueEvent new_event m u ls now])"
  by (auto simp: enqueueUnique_def read_clock_def borrow_released case_prod_beta)

lemma allowValue_pending: "clPending (snd (allowValue env m c)) = clPending c"
  by (simp add: allowValue_def read_clock_def case_prod_beta)

lemma client_call_pending:
  "clPending (client_call env pooled k c) = clPending c \<or>
   (\<exists>now. clPending (client_call env pooled k c) = clPending c @ [call_event k now])"
proof (cases k)
  case (CountUnique uid m ls)
  then show ?thesis
    using enqueueUnique_pending [of env pooled m "fst (canonicalUniqueID uid)" ls c]
    by (auto simp: client_call_def call_event_def case_prod_beta)
next
  case (Value m v ls)
  then show ?thesis
    using enqueue_pending [of env pooled MtValue m v ls "snd (allowValue env m c)"]
    by (simp add: client_call_def call_event_def case_prod_beta allowValue_pending)
next
  case (ValueSparse m v ls)
  then show ?thesis
    using enqueue_pending [of env pooled MtValue m v _ "snd (allowValue env m c)"]
    by (simp add: client_call_def call_event_def case_prod_beta allowValue_pending)
qed (use enqueue_pending in \<open>simp_all add: client_call_def call_event_def\<close>)

text \<open>Calls, events and batches that can stand on the wire.\<close>

definition call_safe :: "call \<Rightarrow> bool" where
  "call_safe k =
     (case k of
        Count metric _ labels \<Rightarrow> series_safe metric labels
      | CountUnique _ metric labels \<Rightarrow> series_safe metric labels
      | Total metric _ labels \<Rightarrow> series_safe metric labels
      | Value metric value labels \<Rightarrow> series_safe metric labels \<and> f64_wf value
      | ValueSparse metric value labels \<Rightarrow> series_safe metric labels \<and> f64_wf value)"

definition event_safe :: "event \<Rightarrow> bool" where
  "event_safe e \<longleftrightarrow>
     series_safe (ename e) (elabels e) \<and> (etyp e = MtValue \<longrightarrow> f64_wf (evalue e)) \<and> wire_safe (uniqueID e)"

definition batch_safe :: "payload \<Rightarrow> bool" where
  "batch_safe p \<longleftrightarrow> payload_safe p \<and> plain_id (batchID p)"

lemma series_safe_trim: "series_safe m ls \<Longrightarrow> series_safe m (trim_labels ls)"
  using set_trim_space
  by (fastforce simp: series_safe_def nul_free_def wire_safe_def list_all_iff trim_labels_set)

lemma series_safe_sparse:
  "series_safe m ls \<Longrightarrow> series_safe m (ls @ [Label metaLabelFillMode metaFillModeCarry])"
proof -
  have "CHR 0x00 \<notin> set (Label metaLabelFillMode metaFillModeCarry)" by code_simp
  then show "series_safe m ls \<Longrightarrow> ?thesis"
    using Label_wire_safe by (simp add: series_safe_def nul_free_def)
qed

lemma canonical_wire_safe: "wire_safe (fst (canonicalUniqueID u))"
proof -
  have "wire_safe (fmt_nat 10 n)" for n using fmt_nat_digits [of n] by (auto simp: wire_safe_def is_digit_def)
  then show ?thesis by (simp add: canonical_value wire_safe_def split: option.split)
qed

lemma call_event_safe: "call_safe k \<Longrightarrow> event_safe (call_event k now)"
  using series_safe_trim series_safe_sparse canonical_wire_safe
  by (cases k) (auto simp: call_safe_def call_event_def event_safe_def borrowEvent_def borrowUniqueEvent_def
      new_event_def wire_safe_def)

lemma applyTotal_safe: "event_safe e \<Longrightarrow> fst (applyTotal e totals n) = Some e' \<Longrightarrow> event_safe e'"
  by (auto simp: applyTotal_def Let_def event_safe_def split: if_split_asm option.split_asm)

text \<open>Whatever holds of the name and labels of every event holds of every counter built from them.\<close>

lemma ref_addCounter_series:
  assumes "\<forall>c \<in> set cs. Q (cMetric c) (cLabels c)" and "Q (ename e) (elabels e)"
    and "\<forall>p \<in> set regs. p < length cs"
  shows "(\<forall>c \<in> set (fst (ref_addCounter e (cs, regs))). Q (cMetric c) (cLabels c)) \<and>
    (\<forall>p \<in> set (snd (ref_addCounter e (cs, regs))). p < length (fst (ref_addCounter e (cs, regs))))"
proof (cases "find (\<lambda>p. same_series (cs ! p) e) regs")
  case None
  then show ?thesis using assms by (auto simp: ref_addCounter_def less_SucI)
next
  case (Some p)
  then have "p < length cs" using assms(3) find_SomeD [OF Some] by auto
  then have "Q (cMetric (cs ! p)) (cLabels (cs ! p))" using assms(1) by simp
  then show ?thesis
    using Some assms(1,3) set_update_subset_insert [of cs p "agg_add (cs ! p) e"]
    by (auto simp: ref_addCounter_def)
qed

lemma ref_fold_series:
  assumes "\<forall>e \<in> set es. Q (ename e) (elabels e)"
  shows "(\<forall>c \<in> set (fst (fold ref_addCounter es ([], []))). Q (cMetric c) (cLabels c)) \<and>
    (\<forall>p \<in> set (snd (fold ref_addCounter es ([], []))). p < length (fst (fold ref_addCounter es ([], []))))"
  using assms
proof (induction es rule: rev_induct)
  case (snoc e es)
  then show ?case
    using ref_addCounter_series [of "fst (fold ref_addCounter es ([], []))" Q e "snd (fold ref_addCounter es ([], []))"]
    by simp
qed simp

lemma built_counters:
  assumes "event_effect hash es newBatchBuilder b"
  shows "pCounters (bPayload b) = fst (fold ref_addCounter (counters_of es) ([], []))"
  using assms by (metis abs_counters_def event_effect_def fst_conv new_builder_simps(5))

lemma dedup_on_subset: "set (dedup_on f seen xs) \<subseteq> set xs"
  by (induction xs arbitrary: seen) auto

lemma built_safe:
  assumes es: "\<forall>e \<in> set es. event_safe e" and i: "plain_id i"
    and b: "add_events hash es newBatchBuilder = Some b"
  shows "batch_safe ((bPayload b)\<lparr>batchID := i\<rparr>)"
proof -
  have eff: "event_effect hash es newBatchBuilder b" using add_events_effect [of hash newBatchBuilder es] b by auto
  have "\<forall>e \<in> set (counters_of es). series_safe (ename e) (elabels e)"
    using es by (simp add: counters_of_def event_safe_def)
  from ref_fold_series [OF this]
  have "\<forall>c \<in> set (pCounters (bPayload b)). series_safe (cMetric c) (cLabels c)"
    by (simp add: built_counters [OF eff])
  moreover have "\<forall>v \<in> set (pValues (bPayload b)). series_safe (vMetric v) (vLabels v) \<and> f64_wf (vValue v)"
    using eff es by (auto simp: event_effect_def values_of_def event_value_def event_safe_def)
  moreover have "\<forall>u \<in> set (pUniques (bPayload b)). series_safe (uMetric u) (uLabels u) \<and> wire_safe (uUniqueID u)"
    using eff es dedup_on_subset [of uniqueKey "[]" "uniques_of es"]
    by (fastforce simp: event_effect_def uniques_of_def event_unique_def event_safe_def)
  ultimately show ?thesis using i by (simp add: batch_safe_def payload_safe_def)
qed

subsection \<open>What the client asks of a transport\<close>

text \<open>
  The interface between the client and the code behind \<open>Transport.Send\<close> and the clock: \<open>W\<close> is what the
  provider keeps of its world, as long as it is only given payloads that satisfy \<open>K\<close>; \<open>E\<close> is what the
  accepted calls \<open>C\<close> guarantee of every event, and enough for the payloads built from them. The client
  proves for every provider that \<open>W\<close> holds after any run.
\<close>

definition contract_inv ::
  "('w \<Rightarrow> bool) \<Rightarrow> (payload \<Rightarrow> bool) \<Rightarrow> (event \<Rightarrow> bool) \<Rightarrow> 'w client \<Rightarrow> bool" where
  "contract_inv W K E c \<longleftrightarrow>
     W (clWorld c) \<and> plain_id (clBatchSession c) \<and>
     (\<forall>e \<in> set (clPending c) \<union> set (clQueue c) \<union> set (clBatch c). E e) \<and>
     (\<forall>r \<in> set (clRetry c). K (rbPayload r)) \<and> retry_bounds (clRetry c)"

definition call_ok :: "(call \<Rightarrow> bool) \<Rightarrow> action \<Rightarrow> bool" where
  "call_ok C a = (case a of DoCall k pooled \<Rightarrow> C k | _ \<Rightarrow> True)"

locale transport_contract =
  fixes env :: "'w client_env" and W :: "'w \<Rightarrow> bool" and K :: "payload \<Rightarrow> bool"
    and E :: "event \<Rightarrow> bool" and C :: "call \<Rightarrow> bool"
  assumes clock_keeps: "W w \<Longrightarrow> W (snd (time_now env w))"
    and send_keeps: "W w \<Longrightarrow> K p \<Longrightarrow> \<not> payload_empty p \<Longrightarrow> W (snd (transport_send env p w))"
    and call_events: "C k \<Longrightarrow> E (call_event k now)"
    and built: "\<forall>e \<in> set es. E e \<Longrightarrow> plain_id i \<Longrightarrow>
      add_events (series_hash env) es newBatchBuilder = Some b \<Longrightarrow> K ((bPayload b)\<lparr>batchID := i\<rparr>)"
    and total_events: "E e \<Longrightarrow> fst (applyTotal e totals n) = Some e' \<Longrightarrow> E e'"
begin

lemma clock_star_keeps: "clock_star env w w' \<Longrightarrow> W w \<Longrightarrow> W w'"
  unfolding clock_star_def by (induction rule: rtranclp_induct) (auto intro: clock_keeps)

lemma sendPayload_keeps:
  assumes inv: "contract_inv W K E c" and p: "K p" "batchID p \<noteq> []" "0 \<le> n"
  shows "contract_inv W K E (sendPayload env p n c)"
proof -
  let ?c' = "sendPayload env p n c"
  obtain r where r: "send_result p n c r ?c'" "world_result env p r (clWorld c) (clWorld ?c')"
      "is_send r \<longrightarrow> gate_open env c \<and> \<not> clStopSending c \<and> \<not> payload_empty p"
    using sendPayload_result [OF p(2)] by blast
  have "W (clWorld ?c')"
    using r(2,3) inv p(1) send_keeps clock_star_keeps
    by (auto simp: world_result_def contract_inv_def split: if_split_asm)
  moreover have "\<forall>x \<in> set (clRetry ?c'). K (rbPayload x)"
    using send_result_retry [OF r(1)] inv p(1) by (auto simp: contract_inv_def)
  ultimately show ?thesis
    using inv sendPayload_bounds [OF _ p(2,3), of c env] by (simp add: contract_inv_def send_frame_def)
qed

lemma read_clock_keeps: "contract_inv W K E c \<Longrightarrow> read_clock env c = (now, c') \<Longrightarrow> contract_inv W K E c'"
  using clock_keeps [of "clWorld c"] by (auto simp: contract_inv_def read_clock_def split: prod.split_asm)

lemma retry_send_keeps:
  assumes inv: "contract_inv W K E c" and i: "i < length (clRetry c)"
  shows "contract_inv W K E (retry_send env i c)"
proof -
  have r: "clRetry c ! i \<in> set (clRetry c)" using i by simp
  have "contract_inv W K E (removed i c)"
    using inv retry_okI_remove
    by (auto simp: contract_inv_def removed_def retry_bounds_def dest: in_set_takeD in_set_dropD)
  from sendPayload_keeps [OF this, of "rbPayload (clRetry c ! i)" "rbAttempts (clRetry c ! i) + 1"]
  show ?thesis
    using inv r by (auto simp: retry_send_def removed_def contract_inv_def retry_bounds_def retry_ok_def)
qed

lemma flush_events_keeps:
  assumes inv: "contract_inv W K E c" and es: "\<forall>e \<in> set es. E e"
  shows "contract_inv W K E (flush_events env es c)"
proof -
  have plain: "plain_id (fst (nextBatchID c))" using inv by (simp add: contract_inv_def plain_batch_id)
  have seq: "contract_inv W K E (snd (nextBatchID c))" using inv by (simp add: contract_inv_def nextBatchID_def Let_def)
  from build_payload_result [of env es c] show ?thesis
  proof (elim disjE exE conjE)
    fix p assume p: "buildPayload env es c = (Some p, snd (nextBatchID c))" "batchID p = fst (nextBatchID c)"
    have "K p" using build_payload_built [OF p(1)] built [OF es plain] by auto
    then have "contract_inv W K E (sendPayload env p 1 (snd (nextBatchID c)))"
      using sendPayload_keeps [OF seq] p(2) nextBatchID_not_Nil [of c] by simp
    then show ?thesis using inv p(1) by (simp add: flush_events_def)
  qed (use inv in \<open>simp add: flush_events_def\<close>)
qed

lemma flush_batch_keeps: "contract_inv W K E c \<Longrightarrow> contract_inv W K E (flush_batch env c)"
  using flush_events_keeps [of c "clBatch c"] by (simp add: flush_batch_def) (simp add: contract_inv_def)

lemma flushRetryQueue_keeps: "contract_inv W K E c \<Longrightarrow> contract_inv W K E (flushRetryQueue env ig c)"
  by (rule flushRetryQueue_inv [where P = "contract_inv W K E"]) (auto intro: retry_send_keeps read_clock_keeps)

lemma receive_keeps:
  assumes inv: "contract_inv W K E c" and ev: "E ev"
  shows "contract_inv W K E (receive env ev c)"
proof -
  have app: "contract_inv W K E (let c2 = c1\<lparr>clBatch := clBatch c1 @ [e]\<rparr> in
      if length (clBatch c2) \<ge> defaultMaxBatchSize then flush_batch env c2 else c2)"
    if "contract_inv W K E c1" "E e" for e c1
  proof -
    have "contract_inv W K E (c1\<lparr>clBatch := clBatch c1 @ [e]\<rparr>)" using that by (auto simp: contract_inv_def)
    then show ?thesis by (simp add: Let_def flush_batch_keeps)
  qed
  have tot: "contract_inv W K E (c\<lparr>clTotals := t\<rparr>)" for t using inv by (simp add: contract_inv_def)
  show ?thesis
    using app [OF inv ev] app [OF tot] tot total_events [OF ev]
    by (auto simp: receive_def Let_def case_prod_beta split: option.split)
qed

lemma client_step_keeps:
  assumes inv: "contract_inv W K E c" and a: "call_ok C a"
  shows "contract_inv W K E (client_step env c a)"
proof (cases a)
  case (DoCall k pooled)
  obtain ps l w where f: "client_call env pooled k c = c\<lparr>clPending := ps, clLimiter := l, clWorld := w\<rparr>"
      "clock_star env (clWorld c) w"
    using client_call_frame [of env c pooled k] unfolding call_frame_def by blast
  have "\<forall>e \<in> set ps. E e"
    using client_call_pending [of env pooled k c] call_events [of k] a inv f(1)
    by (auto simp: DoCall call_ok_def contract_inv_def)
  then show ?thesis
    using inv f clock_star_keeps [OF f(2)] DoCall by (auto simp: client_step_def contract_inv_def)
next
  case (DoPush i)
  show ?thesis
  proof (cases "i < length (clPending c)")
    case True
    have "E (clPending c ! i)" using inv nth_mem [OF True] by (simp add: contract_inv_def)
    then show ?thesis
      using inv True DoPush
      by (auto simp: client_step_def push_event_def contract_inv_def dest: in_set_takeD in_set_dropD)
  qed (use inv DoPush in \<open>simp add: client_step_def\<close>)
next
  case Tick
  then show ?thesis using inv by (simp add: client_step_def flush_batch_keeps flushRetryQueue_keeps)
next
  case Recv
  show ?thesis
  proof (cases "clQueue c")
    case (Cons ev rest)
    then have "contract_inv W K E (c\<lparr>clQueue := rest\<rparr>)" "E ev" using inv by (auto simp: contract_inv_def)
    then show ?thesis using Recv Cons inv receive_keeps by (simp add: client_step_def)
  qed (use Recv inv in \<open>simp add: client_step_def\<close>)
next
  case EndDrain
  have "contract_inv W K E (flushRetryQueue env True (flush_batch env c))"
    by (intro flushRetryQueue_keeps flush_batch_keeps inv)
  then show ?thesis using inv EndDrain by (simp add: client_step_def) (simp add: contract_inv_def)
qed (use inv in \<open>simp_all add: client_step_def contract_inv_def\<close>)

lemma run_keeps_world:
  assumes "contract_inv W K E c" and "\<forall>a \<in> set es. call_ok C a"
  shows "contract_inv W K E (run_steps (client_step env) c es)"
  using assms by (induction es arbitrary: c) (auto intro: client_step_keeps)

end

lemma contract_inv_new: "W w \<Longrightarrow> contract_inv W K E (new_client wl now w)"
  by (simp add: contract_inv_def new_client_def retry_bounds_def retry_ok_def)

subsection \<open>An ingest service that deduplicates by batch ID\<close>

text \<open>
  The README and the comment in \<open>ensureBatchID\<close> promise that retries reuse the batch identity so that a
  supporting ingester can deduplicate ambiguous replays. The service modelled here is such an ingester: it
  reads bodies with the reader of the grammar, applies a batch ID once, and answers a replay with
  success. \<open>fault\<close> chooses for every request, by its number, what happens on the way: it may be served,
  served after the service lost its definitions, lost before it arrives, applied without an answer
  reaching the client, or answered in place of the service (a proxy, a limit), before or after it was
  applied. \<open>igClock n\<close> is what the \<open>n\<close>th reading of the clock gives.
\<close>

datatype fault =
    Served
  | Forgetting
  | Unreachable go_error
  | Unanswered go_error
  | Refused int string
  | Misreported int string

record ingest =
  igReader :: reader
  igApplied :: "(string \<times> read_event list) list"
  igRequests :: nat
  igClock :: "nat \<Rightarrow> int"
  igReadings :: nat

definition apply_request :: "httpRequest \<Rightarrow> ingest \<Rightarrow> httpResponse \<times> ingest" where
  "apply_request req s =
     (let b = header_get batchIDHeaderName (rqHeader req) in
      if b \<in> fst ` set (igApplied s) then (response 200 [], s)
      else case read_body (igReader s) (rqBody req) of
        Inr (rd', evs) \<Rightarrow> (response 200 [], s\<lparr>igReader := rd', igApplied := igApplied s @ [(b, evs)]\<rparr>)
      | Inl UnknownSeries \<Rightarrow> (response 409 ''unknown_series_dictionary'', s)
      | Inl BadLine \<Rightarrow> (response 400 ''bad_line'', s))"

definition ingest_do ::
  "(nat \<Rightarrow> fault) \<Rightarrow> httpRequest \<Rightarrow> ingest \<Rightarrow> (go_error + httpResponse) \<times> ingest" where
  "ingest_do fault req s =
     (let s1 = s\<lparr>igRequests := igRequests s + 1\<rparr> in
      case fault (igRequests s) of
        Served \<Rightarrow> (let (resp, s2) = apply_request req s1 in (Inr resp, s2))
      | Forgetting \<Rightarrow> (let (resp, s2) = apply_request req (s1\<lparr>igReader := empty_reader\<rparr>) in (Inr resp, s2))
      | Unreachable e \<Rightarrow> (Inl e, s1)
      | Unanswered e \<Rightarrow> (Inl e, snd (apply_request req s1))
      | Refused status body \<Rightarrow> (Inr (response status body), s1)
      | Misreported status body \<Rightarrow> (Inr (response status body), snd (apply_request req s1)))"

text \<open>Nobody answers with a success in place of the service.\<close>

definition fault_ok :: "fault \<Rightarrow> bool" where
  "fault_ok f =
     (case f of
        Refused status _ \<Rightarrow> \<not> (200 \<le> status \<and> status < 300)
      | Misreported status _ \<Rightarrow> \<not> (200 \<le> status \<and> status < 300)
      | _ \<Rightarrow> True)"

definition ingest_clock :: "ingest \<Rightarrow> int \<times> ingest" where
  "ingest_clock s = (igClock s (igReadings s), s\<lparr>igReadings := igReadings s + 1\<rparr>)"

definition ingest_env :: "(nat \<Rightarrow> fault) \<Rightarrow> (f64 \<Rightarrow> int) \<Rightarrow> ingest environment" where
  "ingest_env fault oob =
     \<lparr>http_do = ingest_do fault, clock = ingest_clock, request_url = Inr, json_code = Some,
      int64_oob = oob\<rparr>"

text \<open>The client over the HTTP transport that \<open>NewClient\<close> wraps, over this service.\<close>

definition ingest_client ::
  "(nat \<Rightarrow> fault) \<Rightarrow> (f64 \<Rightarrow> int) \<Rightarrow> workloadHTTPTransport \<Rightarrow>
     (string \<Rightarrow> string list \<Rightarrow> u64) \<Rightarrow> ingest transportState client_env" where
  "ingest_client fault oob wt hash =
     \<lparr>transport_send = \<lambda>p ts. Send_workload (ingest_env fault oob) (Some wt) (Some p) ts,
      time_now = \<lambda>ts. (let (now, s) = ingest_clock (tsWorld ts) in (now, ts\<lparr>tsWorld := s\<rparr>)),
      series_hash = hash\<rparr>"

definition ingest_start :: "(nat \<Rightarrow> int) \<Rightarrow> ingest transportState" where
  "ingest_start clk =
     \<lparr>tsDict = None,
      tsWorld = \<lparr>igReader = empty_reader, igApplied = [], igRequests = 0, igClock = clk, igReadings = 0\<rparr>\<rparr>"

abbreviation applied :: "ingest transportState \<Rightarrow> (string \<times> read_event list) list" where
  "applied ts \<equiv> igApplied (tsWorld ts)"

abbreviation applied_ids :: "ingest transportState \<Rightarrow> string set" where
  "applied_ids ts \<equiv> fst ` set (applied ts)"

text \<open>The service as the reader of the grammar sees it, and the invariant it inherits.\<close>

definition ingest_view :: "ingest transportState \<Rightarrow> server transportState" where
  "ingest_view ts =
     \<lparr>tsDict = tsDict ts,
      tsWorld = \<lparr>svReader = igReader (tsWorld ts), svLog = [], svClock = igClock (tsWorld ts),
        svReadings = igReadings (tsWorld ts)\<rparr>\<rparr>"

definition ingest_inv :: "ingest transportState \<Rightarrow> bool" where
  "ingest_inv ts \<longleftrightarrow> server_inv (ingest_view ts) \<and> distinct (map fst (applied ts))"

lemma server_inv_later:
  assumes "server_inv ts"
  shows "server_inv (ts\<lparr>tsWorld := (tsWorld ts)\<lparr>svReadings := Suc (svReadings (tsWorld ts))\<rparr>\<rparr>)"
proof -
  have "past_session ((tsWorld ts)\<lparr>svReadings := Suc (svReadings (tsWorld ts))\<rparr>) sess"
    if "past_session (tsWorld ts) sess" for sess
    using that by (auto simp: past_session_def intro: less_SucI)
  then show ?thesis using assms by (cases "tsDict ts") (auto simp: server_inv_def Let_def)
qed

lemma ingest_inv_start: "inj clk \<Longrightarrow> ingest_inv (ingest_start clk)"
  using server_inv_start [of clk] by (simp add: ingest_inv_def ingest_view_def ingest_start_def start_state_def)

lemma ingest_inv_clock:
  assumes "ingest_inv ts"
  shows "ingest_inv (ts\<lparr>tsWorld := snd (ingest_clock (tsWorld ts))\<rparr>)"
  using server_inv_later [of "ingest_view ts"] assms
  by (simp add: ingest_inv_def ingest_view_def ingest_clock_def)

lemma ingest_inv_reset:
  assumes "ingest_inv ts"
  shows "ingest_inv (resetDictionaryLocked (ingest_env fault oob) ts)"
    and "applied (resetDictionaryLocked (ingest_env fault oob) ts) = applied ts"
    and "\<exists>st. tsDict (resetDictionaryLocked (ingest_env fault oob) ts) = Some st"
proof -
  let ?g = "resetDictionaryLocked (grammar_env oob) (ingest_view ts)"
  have "server_inv ?g" using assms server_inv_reset(1) by (simp add: ingest_inv_def)
  then have "server_inv (ingest_view (resetDictionaryLocked (ingest_env fault oob) ts))"
    by (simp add: ingest_view_def resetDictionaryLocked_def grammar_env_def ingest_env_def ingest_clock_def)
  then show "ingest_inv (resetDictionaryLocked (ingest_env fault oob) ts)"
    using assms by (simp add: ingest_inv_def resetDictionaryLocked_def ingest_env_def ingest_clock_def)
qed (simp_all add: resetDictionaryLocked_def ingest_env_def ingest_clock_def)

lemma ingest_inv_ensure:
  assumes "ingest_inv ts"
  shows "ingest_inv (ensureDictionaryLocked (ingest_env fault oob) ts)"
    and "applied (ensureDictionaryLocked (ingest_env fault oob) ts) = applied ts"
    and "\<exists>st. tsDict (ensureDictionaryLocked (ingest_env fault oob) ts) = Some st"
  using assms ingest_inv_reset [OF assms]
  by (simp_all add: ensureDictionaryLocked_def split: option.split)

text \<open>What one request, and one send, may do to the applied batches.\<close>

definition applies :: "(f64 \<Rightarrow> int) \<Rightarrow> payload \<Rightarrow> ingest transportState \<Rightarrow> ingest transportState \<Rightarrow> bool" where
  "applies oob p ts ts' \<longleftrightarrow>
     applied ts' = applied ts \<or>
     batchID p \<notin> applied_ids ts \<and> applied ts' = applied ts @ [(batchID p, payload_events oob p)]"

lemma applies_refl [simp]: "applied ts' = applied ts \<Longrightarrow> applies oob p ts ts'"
  by (simp add: applies_def)

lemma applies_trans: "applies oob p a b \<Longrightarrow> applies oob p b c \<Longrightarrow> applies oob p a c"
  by (auto simp: applies_def)

lemma applies_ids: "applies oob p a b \<Longrightarrow> x \<in> applied_ids a \<Longrightarrow> x \<in> applied_ids b"
  by (auto simp: applies_def)

lemma request_batch_header:
  "plain_id b \<Longrightarrow> header_get batchIDHeaderName (request_headers t w b) = b"
  using trim_plain_id [of b]
  by (simp add: request_headers_def Let_def header_get_def header_set_def plain_id_def)

text \<open>
  A body that encodes \<open>p\<close>, for the reader held and for the empty one: it is read, to a reader that is
  within the invariant, or has an undefined number, which takes \<open>d\<close>, a dictionary with entries.
\<close>

definition encoded_for ::
  "(f64 \<Rightarrow> int) \<Rightarrow> payload \<Rightarrow> bool \<Rightarrow> ingest transportState \<Rightarrow> string \<Rightarrow> (reader \<Rightarrow> reader) \<Rightarrow> bool" where
  "encoded_for oob p d ts body rd' \<longleftrightarrow>
     ingest_inv ts \<and> body \<noteq> [] \<and>
     (\<forall>rd \<in> {igReader (tsWorld ts), empty_reader}.
        (read_body rd body = Inr (rd' rd, payload_events oob p) \<or> read_body rd body = Inl UnknownSeries \<and> d) \<and>
        ingest_inv (ts\<lparr>tsWorld := (tsWorld ts)\<lparr>igReader := rd' rd\<rparr>\<rparr>))"

lemma ingest_encode:
  assumes inv: "ingest_inv ts" and d: "tsDict ts = Some st"
    and safe: "payload_safe p" and ne: "\<not> payload_empty p"
    and enc: "encode_locked (ingest_env fault oob) (Some p) ts = (body, ts2)"
  shows "\<exists>rd'. tsWorld ts2 = tsWorld ts \<and> encoded_for oob p (series st \<noteq> []) ts2 body rd'"
proof -
  let ?view = "tsWorld (ingest_view ts)"
  have sv: "server_inv \<lparr>tsDict = Some st, tsWorld = ?view\<rparr>" and dis: "distinct (map fst (applied ts))"
    using inv d by (simp_all add: ingest_inv_def ingest_view_def)
  have fg: "server_inv \<lparr>tsDict = Some st, tsWorld = forget ?view\<rparr>" using server_inv_forget [OF sv] by simp
  obtain body1 st1 rd1 where
    one: "encodeLinePayloadV4 oob (Some p) (Some st) False = (body1, Some st1)" "body1 \<noteq> []"
      "server_inv \<lparr>tsDict = Some st1, tsWorld = ?view\<rparr>"
      "read_body (svReader ?view) body1 = Inr (rd1, payload_events oob p) \<or>
       read_body (svReader ?view) body1 = Inl UnknownSeries \<and> series st \<noteq> []"
      "server_inv \<lparr>tsDict = Some st1, tsWorld = ?view\<lparr>svReader := rd1\<rparr>\<rparr>"
    by (rule encode_round [OF sv safe ne, of oob])
  obtain body2 st2 rd2 where
    two: "encodeLinePayloadV4 oob (Some p) (Some st) False = (body2, Some st2)" "body2 \<noteq> []"
      "server_inv \<lparr>tsDict = Some st2, tsWorld = forget ?view\<rparr>"
      "read_body (svReader (forget ?view)) body2 = Inr (rd2, payload_events oob p) \<or>
       read_body (svReader (forget ?view)) body2 = Inl UnknownSeries \<and> series st \<noteq> []"
      "server_inv \<lparr>tsDict = Some st2, tsWorld = (forget ?view)\<lparr>svReader := rd2\<rparr>\<rparr>"
    by (rule encode_round [OF fg safe ne, of oob])
  have eq: "body2 = body1" "st2 = st1" using one(1) two(1) by simp_all
  have ts2: "ts2 = \<lparr>tsDict = Some st1, tsWorld = tsWorld ts\<rparr>" and body: "body = body1"
    using enc one(1) d by (auto simp: encode_locked_def ingest_env_def)
  let ?rd' = "\<lambda>rd. if rd = igReader (tsWorld ts) then rd1 else rd2"
  have "(read_body rd body = Inr (?rd' rd, payload_events oob p) \<or> read_body rd body = Inl UnknownSeries \<and> series st \<noteq> []) \<and>
      ingest_inv (ts2\<lparr>tsWorld := (tsWorld ts2)\<lparr>igReader := ?rd' rd\<rparr>\<rparr>)"
    if rd: "rd \<in> {igReader (tsWorld ts), empty_reader}" for rd
    using rd one(4,5) two(4,5) eq dis by (auto simp: body ts2 ingest_inv_def ingest_view_def forget_def)
  moreover have "ingest_inv ts2" using one(3) dis by (simp add: ts2 ingest_inv_def ingest_view_def)
  ultimately have "encoded_for oob p (series st \<noteq> []) ts2 body ?rd'"
    using one(2) body by (simp add: encoded_for_def ts2)
  then show ?thesis by (auto simp: ts2)
qed

text \<open>A request with such a body, taken by the service.\<close>

lemma ingest_request:
  assumes enc: "encoded_for oob p d ts (rqBody req) rd'" and b: "header_get batchIDHeaderName (rqHeader req) = batchID p"
    and run: "apply_request req ((tsWorld ts)\<lparr>igRequests := n, igReader := rd\<rparr>) = (resp, s')"
    and rd: "rd \<in> {igReader (tsWorld ts), empty_reader}"
  defines "ts' \<equiv> ts\<lparr>tsWorld := s'\<rparr>"
  shows "ingest_inv ts' \<and> applies oob p ts ts' \<and>
    (200 \<le> rsStatusCode resp \<and> rsStatusCode resp < 300 \<longrightarrow> batchID p \<in> applied_ids ts')"
proof -
  let ?s = "(tsWorld ts)\<lparr>igRequests := n, igReader := rd\<rparr>"
  have known: "ingest_inv (ts\<lparr>tsWorld := ?s\<rparr>)"
    using enc rd server_inv_forget [of "ingest_view ts"]
    by (auto simp: encoded_for_def ingest_inv_def ingest_view_def forget_def)
  show ?thesis
  proof (cases "batchID p \<in> applied_ids ts")
    case True
    then have "s' = ?s" using run b by (auto simp: apply_request_def)
    then show ?thesis using known True by (simp add: ts'_def applies_def)
  next
    case False
    have r: "read_body rd (rqBody req) = Inr (rd' rd, payload_events oob p) \<or> read_body rd (rqBody req) = Inl UnknownSeries"
      and i: "ingest_inv (ts\<lparr>tsWorld := (tsWorld ts)\<lparr>igReader := rd' rd\<rparr>\<rparr>)"
      using enc rd unfolding encoded_for_def by blast+
    from r show ?thesis
    proof
      assume "read_body rd (rqBody req) = Inr (rd' rd, payload_events oob p)"
      then have s': "s' = ?s\<lparr>igReader := rd' rd, igApplied := applied ts @ [(batchID p, payload_events oob p)]\<rparr>"
        using run b False by (auto simp: apply_request_def)
      have "ingest_inv ts'"
        using i False by (simp add: ts'_def s' ingest_inv_def ingest_view_def image_iff)
      then show ?thesis using False by (simp add: ts'_def s' applies_def)
    next
      assume "read_body rd (rqBody req) = Inl UnknownSeries"
      then have "s' = ?s" "rsStatusCode resp = 409"
        using run b False by (auto simp: apply_request_def response_def)
      then show ?thesis using known by (simp add: ts'_def applies_def)
    qed
  qed
qed

text \<open>One request for an encoded payload, whatever happens to it.\<close>

definition faults_ok :: "(nat \<Rightarrow> fault) \<Rightarrow> bool" where
  "faults_ok fault \<longleftrightarrow> (\<forall>n. fault_ok (fault n))"

lemma ingest_post:
  assumes enc: "encoded_for oob p d ts body rd'" and b: "plain_id (batchID p)" and f: "faults_ok fault"
    and post: "sendBody (ingest_env fault oob) t body w (batchID p) ts = ((result, err), ts')"
  shows "ingest_inv ts' \<and> applies oob p ts ts' \<and> (err = None \<longrightarrow> batchID p \<in> applied_ids ts')"
proof -
  let ?req = "\<lparr>rqURL = htEndpoint t, rqHeader = request_headers t w (batchID p), rqBody = body\<rparr>"
  let ?s = "tsWorld ts" and ?n = "igRequests (tsWorld ts) + 1"
  obtain r s' where r: "ingest_do fault ?req ?s = (r, s')" by fastforce
  have ts': "ts' = ts\<lparr>tsWorld := s'\<rparr>"
    using post r by (auto simp: sendBody_def ingest_env_def Let_def split: sum.split_asm prod.split_asm if_split_asm)
  have acked: "\<exists>resp. r = Inr resp \<and> 200 \<le> rsStatusCode resp \<and> rsStatusCode resp < 300" if "err = None"
    using post r that by (auto simp: sendBody_def ingest_env_def Let_def split: sum.split_asm prod.split_asm if_split_asm)
  have hb: "header_get batchIDHeaderName (rqHeader ?req) = batchID p" using b request_batch_header by simp
  have enc': "encoded_for oob p d ts (rqBody ?req) rd'" using enc by simp
  note step = ingest_request [OF enc' hb, where n = ?n]
  have keep: "ingest_inv (ts\<lparr>tsWorld := ?s\<lparr>igRequests := ?n\<rparr>\<rparr>) \<and> applies oob p ts (ts\<lparr>tsWorld := ?s\<lparr>igRequests := ?n\<rparr>\<rparr>)"
    using enc by (simp add: encoded_for_def ingest_inv_def ingest_view_def applies_def)
  have ok: "fault_ok (fault (igRequests ?s))" using f by (simp add: faults_ok_def)
  obtain resp s2 where a: "apply_request ?req (?s\<lparr>igRequests := ?n, igReader := igReader ?s\<rparr>) = (resp, s2)" by fastforce
  obtain resp0 s0 where a0: "apply_request ?req (?s\<lparr>igRequests := ?n, igReader := empty_reader\<rparr>) = (resp0, s0)" by fastforce
  note taken = step [OF a] step [OF a0]
  show ?thesis
  proof (cases "fault (igRequests ?s)")
    case Served
    then have "r = Inr resp" "s' = s2" using r a by (simp_all add: ingest_do_def Let_def)
    then show ?thesis using taken(1) acked by (auto simp: ts')
  next
    case Forgetting
    then have "r = Inr resp0" "s' = s0" using r a0 by (simp_all add: ingest_do_def Let_def)
    then show ?thesis using taken(2) acked by (auto simp: ts')
  next
    case (Unreachable e)
    then have "r = Inl e" "s' = ?s\<lparr>igRequests := ?n\<rparr>" using r by (simp_all add: ingest_do_def Let_def)
    then show ?thesis using keep acked by (auto simp: ts')
  next
    case (Unanswered e)
    then have "r = Inl e" "s' = s2" using r a by (simp_all add: ingest_do_def Let_def)
    then show ?thesis using taken(1) acked by (auto simp: ts')
  next
    case (Refused status x)
    then have "r = Inr (response status x)" "s' = ?s\<lparr>igRequests := ?n\<rparr>" using r by (simp_all add: ingest_do_def Let_def)
    then show ?thesis using keep acked ok Refused by (auto simp: ts' fault_ok_def response_def)
  next
    case (Misreported status x)
    then have "r = Inr (response status x)" "s' = s2" using r a by (simp_all add: ingest_do_def Let_def)
    then show ?thesis using taken(1) acked ok Misreported by (auto simp: ts' fault_ok_def response_def)
  qed
qed

lemma ingest_send:
  assumes inv: "ingest_inv ts" and f: "faults_ok fault" and b: "plain_id (batchID p)"
    and safe: "payload_safe p" and ne: "\<not> payload_empty p"
    and t: "htEndpoint t \<noteq> []" and w: "validateWorkload w = None"
    and send: "send_http (ingest_env fault oob) (Some t) (Some p) w ts = (err, ts')"
  shows "ingest_inv ts' \<and> applies oob p ts ts' \<and> (err = None \<longrightarrow> batchID p \<in> applied_ids ts')"
proof -
  let ?env = "ingest_env fault oob" and ?ts1 = "ensureDictionaryLocked (ingest_env fault oob) ts"
  note en = ingest_inv_ensure [OF inv, of fault oob]
  obtain st1 where d1: "tsDict ?ts1 = Some st1" using en(3) by blast
  obtain body ts2 where e: "encode_locked ?env (Some p) ?ts1 = (body, ts2)" by fastforce
  obtain result err3 ts3 where s: "sendBody ?env t body w (batchID p) ts2 = ((result, err3), ts3)"
    by (metis prod.exhaust)
  obtain body' ts4 where e': "encode_locked ?env (Some p) (resetDictionaryLocked ?env ts3) = (body', ts4)" by fastforce
  obtain result' err5 ts5 where s': "sendBody ?env t body' w (batchID p) ts4 = ((result', err5), ts5)"
    by (metis prod.exhaust)
  obtain rd1 where r1: "tsWorld ts2 = tsWorld ?ts1" "encoded_for oob p (series st1 \<noteq> []) ts2 body rd1"
    using ingest_encode [OF en(1) d1 safe ne e] by blast
  note p1 = ingest_post [OF r1(2) b f s]
  note re = ingest_inv_reset [OF conjunct1 [OF p1], of fault oob]
  obtain st4 where d4: "tsDict (resetDictionaryLocked ?env ts3) = Some st4" using re(3) by blast
  obtain rd2 where r2: "tsWorld ts4 = tsWorld (resetDictionaryLocked ?env ts3)"
      "encoded_for oob p (series st4 \<noteq> []) ts4 body' rd2"
    using ingest_encode [OF re(1) d4 safe ne e'] by blast
  note p2 = ingest_post [OF r2(2) b f s']
  have nb: "body \<noteq> []" "body' \<noteq> []" using r1(2) r2(2) by (simp_all add: encoded_for_def)
  have a3: "applies oob p ts ts3" using p1 r1(1) en(2) by (simp add: applies_def)
  have a5: "applies oob p ts ts5"
    by (rule applies_trans [OF a3]) (use p2 r2(1) re(2) in \<open>simp add: applies_def\<close>)
  have r5: "ingest_inv (resetDictionaryLocked ?env ts5)" "applied (resetDictionaryLocked ?env ts5) = applied ts5"
    using ingest_inv_reset [of ts5] p2 by simp_all
  show ?thesis
    using send p1 p2 a3 a5 re r5 nb
    by (auto simp: send_http_eq [OF t w ne e s e' s'] applies_def split: if_split_asm)
qed

subsection \<open>A transport that applies batches once\<close>

text \<open>
  The contract of delivery: a provider with a store of applied batches, which a send of \<open>p\<close> may extend
  by the rendering of \<open>p\<close> under a batch ID that is not yet there, and must contain when it reports
  success. The client instrumented with the payloads it sent and the payloads that were acknowledged
  gives the same contract with a stronger invariant: the store is a function of what was sent.
\<close>

definition acked :: "'w client_env \<Rightarrow> (payload list \<times> 'w) client_env" where
  "acked env =
     \<lparr>transport_send = \<lambda>p (acks, w). let (err, w') = transport_send env p w in
        (err, (if err = None then acks @ [p] else acks, w')),
      time_now = \<lambda>(acks, w). let (now, w') = time_now env w in (now, (acks, w')),
      series_hash = series_hash env\<rparr>"

definition store_of_sent ::
  "('w \<Rightarrow> bool) \<Rightarrow> ('w \<Rightarrow> (string \<times> 'e list) list) \<Rightarrow> (payload \<Rightarrow> 'e list) \<Rightarrow>
     payload list \<times> payload list \<times> 'w \<Rightarrow> bool" where
  "store_of_sent W store render x \<longleftrightarrow>
     (case x of (l, acks, w) \<Rightarrow>
        W w \<and> distinct (map fst (store w)) \<and>
        set (store w) \<subseteq> (\<lambda>p. (batchID p, render p)) ` set l \<and>
        set acks \<subseteq> set l \<and> batchID ` set acks \<subseteq> fst ` set (store w))"

lemma series_hash_instrumented [simp]:
  "series_hash (logged env) = series_hash env" "series_hash (acked env) = series_hash env"
  by (simp_all add: logged_def acked_def)

locale dedup_transport = transport_contract env W K E C
  for env :: "'w client_env" and W :: "'w \<Rightarrow> bool" and K :: "payload \<Rightarrow> bool"
    and E :: "event \<Rightarrow> bool" and C :: "call \<Rightarrow> bool" +
  fixes store :: "'w \<Rightarrow> (string \<times> 'e list) list" and render :: "payload \<Rightarrow> 'e list"
  assumes clock_store: "W w \<Longrightarrow> store (snd (time_now env w)) = store w"
    and send_store: "W w \<Longrightarrow> K p \<Longrightarrow> \<not> payload_empty p \<Longrightarrow> transport_send env p w = (err, w') \<Longrightarrow>
      store w' = store w \<or> batchID p \<notin> fst ` set (store w) \<and> store w' = store w @ [(batchID p, render p)]"
    and send_acked: "W w \<Longrightarrow> K p \<Longrightarrow> \<not> payload_empty p \<Longrightarrow> transport_send env p w = (None, w') \<Longrightarrow>
      batchID p \<in> fst ` set (store w')"
begin

lemma audit_clock:
  "store_of_sent W store render x \<Longrightarrow> store_of_sent W store render (snd (time_now (logged (acked env)) x))"
proof (cases x)
  case (fields l acks w)
  then show "store_of_sent W store render x \<Longrightarrow> ?thesis"
    using clock_keeps [of w] clock_store [of w]
    by (simp add: store_of_sent_def logged_def acked_def case_prod_beta)
qed

lemma audit_send:
  assumes x: "store_of_sent W store render x" and p: "K p" "\<not> payload_empty p"
  shows "store_of_sent W store render (snd (transport_send (logged (acked env)) p x))"
proof (cases x)
  case (fields l acks w)
  obtain err w' where s: "transport_send env p w = (err, w')" by fastforce
  have w: "W w" "W w'" using x fields p send_keeps [of w p] s by (simp_all add: store_of_sent_def)
  have "snd (transport_send (logged (acked env)) p x) = (l @ [p], if err = None then acks @ [p] else acks, w')"
    by (simp add: fields logged_def acked_def s)
  moreover have "distinct (map fst (store w'))" "set (store w') \<subseteq> (\<lambda>p. (batchID p, render p)) ` set (l @ [p])"
      "fst ` set (store w) \<subseteq> fst ` set (store w')"
    using x fields send_store [OF w(1) p s] by (auto simp: store_of_sent_def)
  moreover from this(3) have "batchID ` set acks \<subseteq> fst ` set (store w')"
    using x fields by (simp add: store_of_sent_def) (elim conjE; erule (1) order_trans)
  then have "batchID ` set (if err = None then acks @ [p] else acks) \<subseteq> fst ` set (store w')"
    using send_acked [OF w(1) p, of w'] s by simp
  moreover have "set (if err = None then acks @ [p] else acks) \<subseteq> set (l @ [p])"
    using x fields by (auto simp: store_of_sent_def)
  ultimately show ?thesis using w(2) by (simp add: store_of_sent_def)
qed

sublocale audited: transport_contract "logged (acked env)" "store_of_sent W store render" K E C
  using audit_clock audit_send call_events built total_events
  by unfold_locales auto

end

text \<open>The service behind the HTTP transport fulfils the contract.\<close>

definition ingest_ok :: "(nat \<Rightarrow> fault) \<Rightarrow> workloadHTTPTransport \<Rightarrow> ingest transportState \<Rightarrow> bool" where
  "ingest_ok fault wt ts \<longleftrightarrow>
     faults_ok fault \<and> ingest_inv ts \<and> validateWorkload (wtWorkload wt) = None \<and>
     (case wtBase wt of Some t \<Rightarrow> htEndpoint t \<noteq> [] | None \<Rightarrow> False)"

lemma ingest_client_send:
  assumes "ingest_ok fault wt ts" and "batch_safe p" and "\<not> payload_empty p"
    and send: "transport_send (ingest_client fault oob wt hash) p ts = (err, ts')"
  shows "ingest_ok fault wt ts' \<and> applies oob p ts ts' \<and> (err = None \<longrightarrow> batchID p \<in> applied_ids ts')"
proof -
  obtain t where t: "wtBase wt = Some t" "htEndpoint t \<noteq> []"
    using assms(1) by (auto simp: ingest_ok_def split: option.split_asm)
  then have "send_http (ingest_env fault oob) (Some t) (Some p) (wtWorkload wt) ts = (err, ts')"
    using send by (simp add: ingest_client_def Send_workload_def)
  from ingest_send [OF _ _ _ _ assms(3) t(2) _ this] show ?thesis
    using assms(1,2) t by (simp add: ingest_ok_def batch_safe_def)
qed

lemma ingest_client_clock:
  "ingest_ok fault wt ts \<Longrightarrow> ingest_ok fault wt (snd (time_now (ingest_client fault oob wt hash) ts)) \<and>
    applied (snd (time_now (ingest_client fault oob wt hash) ts)) = applied ts"
  using ingest_inv_clock [of ts]
  by (simp add: ingest_ok_def ingest_client_def case_prod_beta) (simp add: ingest_clock_def)

lemma ingest_client_hash [simp]: "series_hash (ingest_client fault oob wt hash) = hash"
  by (simp add: ingest_client_def)

interpretation ingest_delivery: dedup_transport "ingest_client fault oob wt hash" "ingest_ok fault wt"
    batch_safe event_safe call_safe applied "payload_events oob"
  for fault oob wt hash
proof
  fix w p assume "ingest_ok fault wt w" "batch_safe p" "\<not> payload_empty p"
  from ingest_client_send [OF this, of oob hash "fst (transport_send (ingest_client fault oob wt hash) p w)"]
  show "ingest_ok fault wt (snd (transport_send (ingest_client fault oob wt hash) p w))" by simp
next
  fix w p err w' assume "ingest_ok fault wt w" "batch_safe p" "\<not> payload_empty p"
    "transport_send (ingest_client fault oob wt hash) p w = (err, w')"
  from ingest_client_send [OF this]
  show "applied w' = applied w \<or> batchID p \<notin> applied_ids w \<and> applied w' = applied w @ [(batchID p, payload_events oob p)]"
    by (simp add: applies_def)
next
  fix w p w' assume "ingest_ok fault wt w" "batch_safe p" "\<not> payload_empty p"
    "transport_send (ingest_client fault oob wt hash) p w = (None, w')"
  from ingest_client_send [OF this] show "batchID p \<in> applied_ids w'" by simp
qed (use ingest_client_clock call_event_safe built_safe applyTotal_safe in \<open>simp_all\<close>)

subsection \<open>A service that answers\<close>

text \<open>When every request is answered by the service itself, forgotten definitions or not, every send succeeds.\<close>

definition answering :: "(nat \<Rightarrow> fault) \<Rightarrow> bool" where
  "answering fault \<longleftrightarrow> (\<forall>n. fault n \<in> {Served, Forgetting})"

lemma answering_ok: "answering fault \<Longrightarrow> faults_ok fault"
proof -
  have "f \<in> {Served, Forgetting} \<Longrightarrow> fault_ok f" for f by (auto simp: fault_ok_def)
  then show "answering fault \<Longrightarrow> faults_ok fault" by (simp add: answering_def faults_ok_def)
qed

lemma apply_request_answer:
  assumes "read_body (igReader s) (rqBody req) = Inr (rd', evs) \<or> read_body (igReader s) (rqBody req) = Inl UnknownSeries \<and> d"
  shows "fst (apply_request req s) = response 200 [] \<or>
    fst (apply_request req s) = response 409 ''unknown_series_dictionary'' \<and> d"
  using assms by (auto simp: apply_request_def Let_def)

lemma answering_post:
  assumes enc: "encoded_for oob p d ts body rd'" and f: "answering fault"
    and post: "sendBody (ingest_env fault oob) t body w b ts = ((result, err), ts')"
  shows "err = None \<or> srStatusCode result = 409 \<and> srResponseCode result = ''unknown_series_dictionary'' \<and> d"
proof -
  let ?req = "\<lparr>rqURL = htEndpoint t, rqHeader = request_headers t w b, rqBody = body\<rparr>"
  let ?s1 = "(tsWorld ts)\<lparr>igRequests := igRequests (tsWorld ts) + 1\<rparr>"
  have "fault (igRequests (tsWorld ts)) \<in> {Served, Forgetting}" using f by (simp add: answering_def)
  then obtain rd where rd: "rd \<in> {igReader (tsWorld ts), empty_reader}"
    and do: "ingest_do fault ?req (tsWorld ts) =
      (Inr (fst (apply_request ?req (?s1\<lparr>igReader := rd\<rparr>))), snd (apply_request ?req (?s1\<lparr>igReader := rd\<rparr>)))"
  proof (elim insertE emptyE)
    assume "fault (igRequests (tsWorld ts)) = Served"
    then show ?thesis
      using that [of "igReader (tsWorld ts)"] by (simp add: ingest_do_def Let_def case_prod_beta)
  next
    assume "fault (igRequests (tsWorld ts)) = Forgetting"
    then show ?thesis
      using that [of empty_reader] by (simp add: ingest_do_def Let_def case_prod_beta)
  qed
  let ?resp = "fst (apply_request ?req (?s1\<lparr>igReader := rd\<rparr>))"
  have resp: "?resp = response 200 [] \<or> ?resp = response 409 ''unknown_series_dictionary'' \<and> d"
    by (rule apply_request_answer [where rd' = "rd' rd" and evs = "payload_events oob p"]) (use enc rd in \<open>auto simp: encoded_for_def\<close>)
  have url: "request_url (ingest_env fault oob) (htEndpoint t) = Inr (htEndpoint t)" by (simp add: ingest_env_def)
  have http: "http_do (ingest_env fault oob) ?req (tsWorld ts) =
      (Inr ?resp, snd (apply_request ?req (?s1\<lparr>igReader := rd\<rparr>)))"
    using do by (simp add: ingest_env_def)
  from sendBody_response [OF url http] post resp show ?thesis
    using unknown_code [of "fst (readErrorBody Some ''unknown_series_dictionary'')"]
    by (auto simp: response_def ingest_env_def)
qed

lemma answering_send:
  assumes inv: "ingest_inv ts" and f: "answering fault" and b: "plain_id (batchID p)"
    and safe: "payload_safe p" and ne: "\<not> payload_empty p"
    and t: "htEndpoint t \<noteq> []" and w: "validateWorkload w = None"
  shows "fst (send_http (ingest_env fault oob) (Some t) (Some p) w ts) = None"
proof -
  let ?env = "ingest_env fault oob" and ?ts1 = "ensureDictionaryLocked (ingest_env fault oob) ts"
  note en = ingest_inv_ensure [OF inv, of fault oob]
  obtain st1 where d1: "tsDict ?ts1 = Some st1" using en(3) by blast
  obtain body ts2 where e: "encode_locked ?env (Some p) ?ts1 = (body, ts2)" by fastforce
  obtain result err3 ts3 where s: "sendBody ?env t body w (batchID p) ts2 = ((result, err3), ts3)"
    by (metis prod.exhaust)
  obtain body' ts4 where e': "encode_locked ?env (Some p) (resetDictionaryLocked ?env ts3) = (body', ts4)" by fastforce
  obtain result' err5 ts5 where s': "sendBody ?env t body' w (batchID p) ts4 = ((result', err5), ts5)"
    by (metis prod.exhaust)
  obtain rd1 where r1: "encoded_for oob p (series st1 \<noteq> []) ts2 body rd1"
    using ingest_encode [OF en(1) d1 safe ne e] by blast
  note p1 = answering_post [OF r1 f s]
  have "ingest_inv ts3" using ingest_post [OF r1 b answering_ok [OF f] s] by simp
  note re = ingest_inv_reset [OF this, of fault oob]
  obtain st4 where d4: "tsDict (resetDictionaryLocked ?env ts3) = Some st4" "series st4 = []"
    by (simp add: newDictionaryState_def)
  obtain rd2 where r2: "encoded_for oob p (series st4 \<noteq> []) ts4 body' rd2"
    using ingest_encode [OF re(1) d4(1) safe ne e'] by blast
  have "err5 = None" using answering_post [OF r2 f s'] d4(2) by simp
  then show ?thesis using p1 r1 r2 by (auto simp: encoded_for_def send_http_eq [OF t w ne e s e' s'])
qed

lemma answering_client_send:
  assumes "ingest_ok fault wt ts" and "answering fault" and "batch_safe p" and "\<not> payload_empty p"
  shows "fst (transport_send (ingest_client fault oob wt hash) p ts) = None"
proof -
  obtain t where t: "wtBase wt = Some t" "htEndpoint t \<noteq> []"
    using assms(1) by (auto simp: ingest_ok_def split: option.split_asm)
  then show ?thesis
    using answering_send [OF _ assms(2) _ _ assms(4) t(2)] assms(1,3)
    by (simp add: ingest_client_def Send_workload_def ingest_ok_def batch_safe_def)
qed

subsection \<open>Exactly once\<close>

text \<open>A run of the whole system, with the payloads sent, those acknowledged, and what was applied.\<close>

definition system_run ::
  "(nat \<Rightarrow> fault) \<Rightarrow> (nat \<Rightarrow> int) \<Rightarrow> (f64 \<Rightarrow> int) \<Rightarrow> workloadHTTPTransport \<Rightarrow>
     (string \<Rightarrow> string list \<Rightarrow> u64) \<Rightarrow> int \<Rightarrow> action list \<Rightarrow>
     (payload list \<times> payload list \<times> ingest transportState) client" where
  "system_run fault clk oob wt hash now es =
     run_steps (client_step (logged (acked (ingest_client fault oob wt hash))))
       (new_client (wtWorkload wt) now ([], [], ingest_start clk)) es"

definition system_acked :: "(payload list \<times> payload list \<times> 'w) client \<Rightarrow> payload list" where
  "system_acked c = fst (snd (clWorld c))"

definition system_store :: "(payload list \<times> payload list \<times> ingest transportState) client \<Rightarrow> (string \<times> read_event list) list" where
  "system_store c = applied (snd (snd (clWorld c)))"

lemma system_run_store:
  assumes "faults_ok fault" and "wtBase wt = Some t" and "htEndpoint t \<noteq> []"
    and "validateWorkload (wtWorkload wt) = None" and "inj clk" and "\<forall>a \<in> set es. call_ok call_safe a"
  shows "store_of_sent (ingest_ok fault wt) applied (payload_events oob) (clWorld (system_run fault clk oob wt hash now es))"
proof -
  have "store_of_sent (ingest_ok fault wt) applied (payload_events oob) ([], [], ingest_start clk)"
    using assms ingest_inv_start [OF assms(5)]
    by (simp add: store_of_sent_def ingest_ok_def) (simp add: ingest_start_def)
  from ingest_delivery.audited.run_keeps_world
      [OF contract_inv_new [where W = "store_of_sent (ingest_ok fault wt) applied (payload_events oob)", OF this] assms(6)]
  show ?thesis by (simp add: contract_inv_def system_run_def)
qed

lemma system_run_log:
  assumes "length es < 2 ^ 64"
  shows "log_ok (system_run fault clk oob wt hash now es)"
  unfolding system_run_def
  by (rule client_run_log [OF log_ok_new]) (use assms in \<open>simp add: new_client_def\<close>)

lemma system_run_applied:
  fixes oob :: "f64 \<Rightarrow> int" and clk :: "nat \<Rightarrow> int" and hash :: "string \<Rightarrow> string list \<Rightarrow> u64" and now :: int
  assumes "faults_ok fault" and "wtBase wt = Some t" and "htEndpoint t \<noteq> []"
    and "validateWorkload (wtWorkload wt) = None" and "inj clk" and "\<forall>a \<in> set es. call_ok call_safe a"
    and "length es < 2 ^ 64"
  defines "c \<equiv> system_run fault clk oob wt hash now es" and "f \<equiv> \<lambda>p. (batchID p, payload_events oob p)"
  shows "distinct (map fst (system_store c))" and "set (system_store c) \<subseteq> f ` set (sent c)"
    and "inj_on batchID (set (sent c))" and "f ` set (system_acked c) \<subseteq> set (system_store c)"
proof -
  have st: "store_of_sent (ingest_ok fault wt) applied (payload_events oob) (clWorld c)"
    unfolding c_def by (rule system_run_store [OF assms(1-6)])
  show inj: "inj_on batchID (set (sent c))"
    using system_run_log [OF assms(7), of fault clk oob wt hash now]
    by (auto simp: c_def log_ok_def log_inv_def inj_on_def)
  show sub: "set (system_store c) \<subseteq> f ` set (sent c)"
    using st by (simp add: f_def store_of_sent_def system_store_def sent_def split: prod.split_asm)
  show "distinct (map fst (system_store c))"
    using st by (simp add: store_of_sent_def system_store_def split: prod.split_asm)
  show "f ` set (system_acked c) \<subseteq> set (system_store c)"
  proof
    fix x assume "x \<in> f ` set (system_acked c)"
    then obtain p where p: "p \<in> set (system_acked c)" "x = f p" by blast
    have "p \<in> set (sent c)" "batchID p \<in> fst ` set (system_store c)"
      using st p(1) by (auto simp: store_of_sent_def system_store_def system_acked_def sent_def split: prod.split_asm)
    then obtain evs where "(batchID p, evs) \<in> set (system_store c)" by auto
    moreover from this obtain q where "q \<in> set (sent c)" "batchID q = batchID p" "evs = payload_events oob q"
      using sub by (auto simp: f_def)
    moreover have "q = p" using inj calculation(2,3) \<open>p \<in> set (sent c)\<close> by (auto dest: inj_onD)
    ultimately show "x \<in> set (system_store c)" by (simp add: p(2) f_def)
  qed
qed

text \<open>
  C1 (safety). Exactly-once ingestion end to end. Callers, worker and \<open>Close\<close> in any interleaving, over
  the HTTP transport, against an ingester that deduplicates by batch ID, may forget its definitions
  at any request, and on the way to which requests get lost, answers get lost and failures are
  reported for batches that were applied: what the ingester applied are payloads the client sent, each
  batch ID once, with exactly the events of the one payload that has this ID, and every payload the
  client takes for delivered is among them. The clock may run or be set back in any way, as long
  as no two readings give the same nanosecond (\<open>inj clk\<close>): the reading names the dictionary session.
\<close>

theorem applied_exactly_once:
  assumes "faults_ok fault" and "wtBase wt = Some t" and "htEndpoint t \<noteq> []"
    and "validateWorkload (wtWorkload wt) = None" and "inj clk" and "\<forall>a \<in> set es. call_ok call_safe a"
    and "length es < 2 ^ 64"
  shows "let c = system_run fault clk oob wt hash now es in
    distinct (map fst (system_store c)) \<and>
    set (system_store c) \<subseteq> (\<lambda>p. (batchID p, payload_events oob p)) ` set (sent c) \<and>
    inj_on batchID (set (sent c)) \<and>
    (\<lambda>p. (batchID p, payload_events oob p)) ` set (system_acked c) \<subseteq> set (system_store c)"
  using system_run_applied [OF assms] by (simp add: Let_def)

definition lossy_fault :: "nat \<Rightarrow> fault" where
  "lossy_fault n = (if n = 0 then Unanswered EOF else if n = 1 then Forgetting else Served)"

definition sample_wrapper :: workloadHTTPTransport where
  "sample_wrapper = \<lparr>wtBase = Some sample_transport, wtWorkload = ''w''\<rparr>"

definition lossy_run :: "action list" where
  "lossy_run = demo_calls @ [Tick, Tick, Cancel, BeginDrain, EndDrain]"

lemma sample_wrapper_simps [simp]:
  "wtBase sample_wrapper = Some sample_transport" "wtWorkload sample_wrapper = ''w''"
  "htEndpoint sample_transport \<noteq> []"
  by (simp_all add: sample_wrapper_def sample_transport_def new_http_transport_def)

lemma lossy_run_safe: "\<forall>a \<in> set lossy_run. call_ok call_safe a" "length lossy_run < 2 ^ 64"
  by (simp_all add: lossy_run_def demo_calls_def call_ok_def call_safe_def series_safe_def nul_free_def wire_safe_def)

text \<open>A clock that runs back, for the witnesses.\<close>

lemma falling_clock [simp]: "inj (\<lambda>n. 5 - int n)"
  by (simp add: inj_def)

lemma lossy_fault_ok: "faults_ok lossy_fault"
  by (simp add: faults_ok_def fault_ok_def lossy_fault_def)

theorem applied_exactly_once_witness:
  "let c = system_run lossy_fault (\<lambda>n. 5 - int n) (\<lambda>x. 0) sample_wrapper (\<lambda>m ls. 0) 5 lossy_run in
    distinct (map fst (system_store c)) \<and>
    set (system_store c) \<subseteq> (\<lambda>p. (batchID p, payload_events (\<lambda>x. 0) p)) ` set (sent c) \<and>
    inj_on batchID (set (sent c)) \<and>
    (\<lambda>p. (batchID p, payload_events (\<lambda>x. 0) p)) ` set (system_acked c) \<subseteq> set (system_store c)"
  by (rule applied_exactly_once [OF lossy_fault_ok, of _ sample_transport])
    (use sample_workload lossy_run_safe in \<open>simp_all\<close>)

end
