(* ===== verification/Accounting.thy ===== *)
theory Accounting
  imports Delivery
begin

section \<open>What is counted and what arrives (client.go, batch_builder.go, transport.go)\<close>

text \<open>
  The counts of a set \<open>S\<close> of series, followed from the calls through the pending events, the channel, the
  current batch, the payloads sent or waiting for a retry, to what the ingester applied. For integer
  deltas that sum to less than \<open>2 ^ 53\<close> nothing is ever counted twice, and with a service that answers
  and an empty drop counter nothing is lost by a \<open>Close\<close>.
\<close>

subsection \<open>Weights\<close>

type_synonym seriesSet = "(string \<times> string list) set"

definition read_count :: "seriesSet \<Rightarrow> read_event \<Rightarrow> int" where
  "read_count S e = (case e of ReadCounter m ls v ts \<Rightarrow> if (m, ls) \<in> S then v else 0 | _ \<Rightarrow> 0)"

definition read_total :: "seriesSet \<Rightarrow> read_event list \<Rightarrow> int" where
  "read_total S evs = sum_list (map (read_count S) evs)"

definition store_total :: "seriesSet \<Rightarrow> (string \<times> read_event list) list \<Rightarrow> int" where
  "store_total S st = sum_list (map (read_total S \<circ> snd) st)"

definition event_count :: "(f64 \<Rightarrow> int) \<Rightarrow> seriesSet \<Rightarrow> event \<Rightarrow> int" where
  "event_count oob S e =
     (if etyp e = MtCounter \<and> series_of e \<in> S then round_int64 oob (evalue e) else 0)"

definition call_count :: "(f64 \<Rightarrow> int) \<Rightarrow> seriesSet \<Rightarrow> call \<Rightarrow> int" where
  "call_count oob S k =
     (case k of
        Count metric delta labels \<Rightarrow> if (metric, trim_labels labels) \<in> S then round_int64 oob delta else 0
      | _ \<Rightarrow> 0)"

definition action_count :: "(f64 \<Rightarrow> int) \<Rightarrow> seriesSet \<Rightarrow> action \<Rightarrow> int" where
  "action_count oob S a = (case a of DoCall k _ \<Rightarrow> call_count oob S k | _ \<Rightarrow> 0)"

definition total_count :: "(f64 \<Rightarrow> int) \<Rightarrow> seriesSet \<Rightarrow> action list \<Rightarrow> int" where
  "total_count oob S es = sum_list (map (action_count oob S) es)"

text \<open>Counters with a delta that is a natural number below \<open>2 ^ 53\<close>; no totals.\<close>

definition natural_delta :: "f64 \<Rightarrow> bool" where
  "natural_delta x \<longleftrightarrow> (\<exists>d. 0 \<le> d \<and> d < 2 ^ 53 \<and> x = f64_of_int d)"

definition counting_call :: "call \<Rightarrow> bool" where
  "counting_call k = (case k of Count _ delta _ \<Rightarrow> natural_delta delta | Total _ _ _ \<Rightarrow> False | _ \<Rightarrow> True)"

definition counting_event :: "event \<Rightarrow> bool" where
  "counting_event e \<longleftrightarrow>
     [] \<notin> set (elabels e) \<and> etyp e \<noteq> MtTotal \<and> (etyp e = MtCounter \<longrightarrow> natural_delta (evalue e))"

lemma natural_delta_round: "natural_delta x \<Longrightarrow> x = f64_of_int (round_int64 oob x) \<and> 0 \<le> round_int64 oob x"
  by (auto simp: natural_delta_def round_int64_of_int)

lemma counting_call_event: "counting_call k \<Longrightarrow> counting_event (call_event k now)"
  using trim_labels_not_Nil
  by (cases k) (auto simp: counting_call_def counting_event_def call_event_def borrowEvent_def borrowUniqueEvent_def)

lemma call_event_count: "event_count oob S (call_event k now) = call_count oob S k"
  by (cases k) (auto simp: call_count_def event_count_def call_event_def borrowEvent_def borrowUniqueEvent_def series_of_def)

lemma event_count_nonneg: "counting_event e \<Longrightarrow> 0 \<le> event_count oob S e"
  using natural_delta_round by (auto simp: event_count_def counting_event_def)

lemma call_count_nonneg: "counting_call k \<Longrightarrow> 0 \<le> call_count oob S k"
  using natural_delta_round by (auto simp: call_count_def counting_call_def split: call.split)

lemma event_count_subset: "counting_event e \<Longrightarrow> event_count oob S e \<le> event_count oob UNIV e"
  using event_count_nonneg [of e oob UNIV] by (auto simp: event_count_def)

subsection \<open>A batch keeps its counts\<close>

lemma read_total_append [simp]: "read_total S (xs @ ys) = read_total S xs + read_total S ys"
  by (simp add: read_total_def)

lemma read_total_payload:
  "read_total S (payload_events oob p) =
     sum_list (map (\<lambda>c. if (cMetric c, wire_labels (cLabels c)) \<in> S then round_int64 oob (cValue c) else 0) (pCounters p))"
proof -
  have "read_total S (map (\<lambda>v. ReadValue (a v) (b v) (c v) (d v)) vs) = 0" for a b c d and vs :: "'x list"
    by (induction vs) (simp_all add: read_total_def read_count_def)
  moreover have "read_total S (map (\<lambda>v. ReadUnique (a v) (b v) (c v) (d v)) vs) = 0" for a b c d and vs :: "'x list"
    by (induction vs) (simp_all add: read_total_def read_count_def)
  ultimately show ?thesis
    by (simp add: payload_events_def) (simp add: read_total_def read_count_def comp_def)
qed

lemma series_total_sum:
  assumes "map cValue cs = map f64_of_int ks" and "\<forall>k \<in> set ks. \<bar>k\<bar> < 2 ^ 53"
    and "\<forall>c \<in> set cs. [] \<notin> set (cLabels c)"
  shows "sum_list (map (\<lambda>c. if (cMetric c, wire_labels (cLabels c)) \<in> S then round_int64 oob (cValue c) else 0) cs) =
    sum_list (map snd (filter (\<lambda>(c, k). counter_series c \<in> S) (zip cs ks)))"
proof -
  have "length cs = length ks" using assms(1) by (metis length_map)
  then show ?thesis
    using assms
  proof (induction cs ks rule: list_induct2)
    case (Cons c cs k ks)
    then have "wire_labels (cLabels c) = cLabels c" by (auto simp: wire_labels_def intro!: filter_True)
    then show ?case using Cons by (simp add: counter_series_def round_int64_of_int)
  qed simp
qed

text \<open>The total of a set of series is a finite sum of the totals of its members.\<close>

lemma sum_by_series:
  fixes f :: "'a \<Rightarrow> int"
  assumes "finite A" and "g ` set xs \<subseteq> A"
  shows "sum_list (map f (filter (\<lambda>x. g x \<in> S) xs)) =
    (\<Sum>s \<in> A \<inter> S. sum_list (map f (filter (\<lambda>x. g x = s) xs)))"
  using assms(2)
proof (induction xs)
  case (Cons x xs)
  have "(\<Sum>s \<in> A \<inter> S. if g x = s then f x else 0) = (if g x \<in> S then f x else 0)"
    using Cons.prems assms(1) by (simp add: sum.delta)
  moreover have "(\<Sum>s \<in> A \<inter> S. sum_list (map f (filter (\<lambda>y. g y = s) (x # xs)))) =
      (\<Sum>s \<in> A \<inter> S. (if g x = s then f x else 0) + sum_list (map f (filter (\<lambda>y. g y = s) xs)))"
    by (rule sum.cong) auto
  ultimately show ?case using Cons by (simp add: sum.distrib)
qed simp

lemma built_count:
  assumes es: "\<forall>e \<in> set es. counting_event e" and small: "sum_list (map (event_count oob UNIV) es) < 2 ^ 53"
    and b: "add_events hash es newBatchBuilder = Some b"
  shows "read_total S (payload_events oob ((bPayload b)\<lparr>batchID := i\<rparr>)) = sum_list (map (event_count oob S) es)"
proof -
  let ?d = "\<lambda>e. round_int64 oob (evalue e)" and ?cs = "counters_of es"
  have eff: "event_effect hash es newBatchBuilder b" using add_events_effect [of hash newBatchBuilder es] b by auto
  have nat: "natural_delta (evalue e)" if "e \<in> set ?cs" for e
    using es that by (auto simp: counters_of_def counting_event_def)
  have sum: "sum_list (map (event_count oob S) xs) = sum_list (map ?d (filter (\<lambda>e. series_of e \<in> S) (counters_of xs)))" for S xs
    by (induction xs) (simp_all add: counters_of_def event_count_def)
  have "abs_total ?d ?cs = sum_list (map ?d ?cs)"
    unfolding abs_total_def using nat natural_delta_round
    by (intro arg_cong [where f = sum_list] map_cong) (auto simp: abs_of_nonneg)
  also have "\<dots> = sum_list (map (event_count oob UNIV) es)" by (simp add: sum)
  finally have at: "abs_total ?d ?cs < 2 ^ 53" using small by simp
  have "\<forall>e \<in> set ?cs. evalue e = f64_of_int (?d e)" using nat natural_delta_round by blast
  from conserved_fold [OF this at] obtain ks where
    ks: "conserved ?d ?cs (fold ref_addCounter ?cs ([], [])) ks" by blast
  let ?out = "pCounters (bPayload b)"
  have out: "?out = fst (fold ref_addCounter ?cs ([], []))" by (rule built_counters [OF eff])
  have k: "map cValue ?out = map f64_of_int ks" "\<forall>k \<in> set ks. \<bar>k\<bar> < 2 ^ 53"
      "\<And>s. series_total s ?out ks = sum_list (map ?d (filter (\<lambda>e. series_of e = s) ?cs))"
    using ks at by (auto simp: conserved_def out case_prod_beta)
  have "\<forall>e \<in> set ?cs. [] \<notin> set (elabels e)" using es by (simp add: counters_of_def counting_event_def)
  then have lab: "\<forall>c \<in> set ?out. [] \<notin> set (cLabels c)"
    using ref_fold_series [of ?cs "\<lambda>m ls. [] \<notin> set ls"] by (simp add: out)
  let ?A = "counter_series ` set ?out \<union> series_of ` set ?cs" and ?z = "zip ?out ks"
  have z: "(\<lambda>(c, k). counter_series c) ` set ?z \<subseteq> ?A" by (auto dest: set_zip_leftD)
  have f: "(\<lambda>(c, k). counter_series c \<in> S) = (\<lambda>x. (\<lambda>(c, k). counter_series c) x \<in> S)"
    "\<And>s. (\<lambda>(c, k). counter_series c = s) = (\<lambda>x. (\<lambda>(c, k). counter_series c) x = s)" by auto
  have "read_total S (payload_events oob ((bPayload b)\<lparr>batchID := i\<rparr>)) =
      sum_list (map snd (filter (\<lambda>(c, k). counter_series c \<in> S) ?z))"
    unfolding read_total_payload using series_total_sum [OF k(1,2) lab] by simp
  also have "\<dots> = (\<Sum>s \<in> ?A \<inter> S. series_total s ?out ks)"
    unfolding f(1) series_total_def f(2) by (rule sum_by_series [OF _ z]) simp
  also have "\<dots> = (\<Sum>s \<in> ?A \<inter> S. sum_list (map ?d (filter (\<lambda>e. series_of e = s) ?cs)))"
    by (simp add: k(3))
  also have "\<dots> = sum_list (map ?d (filter (\<lambda>e. series_of e \<in> S) ?cs))"
    by (rule sum_by_series [symmetric]) auto
  also have "\<dots> = sum_list (map (event_count oob S) es)" by (simp add: sum)
  finally show ?thesis .
qed

subsection \<open>Where the counts are\<close>

text \<open>The payloads that exist, sent or waiting; a payload that does both counts once.\<close>

definition payloads_of :: "(payload list \<times> 'w) client \<Rightarrow> payload set" where
  "payloads_of c = set (sent c) \<union> rbPayload ` set (clRetry c)"

definition events_in :: "'w client \<Rightarrow> event list" where
  "events_in c = clPending c @ clQueue c @ clBatch c"

definition payload_count :: "(f64 \<Rightarrow> int) \<Rightarrow> seriesSet \<Rightarrow> payload \<Rightarrow> int" where
  "payload_count oob S p = read_total S (payload_events oob p)"

definition spread :: "(f64 \<Rightarrow> int) \<Rightarrow> seriesSet \<Rightarrow> (payload list \<times> 'w) client \<Rightarrow> int" where
  "spread oob S c = sum (payload_count oob S) (payloads_of c) + sum_list (map (event_count oob S) (events_in c))"

lemma finite_payloads [simp]: "finite (payloads_of c)"
  by (simp add: payloads_of_def)

lemma sum_insert_le:
  fixes f :: "'a \<Rightarrow> int"
  assumes "A \<subseteq> insert x B" and "finite B" and "\<forall>y \<in> insert x B. 0 \<le> f y"
  shows "sum f A \<le> sum f B + f x"
proof -
  have "sum f A \<le> sum f (insert x B)" using assms by (intro sum_mono2) auto
  also have "\<dots> \<le> sum f B + f x" using assms by (cases "x \<in> B") (simp_all add: insert_absorb)
  finally show ?thesis .
qed

lemma send_payloads:
  assumes "batchID p \<noteq> []"
  shows "payloads_of (sendPayload (logged env) p n c) \<subseteq> insert p (payloads_of c)"
proof -
  obtain r where r: "send_result p n c r (sendPayload (logged env) p n c)"
      "world_result (logged env) p r (clWorld c) (clWorld (sendPayload (logged env) p n c))"
    using sendPayload_result [OF assms] by blast
  from world_logged [OF r(2)] send_result_retry [OF r(1)] show ?thesis
    by (auto simp: payloads_of_def sent_def split: if_split_asm)
qed

lemma flush_queue_payloads:
  fixes c :: "(payload list \<times> 'w) client"
  assumes "retry_bounds (clRetry c)"
  shows "payloads_of (flushRetryQueue (logged env) ig c) \<subseteq> payloads_of c"
proof -
  have "payloads_of (flushRetryQueue (logged env) ig c) \<subseteq> payloads_of c \<and>
      retry_bounds (clRetry (flushRetryQueue (logged env) ig c))"
  proof (rule flushRetryQueue_inv [where P = "\<lambda>c'. payloads_of c' \<subseteq> payloads_of c \<and> retry_bounds (clRetry c')"])
    fix c' :: "(payload list \<times> 'w) client" and i
    assume P: "payloads_of c' \<subseteq> payloads_of c \<and> retry_bounds (clRetry c')" and i: "i < length (clRetry c')"
    have r: "clRetry c' ! i \<in> set (clRetry c')" using i by simp
    have "payloads_of (removed i c') \<subseteq> payloads_of c'"
      by (auto simp: payloads_of_def removed_def sent_def dest: in_set_takeD in_set_dropD)
    moreover have "rbPayload (clRetry c' ! i) \<in> payloads_of c'" using r by (simp add: payloads_of_def)
    moreover have "rb_id (clRetry c' ! i) \<noteq> []" using P r by (simp add: retry_bounds_def)
    ultimately have "payloads_of (retry_send (logged env) i c') \<subseteq> payloads_of c'"
      using send_payloads [of "rbPayload (clRetry c' ! i)" env "rbAttempts (clRetry c' ! i) + 1" "removed i c'"]
      by (auto simp: retry_send_def removed_def)
    then show "payloads_of (retry_send (logged env) i c') \<subseteq> payloads_of c \<and>
        retry_bounds (clRetry (retry_send (logged env) i c'))"
      using P retry_send_bounds [OF conjunct2 [OF P] i] by blast
  next
    fix c' c'' :: "(payload list \<times> 'w) client" and now
    assume P: "payloads_of c' \<subseteq> payloads_of c \<and> retry_bounds (clRetry c')" and r: "read_clock (logged env) c' = (now, c'')"
    have "sent c'' = sent c'" using r by (auto simp: read_clock_def logged_def sent_def split: prod.split_asm)
    moreover have "clRetry c'' = clRetry c'" using clock_eq [OF r] by auto
    ultimately show "payloads_of c'' \<subseteq> payloads_of c \<and> retry_bounds (clRetry c'')"
      using P by (simp add: payloads_of_def)
  qed (use assms in simp)
  then show ?thesis by simp
qed

text \<open>What the state of the worker must hold for the law of the batch to apply to what it may flush.\<close>

definition countable :: "(f64 \<Rightarrow> int) \<Rightarrow> seriesSet \<Rightarrow> (payload list \<times> 'w) client \<Rightarrow> bool" where
  "countable oob S c \<longleftrightarrow>
     (\<forall>e \<in> set (events_in c). counting_event e) \<and> (\<forall>p \<in> payloads_of c. 0 \<le> payload_count oob S p) \<and>
     sum_list (map (event_count oob UNIV) (clQueue c @ clBatch c)) < 2 ^ 53 \<and> retry_bounds (clRetry c)"

lemma event_counts_nonneg:
  "\<forall>e \<in> set es. counting_event e \<Longrightarrow> 0 \<le> sum_list (map (event_count oob S) es)"
  by (intro sum_list_nonneg) (auto simp: event_count_nonneg)

lemma flush_batch_spread:
  fixes env :: "'w client_env" and c :: "(payload list \<times> 'w) client"
  assumes c: "\<forall>e \<in> set (clBatch c). counting_event e" "\<forall>p \<in> payloads_of c. 0 \<le> payload_count oob S p"
    and small: "sum_list (map (event_count oob UNIV) (clBatch c)) < 2 ^ 53" and rb: "retry_bounds (clRetry c)"
  defines "c' \<equiv> flush_batch (logged env) c"
  shows "sum (payload_count oob S) (payloads_of c') \<le>
      sum (payload_count oob S) (payloads_of c) + sum_list (map (event_count oob S) (clBatch c))"
    and "\<forall>p \<in> payloads_of c'. 0 \<le> payload_count oob S p" and "send_frame (c\<lparr>clBatch := []\<rparr>) c'"
    and "retry_bounds (clRetry c')"
proof -
  let ?f = "flush_events (logged env) (clBatch c) c"
  have nn: "0 \<le> sum_list (map (event_count oob S) (clBatch c))" by (rule event_counts_nonneg [OF c(1)])
  have same: "payloads_of c' = (if clBatch c = [] then payloads_of c else payloads_of ?f)"
    by (simp add: c'_def flush_batch_def payloads_of_def sent_def)
  let ?w = "payload_count oob S"
  have "\<exists>p. payloads_of ?f \<subseteq> insert p (payloads_of c) \<and>
      payload_count oob S p = sum_list (map (event_count oob S) (clBatch c)) \<or> payloads_of ?f \<subseteq> payloads_of c"
  proof (cases "clStopSending c")
    case False
    from build_payload_result [of "logged env" "clBatch c" c] show ?thesis
    proof (elim disjE exE conjE)
      fix p assume p: "buildPayload (logged env) (clBatch c) c = (Some p, snd (nextBatchID c))" "batchID p = fst (nextBatchID c)"
      obtain b where b: "add_events (series_hash (logged env)) (clBatch c) newBatchBuilder = Some b"
          "p = (bPayload b)\<lparr>batchID := fst (nextBatchID c)\<rparr>"
        using build_payload_built [OF p(1)] by blast
      have "payload_count oob S p = sum_list (map (event_count oob S) (clBatch c))"
        unfolding payload_count_def b(2) by (rule built_count [OF c(1) small b(1)])
      moreover have "payloads_of (snd (nextBatchID c)) = payloads_of c"
        by (simp add: payloads_of_def nextBatchID_def Let_def sent_def)
      then have "payloads_of ?f \<subseteq> insert p (payloads_of c)"
        using False p send_payloads [of p env 1 "snd (nextBatchID c)"] nextBatchID_not_Nil [of c]
        by (simp add: flush_events_def)
      ultimately show ?thesis by blast
    qed (simp add: flush_events_def)
  qed simp
  then have "sum ?w (payloads_of ?f) \<le> sum ?w (payloads_of c) + sum_list (map (event_count oob S) (clBatch c)) \<and>
      (\<forall>p \<in> payloads_of ?f. 0 \<le> ?w p)"
  proof (elim exE disjE conjE)
    fix p assume p: "payloads_of ?f \<subseteq> insert p (payloads_of c)" "?w p = sum_list (map (event_count oob S) (clBatch c))"
    have np: "\<forall>y \<in> insert p (payloads_of c). 0 \<le> ?w y" using c(2) nn by (simp add: p(2))
    from sum_insert_le [OF p(1) finite_payloads np] show ?thesis using p(1) np unfolding p(2) by blast
  next
    assume sub: "payloads_of ?f \<subseteq> payloads_of c"
    have "sum ?w (payloads_of ?f) \<le> sum ?w (payloads_of c)" by (rule sum_mono2) (use sub c(2) in auto)
    then show ?thesis using sub c(2) nn by auto
  qed
  then show "sum ?w (payloads_of c') \<le> sum ?w (payloads_of c) + sum_list (map (event_count oob S) (clBatch c))"
    and "\<forall>p \<in> payloads_of c'. 0 \<le> ?w p"
    using nn c(2) unfolding same by (simp_all split: if_splits)
  show "send_frame (c\<lparr>clBatch := []\<rparr>) c'" "retry_bounds (clRetry c')"
    using flush_events_bounds [OF rb, of "logged env" "clBatch c"] rb
    by (auto simp: c'_def flush_batch_def send_frame_def)
qed

lemma sum_remove_nth:
  fixes f :: "'a \<Rightarrow> int"
  assumes "i < length xs"
  shows "sum_list (map f xs) = sum_list (map f (take i xs @ drop (Suc i) xs)) + f (xs ! i)"
proof -
  have "sum_list (map f xs) = sum_list (map f (take i xs @ xs ! i # drop (Suc i) xs))"
    using id_take_nth_drop [OF assms] by simp
  then show ?thesis by simp
qed

text \<open>What a step guarantees: the counts spread out grow by what the step counts, at most.\<close>

definition spreads :: "(f64 \<Rightarrow> int) \<Rightarrow> seriesSet \<Rightarrow> int \<Rightarrow> (payload list \<times> 'w) client \<Rightarrow> (payload list \<times> 'w) client \<Rightarrow> bool" where
  "spreads oob S n c c' \<longleftrightarrow>
     spread oob S c' \<le> spread oob S c + n \<and> (\<forall>e \<in> set (events_in c'). counting_event e) \<and>
     (\<forall>p \<in> payloads_of c'. 0 \<le> payload_count oob S p) \<and> retry_bounds (clRetry c')"

lemma spreads_refl: "countable oob S c \<Longrightarrow> 0 \<le> n \<Longrightarrow> spreads oob S n c c"
  by (simp add: spreads_def countable_def)

lemma countable_small:
  assumes "countable oob S c"
  shows "sum_list (map (event_count oob UNIV) (clBatch c)) < 2 ^ 53"
proof -
  have "0 \<le> sum_list (map (event_count oob UNIV) (clQueue c))"
    by (rule event_counts_nonneg) (use assms in \<open>simp add: countable_def events_in_def\<close>)
  then show ?thesis using assms by (simp add: countable_def)
qed

lemma flush_batch_spreads:
  fixes env :: "'w client_env" and c :: "(payload list \<times> 'w) client"
  assumes cnt: "countable oob S c"
  shows "spreads oob S 0 c (flush_batch (logged env) c)"
proof -
  have p: "\<forall>e \<in> set (clBatch c). counting_event e" "\<forall>p \<in> payloads_of c. 0 \<le> payload_count oob S p" "retry_bounds (clRetry c)"
    using cnt by (simp_all add: countable_def events_in_def)
  note fb = flush_batch_spread [OF p(1,2) countable_small [OF cnt] p(3), of env]
  then show ?thesis
    using cnt by (auto simp: spreads_def spread_def events_in_def send_frame_def countable_def)
qed

lemma flush_queue_spreads:
  fixes env :: "'w client_env" and c :: "(payload list \<times> 'w) client"
  assumes "spreads oob S n c0 c"
  shows "spreads oob S n c0 (flushRetryQueue (logged env) ig c)"
proof -
  let ?c' = "flushRetryQueue (logged env) ig c"
  have rb: "retry_bounds (clRetry c)" and nn: "\<forall>p \<in> payloads_of c. 0 \<le> payload_count oob S p"
    using assms by (simp_all add: spreads_def)
  note sub = flush_queue_payloads [OF rb, of env ig] and fr = flushRetryQueue_bounds [OF rb, of "logged env" ig]
  have "sum (payload_count oob S) (payloads_of ?c') \<le> sum (payload_count oob S) (payloads_of c)"
    by (rule sum_mono2) (use sub nn in auto)
  then show ?thesis
    using assms sub fr by (auto simp: spreads_def spread_def events_in_def send_frame_def)
qed

lemma receive_spreads:
  fixes env :: "'w client_env" and c :: "(payload list \<times> 'w) client"
  assumes cnt: "countable oob S c" and q: "clQueue c = ev # rest"
  shows "spreads oob S 0 c (receive (logged env) ev (c\<lparr>clQueue := rest\<rparr>))"
proof -
  let ?c1 = "c\<lparr>clQueue := rest, clBatch := clBatch c @ [ev]\<rparr>"
  have "etyp ev \<noteq> MtTotal" using cnt q by (simp add: countable_def events_in_def counting_event_def)
  then have r: "receive (logged env) ev (c\<lparr>clQueue := rest\<rparr>) =
      (if length (clBatch ?c1) \<ge> defaultMaxBatchSize then flush_batch (logged env) ?c1 else ?c1)"
    by (simp add: receive_def Let_def)
  have eq: "spread oob S ?c1 = spread oob S c" "payloads_of ?c1 = payloads_of c"
    using q by (simp_all add: spread_def events_in_def payloads_of_def sent_def)
  have cnt1: "countable oob S ?c1"
    using cnt q eq(2) by (auto simp: countable_def events_in_def)
  have "spreads oob S 0 c c' = spreads oob S 0 ?c1 c'" for c' by (simp add: spreads_def eq)
  then show ?thesis using flush_batch_spreads [OF cnt1] spreads_refl [OF cnt1] by (simp add: r)
qed

lemma client_step_spread:
  fixes env :: "'w client_env" and c :: "(payload list \<times> 'w) client"
  assumes cnt: "countable oob S c" and a: "call_ok counting_call a"
  shows "spreads oob S (action_count oob S a) c (client_step (logged env) c a)"
proof (cases a)
  case (DoCall k pooled)
  let ?c' = "client_call (logged env) pooled k c"
  have k: "counting_call k" using a DoCall by (simp add: call_ok_def)
  obtain ps l w where f: "?c' = c\<lparr>clPending := ps, clLimiter := l, clWorld := w\<rparr>"
      "clock_star (logged env) (clWorld c) w"
    using client_call_frame [of "logged env" c pooled k] unfolding call_frame_def by blast
  have pay: "payloads_of ?c' = payloads_of c"
    using f clock_star_logged [OF f(2)] by (simp add: payloads_of_def sent_def)
  from client_call_pending [of "logged env" pooled k c]
  have "spread oob S ?c' \<le> spread oob S c + call_count oob S k \<and> set (events_in ?c') \<subseteq> set (events_in c) \<union> range (call_event k)"
    using call_count_nonneg [OF k] pay by (auto simp: spread_def events_in_def f(1) call_event_count)
  then show ?thesis
    using cnt counting_call_event [OF k] pay f(1) DoCall
    by (auto simp: spreads_def countable_def client_step_def action_count_def)
next
  case (DoPush i)
  show ?thesis
  proof (cases "i < length (clPending c)")
    case True
    let ?rest = "take i (clPending c) @ drop (i + 1) (clPending c)"
    have e: "counting_event (clPending c ! i)" using cnt nth_mem [OF True] by (simp add: countable_def events_in_def)
    have sub: "set ?rest \<subseteq> set (clPending c)" by (auto dest: in_set_takeD in_set_dropD)
    then have ev: "\<forall>e \<in> set ?rest \<union> set (clQueue c) \<union> set (clBatch c). counting_event e"
      using cnt unfolding countable_def events_in_def set_append by blast
    show ?thesis
      using True DoPush cnt e ev sum_remove_nth [OF True, of "event_count oob S"] event_count_nonneg [OF e, of oob S]
      by (auto simp: client_step_def push_event_def spreads_def spread_def events_in_def payloads_of_def sent_def
          countable_def action_count_def)
  qed (use DoPush spreads_refl [OF cnt] in \<open>simp add: client_step_def action_count_def\<close>)
next
  case Tick
  then show ?thesis
    using flush_queue_spreads [OF flush_batch_spreads [OF cnt]] spreads_refl [OF cnt]
    by (simp add: client_step_def action_count_def)
next
  case Recv
  show ?thesis
  proof (cases "clQueue c")
    case (Cons ev rest)
    then show ?thesis
      using Recv receive_spreads [OF cnt] spreads_refl [OF cnt] by (simp add: client_step_def action_count_def)
  qed (use Recv spreads_refl [OF cnt] in \<open>simp add: client_step_def action_count_def\<close>)
next
  case EndDrain
  have "spreads oob S 0 c (flushRetryQueue (logged env) True (flush_batch (logged env) c))"
    by (rule flush_queue_spreads [OF flush_batch_spreads [OF cnt]])
  then have "spreads oob S 0 c ((flushRetryQueue (logged env) True (flush_batch (logged env) c))\<lparr>clPhase := Exited\<rparr>)"
    by (simp add: spreads_def spread_def events_in_def payloads_of_def sent_def)
  then show ?thesis using EndDrain spreads_refl [OF cnt] by (simp add: client_step_def action_count_def)
next
  case Cancel
  then show ?thesis
    using cnt by (simp add: client_step_def action_count_def spreads_def spread_def events_in_def payloads_of_def
        sent_def countable_def)
next
  case BeginDrain
  then show ?thesis
    using cnt by (simp add: client_step_def action_count_def spreads_def spread_def events_in_def payloads_of_def
        sent_def countable_def)
qed

subsection \<open>Over a run\<close>

definition accounted :: "(f64 \<Rightarrow> int) \<Rightarrow> seriesSet \<Rightarrow> (payload list \<times> 'w) client \<Rightarrow> bool" where
  "accounted oob S c \<longleftrightarrow>
     (\<forall>e \<in> set (events_in c). counting_event e) \<and> (\<forall>p \<in> payloads_of c. 0 \<le> payload_count oob S p) \<and>
     retry_bounds (clRetry c)"

lemma accounted_countable:
  assumes "accounted oob UNIV c" and "accounted oob S c" and "spread oob UNIV c < 2 ^ 53"
  shows "countable oob S c"
proof -
  have "0 \<le> sum (payload_count oob UNIV) (payloads_of c)"
    using assms(1) by (intro sum_nonneg) (simp add: accounted_def)
  moreover have "0 \<le> sum_list (map (event_count oob UNIV) (clPending c))"
    using assms(1) by (intro event_counts_nonneg) (simp add: accounted_def events_in_def)
  ultimately show ?thesis
    using assms(2,3) by (simp add: countable_def accounted_def spread_def events_in_def)
qed

lemma action_count_nonneg: "call_ok counting_call a \<Longrightarrow> 0 \<le> action_count oob S a"
  using call_count_nonneg by (auto simp: action_count_def call_ok_def split: action.split)

lemma run_spread:
  fixes env :: "'w client_env" and c :: "(payload list \<times> 'w) client"
  assumes "accounted oob UNIV c" and "accounted oob S c" and "\<forall>a \<in> set es. call_ok counting_call a"
    and "spread oob UNIV c + total_count oob UNIV es < 2 ^ 53"
  shows "spreads oob S (total_count oob S es) c (run_steps (client_step (logged env)) c es)"
  using assms
proof (induction es arbitrary: c)
  case (Cons a es)
  let ?c' = "client_step (logged env) c a"
  have nn: "0 \<le> total_count oob UNIV es"
    using Cons.prems(3) action_count_nonneg by (auto simp: total_count_def intro!: sum_list_nonneg)
  have a: "call_ok counting_call a" and es: "\<forall>a \<in> set es. call_ok counting_call a" using Cons.prems(3) by simp_all
  have small: "spread oob UNIV c < 2 ^ 53"
    using Cons.prems(4) nn action_count_nonneg [OF a, of oob UNIV] by (simp add: total_count_def)
  note one = client_step_spread [OF accounted_countable [OF Cons.prems(1,2) small] a, of env]
    client_step_spread [OF accounted_countable [OF Cons.prems(1,1) small] a, of env]
  then have "accounted oob UNIV ?c'" "accounted oob S ?c'"
    by (simp_all add: spreads_def accounted_def)
  from Cons.IH [OF this es] one Cons.prems(4)
  show ?case by (simp add: spreads_def total_count_def)
qed (simp add: spreads_def accounted_def total_count_def)

lemma accounted_new: "accounted oob S (new_client wl now ([], w))"
  by (simp add: accounted_def new_client_def events_in_def payloads_of_def sent_def retry_bounds_def retry_ok_def)

lemma spread_new: "spread oob S (new_client wl now ([], w)) = 0"
  by (simp add: spread_def new_client_def events_in_def payloads_of_def sent_def)

lemma system_spread:
  assumes "\<forall>a \<in> set es. call_ok counting_call a" and "total_count oob UNIV es < 2 ^ 53"
  shows "spreads oob S (total_count oob S es) (new_client (wtWorkload wt) now ([], [], ingest_start clk))
    (system_run fault clk oob' wt hash now es)"
  unfolding system_run_def
  by (rule run_spread [OF accounted_new accounted_new assms(1)]) (use assms(2) in \<open>simp add: spread_new\<close>)

text \<open>The store holds each payload once, so its total is a sum over some of the payloads sent.\<close>

lemma store_total_sent:
  assumes "distinct (map fst st)" and sub: "set st \<subseteq> (\<lambda>p. (batchID p, payload_events oob p)) ` A" and "finite A"
    and nn: "\<forall>p \<in> A. 0 \<le> payload_count oob S p"
  shows "0 \<le> store_total S st \<and> store_total S st \<le> sum (payload_count oob S) A"
proof -
  let ?f = "\<lambda>p. (batchID p, payload_events oob p)" and ?g = "\<lambda>x :: string \<times> read_event list. read_total S (snd x)"
  have "distinct st" using assms(1) by (simp add: distinct_map)
  then have eq: "store_total S st = sum ?g (set st)" by (simp add: store_total_def sum_list_distinct_conv_sum_set comp_def)
  have g: "0 \<le> ?g x" if "x \<in> ?f ` A" for x using that nn by (auto simp: payload_count_def)
  have "sum ?g (set st) \<le> sum ?g (?f ` A)" by (rule sum_mono2) (use sub g assms(3) in auto)
  also have "\<dots> \<le> sum (?g \<circ> ?f) A" by (rule sum_image_le) (use assms(3) nn in \<open>auto simp: payload_count_def\<close>)
  also have "\<dots> = sum (payload_count oob S) A" by (simp add: payload_count_def comp_def)
  finally have "store_total S st \<le> sum (payload_count oob S) A" unfolding eq .
  moreover have "0 \<le> sum ?g (set st)" by (rule sum_nonneg) (use sub g in blast)
  ultimately show ?thesis unfolding eq by simp
qed

text \<open>
  C3 (safety). Nothing is counted twice, from the call to the ingester. For calls of \<open>Count\<close> with natural
  deltas that sum to less than \<open>2 ^ 53\<close>, any set of series, any interleaving of callers, worker and
  \<open>Close\<close>, any hash function, any clock without two equal readings, and every pattern of lost requests,
  lost answers, reported failures and forgotten definitions: no payload holds a negative count; what the ingester holds for the series is at
  most what the payloads ever sent hold; and these, the batches waiting for a retry (a batch that was
  sent and waits again is one payload), the current batch, the channel and the calls that have not
  pushed yet hold together at most what was counted.
\<close>

theorem never_counted_twice:
  assumes "faults_ok fault" and "wtBase wt = Some t" and "htEndpoint t \<noteq> []"
    and "validateWorkload (wtWorkload wt) = None" and "inj clk"
    and "\<forall>a \<in> set es. call_ok call_safe a \<and> call_ok counting_call a"
    and "total_count oob UNIV es < 2 ^ 53"
  shows "let c = system_run fault clk oob wt hash now es;
      payloads = set (sent c) \<union> rbPayload ` set (clRetry c) in
    (\<forall>p. p \<in> payloads \<longrightarrow> 0 \<le> payload_count oob S p) \<and>
    store_total S (system_store c) \<in> {0..(\<Sum>p \<in> set (sent c). payload_count oob S p)} \<and>
    (\<Sum>p \<in> payloads. payload_count oob S p) +
      sum_list (map (event_count oob S) (clBatch c @ clQueue c @ clPending c)) \<in> {0..total_count oob S es}"
proof -
  let ?c = "system_run fault clk oob wt hash now es"
  have safe: "\<forall>a \<in> set es. call_ok call_safe a" and cnt: "\<forall>a \<in> set es. call_ok counting_call a"
    using assms(6) by simp_all
  have st: "distinct (map fst (system_store ?c))"
      "set (system_store ?c) \<subseteq> (\<lambda>p. (batchID p, payload_events oob p)) ` set (sent ?c)"
    using system_run_store [OF assms(1-5) safe, where oob = oob and now = now and hash = hash]
    by (auto simp: store_of_sent_def system_store_def sent_def split: prod.split_asm)
  have sp: "spread oob S ?c \<le> total_count oob S es" "\<forall>e \<in> set (events_in ?c). counting_event e"
      "\<forall>p \<in> payloads_of ?c. 0 \<le> payload_count oob S p"
    using system_spread [OF cnt assms(7)] by (simp_all add: spreads_def spread_new)
  have "0 \<le> store_total S (system_store ?c) \<and>
      store_total S (system_store ?c) \<le> sum (payload_count oob S) (set (sent ?c))"
    by (rule store_total_sent [OF st]) (use sp(3) in \<open>auto simp: payloads_of_def\<close>)
  moreover have "0 \<le> spread oob S ?c"
    using sp(3) event_counts_nonneg [OF sp(2), of oob S] by (simp add: spread_def sum_nonneg)
  ultimately show ?thesis
    using sp(1,3) by (simp add: Let_def spread_def payloads_of_def events_in_def)
qed

lemma lossy_run_counts:
  "\<forall>a \<in> set lossy_run. call_ok call_safe a \<and> call_ok counting_call a"
  "total_count oob S lossy_run = (if (''c'', []) \<in> S then 2 else 0)"
proof -
  have "natural_delta (f64_of_int 2)" by (auto simp: natural_delta_def intro!: exI [of _ 2])
  then show "\<forall>a \<in> set lossy_run. call_ok call_safe a \<and> call_ok counting_call a"
    using lossy_run_safe(1) by (simp add: lossy_run_def demo_calls_def call_ok_def counting_call_def)
  show "total_count oob S lossy_run = (if (''c'', []) \<in> S then 2 else 0)"
    by (simp add: lossy_run_def demo_calls_def total_count_def action_count_def call_count_def round_int64_of_int)
qed

theorem never_counted_twice_witness:
  "let c = system_run lossy_fault (\<lambda>n. 5 - int n) (\<lambda>x. 0) sample_wrapper (\<lambda>m ls. 0) 5 lossy_run;
      payloads = set (sent c) \<union> rbPayload ` set (clRetry c) in
    (\<forall>p. p \<in> payloads \<longrightarrow> 0 \<le> payload_count (\<lambda>x. 0) {(''c'', [])} p) \<and>
    store_total {(''c'', [])} (system_store c) \<in> {0..(\<Sum>p \<in> set (sent c). payload_count (\<lambda>x. 0) {(''c'', [])} p)} \<and>
    (\<Sum>p \<in> payloads. payload_count (\<lambda>x. 0) {(''c'', [])} p) +
      sum_list (map (event_count (\<lambda>x. 0) {(''c'', [])}) (clBatch c @ clQueue c @ clPending c)) \<in> {0..2}"
  using never_counted_twice [OF lossy_fault_ok, where wt = sample_wrapper and t = sample_transport
      and clk = "\<lambda>n. 5 - int n" and es = lossy_run and oob = "\<lambda>x. 0" and now = 5 and hash = "\<lambda>m ls. 0"
      and S = "{(''c'', [])}"] lossy_run_counts sample_workload by simp

subsection \<open>A service that answers loses nothing\<close>

text \<open>
  The contract of a transport that accepts every batch it is given within its world. Its client never
  has a batch waiting, a closed gate or a stop, and its counts are conserved exactly: a step adds what
  it counts and loses nothing, unless the channel is full.
\<close>

definition smooth :: "'w client \<Rightarrow> bool" where
  "smooth c \<longleftrightarrow> clRetry c = [] \<and> clNextSend c = None \<and> \<not> clStopSending c"

definition accepted_call :: "call \<Rightarrow> bool" where
  "accepted_call k = (case k of Count metric _ labels \<Rightarrow> metric \<noteq> [] \<and> \<not> hasWorkloadLabel labels | _ \<Rightarrow> True)"

definition exact :: "(f64 \<Rightarrow> int) \<Rightarrow> seriesSet \<Rightarrow> int \<Rightarrow> (payload list \<times> 'w) client \<Rightarrow> (payload list \<times> 'w) client \<Rightarrow> bool" where
  "exact oob S n c c' \<longleftrightarrow> smooth c' \<and> spread oob S c' = spread oob S c + n"

lemma smooth_flush_queue [simp]: "smooth c \<Longrightarrow> flushRetryQueue env ig c = c"
  by (simp add: smooth_def flushRetryQueue_def)

lemma sendPayload_direct:
  assumes "\<not> payload_empty p" and "batchID p \<noteq> []" and "smooth c" and "transport_send env p (clWorld c) = (None, w)"
  shows "sendPayload env p n c = c\<lparr>clBackoffAttempt := 0, clNextSend := None, clWorld := w\<rparr>"
  using assms by (simp add: sendPayload_def smooth_def deferForClientBackoff_def resetTransientBackoff_def)

text \<open>A new batch ID is on no payload that exists.\<close>

lemma fresh_payload:
  assumes "log_ok c" and "unat (clBatchSeq c) < 2 ^ 64 - 1" and "batchID p = fst (nextBatchID c)"
  shows "p \<notin> payloads_of c"
proof -
  have "unat (clBatchSeq c + 1) = Suc (unat (clBatchSeq c))" by (rule batch_seq_Suc [OF assms(2)])
  then have "\<not> issued (clBatchSession c) (unat (clBatchSeq c)) (batchID p)"
    by (auto simp: issued_def assms(3) nextBatchID_def Let_def dest: fmt_nat_inj [of 36, simplified])
  then show ?thesis using assms(1) by (auto simp: log_ok_def log_inv_def payloads_of_def)
qed

locale acking_transport = transport_contract env W K E C
  for env :: "'w client_env" and W :: "'w \<Rightarrow> bool" and K :: "payload \<Rightarrow> bool"
    and E :: "event \<Rightarrow> bool" and C :: "call \<Rightarrow> bool" +
  assumes acks: "W w \<Longrightarrow> K p \<Longrightarrow> \<not> payload_empty p \<Longrightarrow> fst (transport_send env p w) = None"
begin

sublocale recorded: transport_contract "logged env" "\<lambda>x. W (snd x)" K E C
  using clock_keeps send_keeps call_events built total_events
  by unfold_locales (auto simp: logged_def case_prod_beta)

lemma recorded_ack:
  assumes "W (snd x)" and "K p" and "\<not> payload_empty p"
  shows "\<exists>w. transport_send (logged env) p x = (None, (fst x @ [p], w))"
  using acks [OF assms] by (cases x) (simp add: logged_def case_prod_beta)

lemma flush_batch_exact:
  assumes inv: "contract_inv (\<lambda>x. W (snd x)) K E c" and s: "smooth c"
    and ok: "log_ok c" "unat (clBatchSeq c) < 2 ^ 64 - 1"
    and cnt: "\<forall>e \<in> set (clBatch c). counting_event e" "sum_list (map (event_count oob UNIV) (clBatch c)) < 2 ^ 53"
  shows "exact oob S 0 c (flush_batch (logged env) c)"
proof (cases "clBatch c = []")
  case False
  let ?es = "clBatch c" and ?c1 = "snd (nextBatchID c)"
  obtain b where b: "add_events (series_hash (logged env)) ?es newBatchBuilder = Some b"
      "event_effect (series_hash (logged env)) ?es newBatchBuilder b"
    using add_events_effect [OF wf_newBatchBuilder] by blast
  let ?p = "(bPayload b)\<lparr>batchID := fst (nextBatchID c)\<rparr>"
  have w: "payload_count oob S ?p = sum_list (map (event_count oob S) ?es)"
    unfolding payload_count_def by (rule built_count [OF cnt b(1)])
  have emp: "payload_empty ?p = payload_empty (bPayload b)" by (simp add: payload_empty_def)
  have c1: "?c1 = c\<lparr>clBatchSeq := clBatchSeq c + 1\<rparr>" by (simp add: nextBatchID_def Let_def)
  have bid: "batchID (bPayload b) = []" using b(2) by (simp add: event_effect_def newBatchBuilder_def)
  show ?thesis
  proof (cases "payload_empty (bPayload b)")
    case True
    then have "payload_count oob S ?p = 0"
      by (simp add: payload_count_def read_total_payload payload_empty_def)
    moreover have "flush_batch (logged env) c = c\<lparr>clBatch := []\<rparr>"
      using False True s b(1)
      by (simp add: flush_batch_def flush_events_def smooth_def buildPayload_def build_def)
    ultimately show ?thesis
      using w s by (simp add: exact_def smooth_def spread_def events_in_def payloads_of_def sent_def)
  next
    case ne: False
    have plain: "plain_id (fst (nextBatchID c))" using inv by (simp add: contract_inv_def plain_batch_id)
    have K: "K ?p" by (rule recorded.built [OF _ plain b(1)]) (use inv in \<open>simp add: contract_inv_def\<close>)
    have build: "buildPayload (logged env) ?es c = (Some ?p, ?c1)"
      using ne b(1) bid by (simp add: buildPayload_def build_def case_prod_beta)
    have "W (snd (clWorld c))" using inv by (simp add: contract_inv_def)
    from recorded_ack [OF this K] ne emp obtain w where
      t: "transport_send (logged env) ?p (clWorld ?c1) = (None, (sent c @ [?p], w))"
      by (auto simp: sent_def c1)
    have "sendPayload (logged env) ?p 1 ?c1 = ?c1\<lparr>clBackoffAttempt := 0, clNextSend := None, clWorld := (sent c @ [?p], w)\<rparr>"
      by (rule sendPayload_direct [OF _ _ _ t])
        (use ne emp s nextBatchID_not_Nil [of c] in \<open>simp_all add: smooth_def c1\<close>)
    then have fl: "flush_batch (logged env) c =
        c\<lparr>clBatchSeq := clBatchSeq c + 1, clBackoffAttempt := 0, clNextSend := None, clWorld := (sent c @ [?p], w), clBatch := []\<rparr>"
      using False s build by (simp add: flush_batch_def flush_events_def smooth_def c1)
    have "?p \<notin> payloads_of c" by (rule fresh_payload [OF ok]) simp
    moreover have "payloads_of (flush_batch (logged env) c) = insert ?p (payloads_of c)"
      by (simp add: fl payloads_of_def sent_def)
    ultimately have "sum (payload_count oob S) (payloads_of (flush_batch (logged env) c)) =
        sum (payload_count oob S) (payloads_of c) + sum_list (map (event_count oob S) ?es)"
      using w by simp
    then show ?thesis
      using s by (simp add: exact_def spread_def events_in_def) (simp add: fl smooth_def)
  qed
qed (use s in \<open>simp add: exact_def flush_batch_def\<close>)

end

text \<open>No step changes the workload; the drop counter grows by at most one, when the channel is full.\<close>

lemma flush_batch_frame:
  "retry_bounds (clRetry c) \<Longrightarrow>
   clDropped (flush_batch env c) = clDropped c \<and> clWorkload (flush_batch env c) = clWorkload c"
  using flush_events_bounds [of c env "clBatch c"] by (simp add: flush_batch_def send_frame_def)

lemma flush_all_frame:
  assumes rb: "retry_bounds (clRetry c)"
  shows "clDropped (flushRetryQueue env ig (flush_batch env c)) = clDropped c \<and>
    clWorkload (flushRetryQueue env ig (flush_batch env c)) = clWorkload c"
  using flush_batch_frame [OF rb, of env]
    flushRetryQueue_bounds [OF flush_batch_bounds(1) [OF rb, of env], of env ig]
  by (simp add: send_frame_def)

lemma client_step_frame:
  assumes rb: "retry_bounds (clRetry c)"
  shows "clWorkload (client_step env c a) = clWorkload c \<and>
    (clDropped (client_step env c a) = clDropped c \<or> clDropped (client_step env c a) = clDropped c + 1)"
proof (cases a)
  case (DoCall k pooled)
  obtain ps l w where "client_call env pooled k c = c\<lparr>clPending := ps, clLimiter := l, clWorld := w\<rparr>"
    using client_call_frame [of env c pooled k] unfolding call_frame_def by blast
  then show ?thesis using DoCall by (simp add: client_step_def)
next
  case (DoPush i)
  then show ?thesis by (simp add: client_step_def push_event_def)
next
  case Recv
  have fb: "clDropped (flush_batch env c1) = clDropped c1 \<and> clWorkload (flush_batch env c1) = clWorkload c1"
    if "clRetry c1 = clRetry c" for c1
    using flush_batch_frame [of c1 env] rb that by simp
  have "clDropped (receive env ev (c\<lparr>clQueue := rest\<rparr>)) = clDropped c \<and>
      clWorkload (receive env ev (c\<lparr>clQueue := rest\<rparr>)) = clWorkload c" for ev rest
    using fb by (auto simp: receive_def Let_def case_prod_beta split: option.split)
  then show ?thesis using Recv by (simp add: client_step_def split: list.split)
qed (use flush_all_frame [OF rb] in \<open>simp_all add: client_step_def\<close>)

lemma client_run_dropped:
  fixes c :: "(payload list \<times> 'w) client"
  assumes "log_ok c" and "unat (clBatchSeq c) + length es < 2 ^ 64" and "unat (clDropped c) + length es < 2 ^ 64"
    and "clDropped (run_steps (client_step (logged env)) c es) = 0"
  shows "clDropped c = 0"
  using assms
proof (induction es arbitrary: c)
  case (Cons a es)
  let ?c' = "client_step (logged env) c a"
  have rb: "retry_bounds (clRetry c)" using Cons.prems(1) by (simp add: log_ok_def)
  have lg: "log_ok ?c'" "unat (clBatchSeq ?c') \<le> Suc (unat (clBatchSeq c))"
    using client_step_log [OF Cons.prems(1), of env a] Cons.prems(2) by simp_all
  have suc: "unat (clDropped c + 1) = Suc (unat (clDropped c))"
    using Cons.prems(3) by (intro batch_seq_Suc) simp
  have d: "clDropped ?c' = clDropped c \<or> clDropped ?c' = clDropped c + 1" using client_step_frame [OF rb] by blast
  then have "unat (clDropped ?c') \<le> Suc (unat (clDropped c))" using suc by (elim disjE) simp_all
  then have "unat (clDropped ?c') + length es < 2 ^ 64" using Cons.prems(3) unfolding list.size by linarith
  moreover have "unat (clBatchSeq ?c') + length es < 2 ^ 64" using Cons.prems(2) lg(2) unfolding list.size by linarith
  moreover have "clDropped (run_steps (client_step (logged env)) ?c' es) = 0" using Cons.prems(4) by simp
  ultimately have "clDropped ?c' = 0" using Cons.IH [OF lg(1)] by blast
  then show ?case using d suc by (metis nat.distinct(1) unsigned_0)
qed simp

lemma client_run_stays_exited:
  fixes c :: "(payload list \<times> 'w) client"
  shows "clPhase c = Exited \<Longrightarrow> clPhase (run_steps (client_step (logged env)) c es) = Exited"
  by (induction es arbitrary: c) (simp_all add: client_step_exited)

definition accepting :: "'w client \<Rightarrow> action \<Rightarrow> bool" where
  "accepting c a \<longleftrightarrow>
     (case a of DoCall k _ \<Rightarrow> accepted_call k \<and> clPhase c \<noteq> Exited \<and> clWorkload c \<noteq> [] | _ \<Rightarrow> True)"

definition is_call :: "action \<Rightarrow> bool" where
  "is_call a = (case a of DoCall _ _ \<Rightarrow> True | _ \<Rightarrow> False)"

definition accepted_action :: "action \<Rightarrow> bool" where
  "accepted_action a = (case a of DoCall k _ \<Rightarrow> accepted_call k | _ \<Rightarrow> True)"

lemma exact_refl: "smooth c \<Longrightarrow> exact oob S 0 c c"
  by (simp add: exact_def)

lemma exact_phase [simp]: "exact oob S n c (c'\<lparr>clPhase := x\<rparr>) = exact oob S n c c'"
  by (simp add: exact_def spread_def events_in_def payloads_of_def sent_def smooth_def)

lemma accepted_call_exact:
  fixes env :: "'w client_env" and c :: "(payload list \<times> 'w) client"
  assumes s: "smooth c" and acc: "accepting c (DoCall k pooled)"
  shows "exact oob S (call_count oob S k) c (client_call (logged env) pooled k c)"
proof -
  let ?c' = "client_call (logged env) pooled k c"
  obtain ps l w where f: "?c' = c\<lparr>clPending := ps, clLimiter := l, clWorld := w\<rparr>"
      "clock_star (logged env) (clWorld c) w"
    using client_call_frame [of "logged env" c pooled k] unfolding call_frame_def by blast
  have pay: "payloads_of ?c' = payloads_of c"
    using f clock_star_logged [OF f(2)] by (simp add: payloads_of_def sent_def)
  have "clPending ?c' \<noteq> clPending c \<or> call_count oob S k = 0"
  proof (cases k)
    case (Count m d ls)
    then have "admits m ls c" using s acc by (simp add: admits_def accepting_def accepted_call_def smooth_def)
    then have "clPending ?c' \<noteq> clPending c"
      using Count by (simp add: client_call_def enqueue_def read_clock_def case_prod_beta)
    then show ?thesis by simp
  qed (simp_all add: call_count_def)
  moreover from client_call_pending [of "logged env" pooled k c]
  have "clPending ?c' = clPending c \<or> (\<exists>now. clPending ?c' = clPending c @ [call_event k now])" .
  ultimately have "sum_list (map (event_count oob S) (clPending ?c')) =
      sum_list (map (event_count oob S) (clPending c)) + call_count oob S k"
    by (auto simp: call_event_count)
  then show ?thesis using s pay by (simp add: exact_def spread_def events_in_def) (simp add: f(1) smooth_def)
qed

context acking_transport
begin

lemma client_step_exact:
  assumes inv: "contract_inv (\<lambda>x. W (snd x)) K E c" and s: "smooth c"
    and ok: "log_ok c" "unat (clBatchSeq c) < 2 ^ 64 - 1" and cnt: "countable oob S c"
    and acc: "accepting c a" and drop: "clDropped (client_step (logged env) c a) = clDropped c"
  shows "exact oob S (action_count oob S a) c (client_step (logged env) c a)"
proof -
  have flush: "exact oob S 0 c (flush_batch (logged env) c)"
    using countable_small [OF cnt] cnt
    by (intro flush_batch_exact [OF inv s ok]) (auto simp: countable_def events_in_def)
  then have flush_all: "exact oob S 0 c (flushRetryQueue (logged env) ig (flush_batch (logged env) c))" for ig
    by (simp add: exact_def)
  show ?thesis
  proof (cases a)
    case (DoCall k pooled)
    then show ?thesis
      using accepted_call_exact [OF s, of k pooled oob S env] acc by (simp add: client_step_def action_count_def)
  next
    case (DoPush i)
    show ?thesis
    proof (cases "i < length (clPending c)")
      case True
      have "length (clQueue c) < defaultQueueSize"
        using drop DoPush True by (auto simp: client_step_def push_event_def split: if_split_asm)
      then show ?thesis
        using True DoPush s sum_remove_nth [OF True, of "event_count oob S"]
        by (simp add: client_step_def push_event_def exact_def spread_def events_in_def payloads_of_def sent_def
            action_count_def smooth_def)
    qed (use DoPush exact_refl [OF s] in \<open>simp add: client_step_def action_count_def\<close>)
  next
    case Tick
    then show ?thesis
      using flush_all exact_refl [OF s] by (simp add: client_step_def action_count_def)
  next
    case Recv
    show ?thesis
    proof (cases "clQueue c")
      case (Cons ev rest)
      let ?c1 = "c\<lparr>clQueue := rest, clBatch := clBatch c @ [ev]\<rparr>"
      have "etyp ev \<noteq> MtTotal" using cnt Cons by (simp add: countable_def events_in_def counting_event_def)
      then have r: "receive (logged env) ev (c\<lparr>clQueue := rest\<rparr>) =
          (if length (clBatch ?c1) \<ge> defaultMaxBatchSize then flush_batch (logged env) ?c1 else ?c1)"
        by (simp add: receive_def Let_def)
      have eq: "spread oob S ?c1 = spread oob S c" "payloads_of ?c1 = payloads_of c"
        using Cons by (simp_all add: spread_def events_in_def payloads_of_def sent_def)
      have cnt1: "countable oob S ?c1" using cnt Cons eq(2) by (auto simp: countable_def events_in_def)
      have one: "contract_inv (\<lambda>x. W (snd x)) K E ?c1" "smooth ?c1" "log_ok ?c1" "unat (clBatchSeq ?c1) < 2 ^ 64 - 1"
        using inv s ok Cons by (auto simp: contract_inv_def smooth_def log_ok_def sent_def)
      have "exact oob S 0 ?c1 (flush_batch (logged env) ?c1)"
        using countable_small [OF cnt1] cnt1
        by (intro flush_batch_exact [OF one]) (auto simp: countable_def events_in_def)
      then have "exact oob S 0 c (receive (logged env) ev (c\<lparr>clQueue := rest\<rparr>))"
        using one(2) eq(1) unfolding r exact_def by simp
      then show ?thesis
        using Cons Recv exact_refl [OF s] by (simp add: client_step_def action_count_def)
    qed (use Recv exact_refl [OF s] in \<open>simp add: client_step_def action_count_def\<close>)
  next
    case EndDrain
    then show ?thesis
      using flush_all [of True] exact_refl [OF s] by (simp add: client_step_def action_count_def)
  qed (use s in \<open>simp_all add: client_step_def action_count_def exact_def spread_def events_in_def payloads_of_def
        sent_def smooth_def\<close>)
qed

lemma run_exact:
  assumes "contract_inv (\<lambda>x. W (snd x)) K E c" and "smooth c" and "log_ok c"
    and "unat (clBatchSeq c) + length es < 2 ^ 64" and "unat (clDropped c) + length es < 2 ^ 64"
    and "accounted oob UNIV c" and "accounted oob S c" and "\<forall>a \<in> set es. call_ok counting_call a \<and> call_ok C a"
    and "spread oob UNIV c + total_count oob UNIV es < 2 ^ 53"
    and "clDropped (run_steps (client_step (logged env)) c es) = 0"
    and "(\<forall>a \<in> set es. \<not> is_call a) \<or>
      (\<forall>a \<in> set es. accepted_action a) \<and> clWorkload c \<noteq> [] \<and> clPhase (run_steps (client_step (logged env)) c es) \<noteq> Exited"
  shows "exact oob S (total_count oob S es) c (run_steps (client_step (logged env)) c es)"
  using assms
proof (induction es arbitrary: c)
  case (Cons a es)
  let ?c' = "client_step (logged env) c a"
  have a: "call_ok counting_call a" "call_ok C a" and es: "\<forall>a \<in> set es. call_ok counting_call a \<and> call_ok C a"
    using Cons.prems(8) by simp_all
  have nn: "0 \<le> total_count oob UNIV es"
    using es action_count_nonneg by (auto simp: total_count_def intro!: sum_list_nonneg)
  have small: "spread oob UNIV c < 2 ^ 53"
    using Cons.prems(9) nn action_count_nonneg [OF a(1), of oob UNIV] by (simp add: total_count_def)
  note cnt = accounted_countable [OF Cons.prems(6,7) small]
  note one = client_step_spread [OF cnt a(1), of env]
    client_step_spread [OF accounted_countable [OF Cons.prems(6,6) small] a(1), of env]
  have seq: "unat (clBatchSeq c) < 2 ^ 64 - 1" using Cons.prems(4) by simp
  note lg = client_step_log [OF Cons.prems(3) seq, of env a]
  have rb: "retry_bounds (clRetry c)" using Cons.prems(3) by (simp add: log_ok_def)
  have lg': "log_ok ?c'" using lg by simp
  have n1: "unat (clBatchSeq ?c') + length es < 2 ^ 64" using Cons.prems(4) lg unfolding list.size by linarith
  have d0: "clDropped c = 0" by (rule client_run_dropped [OF Cons.prems(3,4,5,10)])
  have "unat (clDropped ?c') \<le> Suc (unat (clDropped c))"
    using client_step_frame [OF rb, of "logged env" a] d0 by (elim conjE disjE) simp_all
  then have n2: "unat (clDropped ?c') + length es < 2 ^ 64" using Cons.prems(5) unfolding list.size by linarith
  have run: "clDropped (run_steps (client_step (logged env)) ?c' es) = 0" using Cons.prems(10) by simp
  have d1: "clDropped ?c' = 0" by (rule client_run_dropped [OF lg' n1 n2 run])
  have ph: "clPhase c \<noteq> Exited" if "clPhase (run_steps (client_step (logged env)) c (a # es)) \<noteq> Exited"
    using that client_run_stays_exited [of c env "a # es"] by blast
  have acc: "accepting c a"
    using Cons.prems(11) ph by (auto simp: accepting_def accepted_action_def is_call_def split: action.split)
  have ex: "exact oob S (action_count oob S a) c ?c'"
    by (rule client_step_exact [OF Cons.prems(1,2,3) seq cnt acc]) (simp add: d0 d1)
  have "exact oob S (total_count oob S es) ?c' (run_steps (client_step (logged env)) ?c' es)"
  proof (rule Cons.IH [OF _ _ lg' n1 n2 _ _ es _ run])
    show "contract_inv (\<lambda>x. W (snd x)) K E ?c'" by (rule recorded.client_step_keeps [OF Cons.prems(1) a(2)])
    show "smooth ?c'" using ex by (simp add: exact_def)
    show "accounted oob UNIV ?c'" "accounted oob S ?c'" using one by (simp_all add: spreads_def accounted_def)
    show "spread oob UNIV ?c' + total_count oob UNIV es < 2 ^ 53"
      using one Cons.prems(9) by (simp add: spreads_def total_count_def)
    show "(\<forall>a \<in> set es. \<not> is_call a) \<or>
        (\<forall>a \<in> set es. accepted_action a) \<and> clWorkload ?c' \<noteq> [] \<and>
        clPhase (run_steps (client_step (logged env)) ?c' es) \<noteq> Exited"
      using Cons.prems(11) client_step_frame [OF rb, of "logged env" a] by auto
  qed
  then show ?case using ex by (simp add: exact_def total_count_def)
qed (simp add: exact_def total_count_def)

end

interpretation ingest_acks: acking_transport "acked (ingest_client fault oob wt hash)"
    "\<lambda>x. ingest_ok fault wt (snd x) \<and> answering fault" batch_safe event_safe call_safe
  for fault oob wt hash
proof
  fix x :: "payload list \<times> ingest transportState" and p
  assume x: "ingest_ok fault wt (snd x) \<and> answering fault" and p: "batch_safe p" "\<not> payload_empty p"
  then show "fst (transport_send (acked (ingest_client fault oob wt hash)) p x) = None"
    using answering_client_send [of fault wt "snd x" p oob hash]
    by (cases x) (simp add: acked_def case_prod_beta)
  show "ingest_ok fault wt (snd (snd (transport_send (acked (ingest_client fault oob wt hash)) p x))) \<and> answering fault"
    using x ingest_delivery.send_keeps [of fault wt "snd x" p oob hash] p
    by (cases x) (simp add: acked_def case_prod_beta)
next
  fix x :: "payload list \<times> ingest transportState"
  assume "ingest_ok fault wt (snd x) \<and> answering fault"
  then show "ingest_ok fault wt (snd (snd (time_now (acked (ingest_client fault oob wt hash)) x))) \<and> answering fault"
    using ingest_client_clock [of fault wt "snd x" oob hash] by (cases x) (simp add: acked_def case_prod_beta)
qed (use call_event_safe built_safe applyTotal_safe in simp_all)

text \<open>Against such a service, what is sent is what is acknowledged.\<close>

definition all_acked :: "(nat \<Rightarrow> fault) \<Rightarrow> workloadHTTPTransport \<Rightarrow> payload list \<times> payload list \<times> ingest transportState \<Rightarrow> bool" where
  "all_acked fault wt x \<longleftrightarrow> fst x = fst (snd x) \<and> ingest_ok fault wt (snd (snd x)) \<and> answering fault"

interpretation ingest_all: transport_contract "logged (acked (ingest_client fault oob wt hash))"
    "all_acked fault wt" batch_safe event_safe call_safe
  for fault oob wt hash
proof
  fix x p assume x: "all_acked fault wt x" and p: "batch_safe p" "\<not> payload_empty p"
  obtain w where w: "transport_send (logged (acked (ingest_client fault oob wt hash))) p x = (None, (fst x @ [p], w))"
    using ingest_acks.recorded_ack [of fault wt x p oob hash] x p by (auto simp: all_acked_def)
  then have "fst w = fst (snd x) @ [p]"
    by (cases x) (auto simp: logged_def acked_def split: prod.split_asm if_split_asm)
  then show "all_acked fault wt (snd (transport_send (logged (acked (ingest_client fault oob wt hash))) p x))"
    using x w ingest_acks.recorded.send_keeps [of fault wt x p oob hash] p by (simp add: all_acked_def)
next
  fix x assume x: "all_acked fault wt x"
  have "fst (snd (time_now (logged (acked (ingest_client fault oob wt hash))) x)) = fst x"
    "fst (snd (snd (time_now (logged (acked (ingest_client fault oob wt hash))) x))) = fst (snd x)"
    by (cases x, simp add: logged_def acked_def case_prod_beta)+
  then show "all_acked fault wt (snd (time_now (logged (acked (ingest_client fault oob wt hash))) x))"
    using x ingest_acks.recorded.clock_keeps [of fault wt x oob hash] by (simp add: all_acked_def)
qed (use call_event_safe built_safe applyTotal_safe in simp_all)

lemma system_run_append:
  "system_run fault clk oob wt hash now (xs @ ys) =
     run_steps (client_step (logged (acked (ingest_client fault oob wt hash)))) (system_run fault clk oob wt hash now xs) ys"
  by (simp add: system_run_def)

lemma system_store_all:
  assumes "answering fault" and "wtBase wt = Some t" and "htEndpoint t \<noteq> []"
    and "validateWorkload (wtWorkload wt) = None" and "inj clk" and "\<forall>a \<in> set es. call_ok call_safe a"
    and "length es < 2 ^ 64"
  shows "store_total S (system_store (system_run fault clk oob wt hash now es)) =
    sum (payload_count oob S) (set (sent (system_run fault clk oob wt hash now es)))"
proof -
  let ?c = "system_run fault clk oob wt hash now es" and ?f = "\<lambda>p. (batchID p, payload_events oob p)"
  note ap = system_run_applied [OF answering_ok [OF assms(1)] assms(2-7), where oob = oob and now = now and hash = hash]
  have "all_acked fault wt ([], [], ingest_start clk)"
    using assms ingest_inv_start [OF assms(5)] answering_ok [OF assms(1)] by (simp add: all_acked_def ingest_ok_def)
  from ingest_all.run_keeps_world [OF contract_inv_new [where W = "all_acked fault wt", OF this] assms(6)]
  have "sent ?c = system_acked ?c"
    by (simp add: contract_inv_def all_acked_def system_run_def sent_def system_acked_def)
  then have eq: "set (system_store ?c) = ?f ` set (sent ?c)" using ap(2,4) by auto
  have inj: "inj_on ?f (set (sent ?c))" using ap(3) by (auto simp: inj_on_def)
  have "distinct (system_store ?c)" using ap(1) by (simp add: distinct_map)
  then have "store_total S (system_store ?c) = sum (\<lambda>x. read_total S (snd x)) (set (system_store ?c))"
    by (simp add: store_total_def sum_list_distinct_conv_sum_set comp_def)
  also have "\<dots> = sum (payload_count oob S) (set (sent ?c))"
    unfolding eq by (simp add: sum.reindex [OF inj] payload_count_def comp_def)
  finally show ?thesis .
qed

subsection \<open>A Close that delivers\<close>

definition close_steps :: "nat \<Rightarrow> action list" where
  "close_steps n = BeginDrain # replicate n Recv @ [EndDrain]"

lemma worker_frame:
  assumes rb: "retry_bounds (clRetry c)" and a: "a \<in> {BeginDrain, Recv, EndDrain}"
  shows "clPending (client_step env c a) = clPending c \<and> clDropped (client_step env c a) = clDropped c"
proof -
  have fb: "clPending (flush_batch env c1) = clPending c1 \<and> clDropped (flush_batch env c1) = clDropped c1"
    if "clRetry c1 = clRetry c" for c1
    using flush_events_bounds [of c1 env "clBatch c1"] rb that by (simp add: flush_batch_def send_frame_def)
  have fq: "clPending (flushRetryQueue env True (flush_batch env c)) = clPending c \<and>
      clDropped (flushRetryQueue env True (flush_batch env c)) = clDropped c"
    using fb [OF refl] flushRetryQueue_bounds [OF flush_batch_bounds(1) [OF rb, of env], of env True]
    by (simp add: send_frame_def)
  have rc: "clPending (receive env ev (c\<lparr>clQueue := rest\<rparr>)) = clPending c \<and>
      clDropped (receive env ev (c\<lparr>clQueue := rest\<rparr>)) = clDropped c" for ev rest
    using fb by (auto simp: receive_def Let_def case_prod_beta split: option.split)
  show ?thesis using a fq rc by (auto simp: client_step_def split: list.split)
qed

lemma worker_run_frame:
  assumes "client_bounds c" and "set es \<subseteq> {BeginDrain, Recv, EndDrain}"
  shows "clPending (run_steps (client_step env) c es) = clPending c \<and>
    clDropped (run_steps (client_step env) c es) = clDropped c"
  using assms
proof (induction es arbitrary: c)
  case (Cons a es)
  have "clPending (client_step env c a) = clPending c \<and> clDropped (client_step env c a) = clDropped c"
    using worker_frame [of c a env] Cons.prems by (simp add: client_bounds_alt)
  then show ?case using Cons.IH [OF client_step_bounds [OF Cons.prems(1)]] Cons.prems(2) by simp
qed simp

lemma close_steps_props:
  "\<forall>a \<in> set (close_steps n). \<not> is_call a" "\<forall>a \<in> set (close_steps n). call_ok C a"
  "total_count oob S (close_steps n) = 0" "set (close_steps n) \<subseteq> {BeginDrain, Recv, EndDrain}"
  "length (close_steps n) = n + 2"
proof -
  have "sum_list (replicate n (0 :: int)) = 0" by (induction n) simp_all
  then show "total_count oob S (close_steps n) = 0"
    by (simp add: close_steps_def total_count_def action_count_def)
qed (auto simp: close_steps_def is_call_def call_ok_def)

lemma run_counters:
  fixes c :: "(payload list \<times> 'w) client"
  assumes "log_ok c" and "unat (clBatchSeq c) + length es < 2 ^ 64" and "unat (clDropped c) + length es < 2 ^ 64"
  shows "unat (clBatchSeq (run_steps (client_step (logged env)) c es)) \<le> unat (clBatchSeq c) + length es \<and>
    unat (clDropped (run_steps (client_step (logged env)) c es)) \<le> unat (clDropped c) + length es"
  using assms
proof (induction es arbitrary: c)
  case (Cons a es)
  let ?c' = "client_step (logged env) c a"
  have seq: "unat (clBatchSeq c) < 2 ^ 64 - 1" using Cons.prems(2) by simp
  note lg = client_step_log [OF Cons.prems(1) seq, of env a]
  have suc: "unat (clDropped c + 1) = Suc (unat (clDropped c))" using Cons.prems(3) by (intro batch_seq_Suc) simp
  have "retry_bounds (clRetry c)" using Cons.prems(1) by (simp add: log_ok_def)
  from client_step_frame [OF this, of "logged env" a]
  have d: "unat (clDropped ?c') \<le> Suc (unat (clDropped c))" using suc by (elim conjE disjE) simp_all
  have "unat (clBatchSeq ?c') + length es < 2 ^ 64" "unat (clDropped ?c') + length es < 2 ^ 64"
    using Cons.prems(2,3) lg d unfolding list.size by linarith+
  from Cons.IH [OF _ this] lg d show ?case by fastforce
qed simp

text \<open>
  C2 (liveness). With a service that answers (it may forget its definitions at every request), \<open>Close\<close>
  delivers everything: when every call has returned, the drop counter reads zero and \<open>Close\<close> was
  called, the worker's drain leaves in the ingester, for every set of series, exactly the sum of the
  natural deltas that were counted, however callers and worker interleaved and whatever the hash. The
  clock may run or be set back in any way in which no two readings give the same nanosecond.
\<close>

theorem close_delivers_every_count:
  fixes fault :: "nat \<Rightarrow> fault" and clk :: "nat \<Rightarrow> int" and oob :: "f64 \<Rightarrow> int" and wt :: workloadHTTPTransport
    and hash :: "string \<Rightarrow> string list \<Rightarrow> u64" and now :: int and es :: "action list"
  defines "c \<equiv> system_run fault clk oob wt hash now es"
  defines "c' \<equiv> system_run fault clk oob wt hash now (es @ close_steps (length (clQueue c)))"
  assumes "answering fault" and "wtBase wt = Some t" and "htEndpoint t \<noteq> []"
    and "validateWorkload (wtWorkload wt) = None" and "inj clk"
    and "\<forall>a \<in> set es. call_ok call_safe a \<and> call_ok counting_call a \<and> accepted_action a"
    and "total_count oob UNIV es < 2 ^ 53" and "length es + length (clQueue c) + 2 < 2 ^ 64"
    and "clPhase c = Running" and "clCancelled c" and "clPending c = []" and "clDropped c = 0"
  shows "clPhase c' = Exited \<and> store_total S (system_store c') = total_count oob S es"
proof -
  let ?env = "logged (acked (ingest_client fault oob wt hash))"
  let ?n = "length (clQueue c)"
  let ?start = "new_client (wtWorkload wt) now ([], [], ingest_start clk) :: (payload list \<times> payload list \<times> ingest transportState) client"
  have run: "c' = run_steps (client_step ?env) c (close_steps ?n)" by (simp add: c'_def c_def system_run_append)
  have len: "length es + length (close_steps ?n) < 2 ^ 64" using assms(10) by (simp add: close_steps_props)
  have start: "contract_inv (\<lambda>x. ingest_ok fault wt (snd (snd x)) \<and> answering fault) batch_safe event_safe ?start"
    using assms(3-7) ingest_inv_start [OF assms(7)] answering_ok [OF assms(3)]
    by (intro contract_inv_new) (simp add: ingest_ok_def)
  have wl: "wtWorkload wt \<noteq> []" using assms(6) by (auto simp: validateWorkload_iff)
  have safe: "\<forall>a \<in> set es. call_ok call_safe a" and cnt: "\<forall>a \<in> set es. call_ok counting_call a"
    and acc: "\<forall>a \<in> set es. accepted_action a" using assms(8) by simp_all
  have cb: "client_bounds c" unfolding c_def system_run_def by (rule client_run.run_keeps) simp_all
  have lg: "log_ok c" using system_run_log len by (simp add: c_def)
  have zero: "unat (clBatchSeq ?start) = 0" "unat (clDropped ?start) = 0" "clWorkload ?start \<noteq> []" "smooth ?start"
    using wl by (simp_all add: new_client_def smooth_def)
  have c: "c = run_steps (client_step ?env) ?start es" by (simp add: c_def system_run_def)
  have bounds: "unat (clBatchSeq c) \<le> length es" "unat (clDropped c) \<le> length es"
    using run_counters [OF log_ok_new, of "wtWorkload wt" now "([], ingest_start clk)" es "acked (ingest_client fault oob wt hash)"]
      len zero by (simp_all add: c)
  have n1: "unat (clBatchSeq c) + length (close_steps ?n) < 2 ^ 64" and n2: "unat (clDropped c) + length (close_steps ?n) < 2 ^ 64"
    using bounds len by linarith+
  have d: "clDropped c = 0" by (rule assms(14))
  have d': "clDropped (run_steps (client_step ?env) c (close_steps ?n)) = 0"
    using worker_run_frame [OF cb close_steps_props(4)] d by metis
  have ex: "exact oob S (total_count oob S es) ?start c" for S
    unfolding c
    by (rule ingest_acks.run_exact [OF start zero(4) log_ok_new _ _ accounted_new accounted_new])
      (use len zero safe cnt acc assms(9,11) d in \<open>simp_all add: spread_new flip: c\<close>)
  have sp: "spreads oob S (total_count oob S es) ?start c" for S
    unfolding c_def by (rule system_spread [OF cnt assms(9)])
  have inv: "contract_inv (\<lambda>x. ingest_ok fault wt (snd (snd x)) \<and> answering fault) batch_safe event_safe c"
    unfolding c by (rule ingest_acks.recorded.run_keeps_world [OF start safe])
  have ac: "accounted oob S c" for S using sp [of S] by (simp add: accounted_def spreads_def)
  have tail: "exact oob S 0 c c'"
    unfolding run close_steps_props(3) [of oob S ?n, symmetric]
    by (rule ingest_acks.run_exact [OF inv _ lg n1 n2 ac ac])
      (use ex [of UNIV] d' assms(9) close_steps_props in \<open>simp_all add: exact_def spread_new call_ok_def\<close>)
  have ends: "clPhase c' = Exited" "clQueue c' = []" "clBatch c' = []"
    using close_ends [OF cb assms(11,12), of ?env] by (simp_all add: run close_steps_def)
  have "clPending c' = []"
    using worker_run_frame [OF cb close_steps_props(4)] assms(13) unfolding run by metis
  then have "spread oob S c' = sum (payload_count oob S) (set (sent c'))"
    using tail ends by (simp add: spread_def events_in_def exact_def smooth_def payloads_of_def)
  also have "\<dots> = store_total S (system_store c')"
    unfolding c'_def
    by (rule system_store_all [symmetric, OF assms(3-7)]) (use safe len close_steps_props(2) in auto)
  finally show ?thesis using ends(1) tail ex [of S] by (simp add: exact_def spread_new)
qed

definition quiet_fault :: "nat \<Rightarrow> fault" where
  "quiet_fault n = (if even n then Served else Forgetting)"

text \<open>Two counts of one series and one of another, one of them received before \<open>Close\<close>.\<close>

definition busy_run :: "action list" where
  "busy_run =
     [DoCall (Count ''c'' (f64_of_int 2) []) new_event, DoCall (Count ''d'' (f64_of_int 7) []) new_event,
      DoPush 1, Recv, DoCall (Count ''c'' (f64_of_int 3) []) new_event, DoPush 0, DoPush 0, Cancel]"

lemma busy_run_ends:
  defines "c \<equiv> system_run quiet_fault (\<lambda>n. 5 - int n) (\<lambda>x. 0) sample_wrapper (\<lambda>m ls. 0) 5 busy_run"
  shows "clPhase c = Running \<and> clCancelled c \<and> clPending c = [] \<and> clDropped c = 0 \<and> length (clQueue c) = 2"
  by (simp add: c_def system_run_def busy_run_def client_step_def client_call_def enqueue_def admits_def read_clock_def
      logged_def acked_def ingest_client_def ingest_clock_def push_event_def receive_def new_client_def
      ingest_start_def defaultQueueSize_def defaultMaxBatchSize_def borrowEvent_def releaseEvent_def new_event_def)

lemma busy_run_ok:
  "\<forall>a \<in> set busy_run. call_ok call_safe a \<and> call_ok counting_call a \<and> accepted_action a"
  "total_count oob S busy_run = (if (''c'', []) \<in> S then 5 else 0) + (if (''d'', []) \<in> S then 7 else 0)"
proof -
  have "natural_delta (f64_of_int n)" if "0 \<le> n" "n < 10" for n
    using that by (auto simp: natural_delta_def intro!: exI [of _ n])
  then show "\<forall>a \<in> set busy_run. call_ok call_safe a \<and> call_ok counting_call a \<and> accepted_action a"
    by (simp add: busy_run_def call_ok_def counting_call_def call_safe_def series_safe_def nul_free_def wire_safe_def
        accepted_action_def accepted_call_def)
  show "total_count oob S busy_run = (if (''c'', []) \<in> S then 5 else 0) + (if (''d'', []) \<in> S then 7 else 0)"
    by (simp add: busy_run_def total_count_def action_count_def call_count_def round_int64_of_int)
qed

theorem close_delivers_every_count_witness:
  "let c' = system_run quiet_fault (\<lambda>n. 5 - int n) (\<lambda>x. 0) sample_wrapper (\<lambda>m ls. 0) 5 (busy_run @ close_steps 2) in
    clPhase c' = Exited \<and> store_total {(''c'', [])} (system_store c') = 5 \<and>
    store_total {(''d'', [])} (system_store c') = 7 \<and> store_total UNIV (system_store c') = 12"
proof -
  have f: "answering quiet_fault" by (simp add: answering_def quiet_fault_def)
  have n: "length busy_run + length (clQueue (system_run quiet_fault (\<lambda>n. 5 - int n) (\<lambda>x. 0) sample_wrapper (\<lambda>m ls. 0) 5 busy_run)) + 2 < 2 ^ 64"
    using busy_run_ends by (simp add: busy_run_def)
  note all = close_delivers_every_count [OF f _ _ _ _ busy_run_ok(1) _ n, of sample_transport]
  show ?thesis
    using all [of "{(''c'', [])}"] all [of "{(''d'', [])}"] all [of UNIV] busy_run_ends busy_run_ok(2) sample_workload
    by (simp add: Let_def)
qed

end
