(* ===== verification/LoadGen.thy ===== *)
theory LoadGen
  imports Accounting
begin

section \<open>The load generator (cmd/statok-loadgen/main.go)\<close>

text \<open>
  A tool that emits synthetic metrics: \<open>main\<close> up to the running client, the metric specifications, and
  the loop of each of them, one tick at a time. Parameters: the random source of \<open>math/rand\<close> (shared by
  the loops, so its state is threaded through their ticks) and \<open>math.Sin\<close>.
\<close>

subsection \<open>Specifications\<close>

datatype metricKind = KindCounter | KindValue

record metricSpec =
  msName :: string
  msKind :: metricKind
  msInterval :: int
  msBurstSize :: int
  msBase :: f64
  msJitter :: f64
  msLabels :: "string list list"
  msSlowDrift :: bool
  msSineWave :: bool
  msSpikey :: bool
  msHighVolume :: bool

text \<open>A decimal constant: the nearest float64 of a ratio.\<close>

definition lit :: "nat \<Rightarrow> nat \<Rightarrow> f64" where
  "lit n d = f64_round False n d"

definition millisecond :: int where "millisecond = 1000000"

definition commonLabels :: "string list list" where
  "commonLabels =
     [[Label ''env'' ''dev'', Label ''region'' ''eu-west-1''],
      [Label ''env'' ''dev'', Label ''region'' ''us-east-1''],
      [Label ''env'' ''staging'', Label ''region'' ''eu-west-1'']]"

definition metric_spec ::
  "string \<Rightarrow> metricKind \<Rightarrow> int \<Rightarrow> int \<Rightarrow> f64 \<Rightarrow> f64 \<Rightarrow> bool \<Rightarrow> bool \<Rightarrow> bool \<Rightarrow> bool \<Rightarrow> metricSpec" where
  "metric_spec name kind interval burst base jitter drift sine spikey hot =
     \<lparr>msName = name, msKind = kind, msInterval = interval, msBurstSize = burst, msBase = base, msJitter = jitter,
      msLabels = commonLabels, msSlowDrift = drift, msSineWave = sine, msSpikey = spikey, msHighVolume = hot\<rparr>"

definition specs :: "metricSpec list" where
  "specs =
     [metric_spec ''metric_test_counter_1'' KindCounter (500 * millisecond) 1 (lit 1 1) (lit 3 10) True False False False,
      metric_spec ''metric_test_counter_2'' KindCounter (750 * millisecond) 1 (lit 2 1) (lit 5 10) False True False False,
      metric_spec ''metric_test_counter_3'' KindCounter second 1 (lit 1 1) (lit 1 1) False False True False,
      metric_spec ''metric_test_counter_4'' KindCounter (2 * second) 1 (lit 5 1) (lit 1 1) False False False False,
      metric_spec ''metric_test_counter_5'' KindCounter (250 * millisecond) 2 (lit 1 1) (lit 2 10) True False False False,
      metric_spec ''metric_test_counter_hot_1'' KindCounter (10 * millisecond) 100 (lit 1 1) (lit 1 10) False False False True,
      metric_spec ''metric_test_counter_hot_2'' KindCounter (5 * millisecond) 200 (lit 1 1) (lit 1 10) False False False True,
      metric_spec ''metric_test_counter_hot_3'' KindCounter millisecond 500 (lit 1 1) (lit 1 10) False False False True,
      metric_spec ''metric_test_value_1'' KindValue (500 * millisecond) 1 (lit 100 1) (lit 10 1) False True False False,
      metric_spec ''metric_test_value_2'' KindValue (200 * millisecond) 1 (lit 20 1) (lit 5 1) True False False False,
      metric_spec ''metric_test_value_3'' KindValue (750 * millisecond) 1 (lit 5 10) (lit 2 10) False False True False,
      metric_spec ''metric_test_value_4'' KindValue second 1 (lit 50 1) (lit 15 1) False False False False,
      metric_spec ''metric_test_value_5'' KindValue (300 * millisecond) 1 (lit 1 1) (lit 3 10) False False False False,
      metric_spec ''metric_test_value_hot_1'' KindValue (10 * millisecond) 50 (lit 100 1) (lit 30 1) False False False True,
      metric_spec ''metric_test_value_hot_2'' KindValue (5 * millisecond) 100 (lit 50 1) (lit 10 1) False False False True,
      metric_spec ''metric_test_counter_error_rate'' KindCounter (800 * millisecond) 1 (lit 1 1) (lit 5 10) False False True False,
      metric_spec ''metric_test_value_latency_p99'' KindValue (400 * millisecond) 1 (lit 300 1) (lit 50 1) False True True False,
      metric_spec ''metric_test_value_cpu'' KindValue (250 * millisecond) 1 (lit 40 1) (lit 20 1) False True False False,
      metric_spec ''metric_test_value_mem_rss'' KindValue (600 * millisecond) 1 (lit 1024 1) (lit 128 1) True False False False]"

subsection \<open>One tick of a loop\<close>

record 'r random =
  rand_Float64 :: "'r \<Rightarrow> f64 \<times> 'r"
  rand_Intn :: "nat \<Rightarrow> 'r \<Rightarrow> nat \<times> 'r"
  math_Sin :: "f64 \<Rightarrow> f64"

text \<open>\<open>rand.Float64() < p\<close>, drawn only when the flag is set, as \<open>&&\<close> does.\<close>

definition chance :: "'r random \<Rightarrow> bool \<Rightarrow> f64 \<Rightarrow> 'r \<Rightarrow> bool \<times> 'r" where
  "chance rs flag p r = (if flag then let (x, r') = rand_Float64 rs r in (x < p, r') else (False, r))"

definition burst_size :: "'r random \<Rightarrow> metricSpec \<Rightarrow> 'r \<Rightarrow> int \<times> 'r" where
  "burst_size rs spec r0 =
     (let burst = msBurstSize spec;
          (spike, r1) = chance rs (msSpikey spec) (lit 2 100) r0;
          burst = (if spike then burst * 50 else burst);
          (flood, r2) = chance rs (msHighVolume spec) (lit 1 100) r1;
          burst = (if flood then burst * 20 else burst) in
      (burst, r2))"

text \<open>\<open>math.Pi / 180.0\<close>, a constant that is exact until it is rounded once.\<close>

definition radian :: f64 where
  "radian = f64_scaled False 5030569068109113 (- 58)"

definition wobble :: "'r random \<Rightarrow> 'r \<Rightarrow> f64 \<times> 'r" where
  "wobble rs r = (let (x, r') = rand_Float64 rs r in (x * lit 2 1 - lit 1 1, r'))"

definition base_value :: "'r random \<Rightarrow> metricSpec \<Rightarrow> u64 \<Rightarrow> 'r \<Rightarrow> f64 \<times> 'r" where
  "base_value rs spec tick r =
     (if msSineWave spec
      then let angle = f64_of_nat (unat (tick mod 360)) * radian in
        (msBase spec + math_Sin rs angle * msJitter spec, r)
      else let (x, r') = wobble rs r in (msBase spec + x * msJitter spec, r'))"

definition sample_call :: "'r random \<Rightarrow> metricSpec \<Rightarrow> u64 \<Rightarrow> f64 \<times> 'r \<Rightarrow> call \<times> f64 \<times> 'r" where
  "sample_call rs spec tick = (\<lambda>(drift0, r0).
     let (val, r1) = base_value rs spec tick r0;
         (drift, val, r2) =
           (if msSlowDrift spec
            then let (x, r') = wobble rs r1; drift = drift0 + x * lit 5 100 in (drift, val + drift, r')
            else (drift0, val, r1));
         (spike, r3) = chance rs (msSpikey spec) (lit 1 1000) r2;
         val = (if spike then val * lit 10 1 else val);
         (i, r4) = rand_Intn rs (length (msLabels spec)) r3;
         lbls = msLabels spec ! i in
     (case msKind spec of
        KindCounter \<Rightarrow> Count (msName spec) (if val \<le> 0 then lit 1 1 else val) lbls
      | KindValue \<Rightarrow> Value (msName spec) val lbls,
      drift, r4))"

fun burst_calls :: "'r random \<Rightarrow> metricSpec \<Rightarrow> u64 \<Rightarrow> nat \<Rightarrow> f64 \<times> 'r \<Rightarrow> call list \<times> f64 \<times> 'r" where
  "burst_calls rs spec tick 0 st = ([], st)"
| "burst_calls rs spec tick (Suc n) st =
     (let (k, st1) = sample_call rs spec tick st; (ks, st2) = burst_calls rs spec tick n st1 in (k # ks, st2))"

text \<open>The loops: the tick and the drift of each, the shared random source, and the calls made.\<close>

record 'r load =
  ldLoops :: "(u64 \<times> f64) list"
  ldRandom :: 'r
  ldCalls :: "call list"

definition metric_tick :: "'r random \<Rightarrow> metricSpec \<Rightarrow> u64 \<times> f64 \<Rightarrow> 'r \<Rightarrow> call list \<times> (u64 \<times> f64) \<times> 'r" where
  "metric_tick rs spec = (\<lambda>(tick0, drift0) r0.
     let tick = tick0 + 1;
         (burst, r1) = burst_size rs spec r0;
         (calls, drift, r2) = burst_calls rs spec tick (nat burst) (drift0, r1) in
     (calls, (tick, drift), r2))"

definition StartSyntheticMetrics :: "'r \<Rightarrow> 'r load" where
  "StartSyntheticMetrics seed =
     \<lparr>ldLoops = replicate (length specs) (0, lit 0 1), ldRandom = seed, ldCalls = []\<rparr>"

text \<open>The ticker of loop \<open>i\<close> fires.\<close>

definition runMetricLoop :: "'r random \<Rightarrow> 'r load \<Rightarrow> nat \<Rightarrow> 'r load" where
  "runMetricLoop rs ld i =
     (if i < length (ldLoops ld)
      then let (calls, st, r) = metric_tick rs (specs ! i) (ldLoops ld ! i) (ldRandom ld) in
        ld\<lparr>ldLoops := (ldLoops ld)[i := st], ldRandom := r, ldCalls := ldCalls ld @ calls\<rparr>
      else ld)"

subsection \<open>The program\<close>

datatype load_fatal = HostnameFailed | HostnameEmpty | KeyRequired | InitFailed go_error

definition loadgen_main ::
  "string option \<Rightarrow> (string \<Rightarrow> string) \<Rightarrow> (string \<Rightarrow> url option) \<Rightarrow> (url \<Rightarrow> string) \<Rightarrow> int \<Rightarrow> 'w \<Rightarrow>
     load_fatal + 'w client \<times> clientTransport" where
  "loadgen_main hostname getenv url_parse url_string now w =
     (case hostname of
        None \<Rightarrow> Inl HostnameFailed
      | Some workload0 \<Rightarrow>
          (let workload = trim_space workload0 in
           if workload = [] then Inl HostnameEmpty
           else
             let apiKey = trim_space (getenv ''STATOK_API_KEY'') in
             if apiKey = [] then Inl KeyRequired
             else case NewClient url_parse url_string workload
                 \<lparr>cfgEndpoint = ''http://localhost:8085/api/i/batch'', cfgAPIKey = apiKey, cfgTransport = None,
                  cfgLogger = None, cfgVerbose = False\<rparr> now w of
               Inl err \<Rightarrow> Inl (InitFailed err)
             | Inr r \<Rightarrow> Inr r))"

subsection \<open>What the loops do to the client\<close>

lemma specs_shape:
  "\<forall>s \<in> set specs. msLabels s = commonLabels \<and> 0 < msInterval s \<and> 0 < msBurstSize s \<and> msBurstSize s \<le> 500 \<and>
     (msSpikey s \<longrightarrow> msBurstSize s = 1 \<and> \<not> msHighVolume s) \<and> msName s \<noteq> [] \<and> list_all plain_char (msName s) \<and>
     CHR ''|'' \<notin> set (msName s)"
  by (simp add: specs_def metric_spec_def millisecond_def second_def plain_char_def)

lemma burst_bounded:
  assumes "s \<in> set specs"
  shows "0 < fst (burst_size rs s r) \<and> fst (burst_size rs s r) \<le> 10000"
  using bspec [OF specs_shape assms]
  by (cases "msSpikey s"; cases "msHighVolume s") (simp_all add: burst_size_def Let_def chance_def case_prod_beta)

text \<open>The calls the loops may make: counters that are not zero or less, on three label sets.\<close>

definition load_call :: "call \<Rightarrow> bool" where
  "load_call k =
     (case k of
        Count m d ls \<Rightarrow> (\<exists>s \<in> set specs. m = msName s \<and> msKind s = KindCounter) \<and> ls \<in> set commonLabels \<and> \<not> d \<le> 0
      | Value m v ls \<Rightarrow> (\<exists>s \<in> set specs. m = msName s \<and> msKind s = KindValue) \<and> ls \<in> set commonLabels
      | _ \<Rightarrow> False)"

definition fair_random :: "'r random \<Rightarrow> bool" where
  "fair_random rs \<longleftrightarrow> (\<forall>n r. 0 < n \<longrightarrow> fst (rand_Intn rs n r) < n)"

lemma lit_one: "\<not> lit 1 1 \<le> 0"
proof -
  have "lit 1 1 = f64_of_int 1" by (simp add: lit_def f64_of_int_def)
  then show ?thesis using f64_int_less(2) [of 1 0] by (simp add: f64_zero_int)
qed

lemma sample_call_shape:
  assumes s: "s \<in> set specs" and r: "fair_random rs"
  shows "load_call (fst (sample_call rs s tick st))"
proof -
  have len: "length (msLabels s) = 3" using specs_shape s by (auto simp: commonLabels_def)
  have lab: "msLabels s ! fst (rand_Intn rs (length (msLabels s)) x) \<in> set commonLabels" for x
    using r specs_shape s len by (metis fair_random_def nth_mem zero_less_numeral)
  show ?thesis
    using lab s lit_one
    by (cases "msKind s") (auto simp: sample_call_def Let_def case_prod_beta load_call_def)
qed

lemma burst_calls_shape:
  assumes "s \<in> set specs" and "fair_random rs"
  shows "length (fst (burst_calls rs s tick n st)) = n \<and> list_all load_call (fst (burst_calls rs s tick n st))"
proof (induction n arbitrary: st)
  case (Suc n)
  then show ?case
    using sample_call_shape [OF assms, of tick st] by (simp add: Let_def case_prod_beta)
qed simp

lemma commonLabels_fine:
  "\<forall>ls \<in> set commonLabels. \<not> hasWorkloadLabel ls \<and> list_all (\<lambda>l. wire_safe l \<and> CHR 0x00 \<notin> set l) ls"
  by code_simp

lemma load_call_accepted:
  assumes "load_call k"
  shows "accepted_call k" and "(case k of Count m _ ls \<Rightarrow> series_safe m ls | Value m _ ls \<Rightarrow> series_safe m ls | _ \<Rightarrow> False)"
proof -
  have name: "series_safe (msName s) ls" if "s \<in> set specs" "ls \<in> set commonLabels" for s ls
    using bspec [OF specs_shape that(1)] bspec [OF commonLabels_fine that(2)]
    by (auto simp: series_safe_def nul_free_def wire_safe_def list_all_iff plain_char_def)
  show "accepted_call k"
    using assms specs_shape commonLabels_fine by (cases k) (auto simp: load_call_def accepted_call_def)
  show "(case k of Count m _ ls \<Rightarrow> series_safe m ls | Value m _ ls \<Rightarrow> series_safe m ls | _ \<Rightarrow> False)"
    using assms name by (cases k) (auto simp: load_call_def)
qed

lemma tick_adds:
  assumes "fair_random rs" and loops: "length (ldLoops ld) = length specs"
  shows "length (ldLoops (runMetricLoop rs ld i)) = length specs \<and>
    (\<exists>ks. ldCalls (runMetricLoop rs ld i) = ldCalls ld @ ks \<and> length ks \<le> 10000 \<and> list_all load_call ks)"
proof (cases "i < length (ldLoops ld)")
  case True
  obtain tick0 drift0 where l: "ldLoops ld ! i = (tick0, drift0)" by fastforce
  obtain burst r1 where b: "burst_size rs (specs ! i) (ldRandom ld) = (burst, r1)" by fastforce
  let ?ks = "fst (burst_calls rs (specs ! i) (tick0 + 1) (nat burst) (drift0, r1))"
  have s: "specs ! i \<in> set specs" using True loops by simp
  have "nat burst \<le> 10000" using burst_bounded [OF s, of rs "ldRandom ld"] b by (simp add: nat_le_iff)
  then have "length ?ks \<le> 10000 \<and> list_all load_call ?ks" using burst_calls_shape [OF s assms(1)] by simp
  moreover have "ldCalls (runMetricLoop rs ld i) = ldCalls ld @ ?ks"
    "length (ldLoops (runMetricLoop rs ld i)) = length specs"
    using True loops by (simp_all add: runMetricLoop_def metric_tick_def l b Let_def case_prod_beta)
  ultimately show ?thesis by blast
qed (use loops in \<open>simp add: runMetricLoop_def\<close>)

lemma ticks_add:
  assumes "fair_random rs"
  shows "length (ldLoops ld) = length specs \<Longrightarrow> list_all load_call (ldCalls ld) \<Longrightarrow>
    list_all load_call (ldCalls (run_steps (runMetricLoop rs) ld ticks)) \<and>
    length (ldCalls (run_steps (runMetricLoop rs) ld ticks)) \<le> length (ldCalls ld) + 10000 * length ticks"
proof (induction ticks arbitrary: ld)
  case (Cons i ticks)
  from tick_adds [OF assms Cons.prems(1), of i] obtain ks where
    one: "length (ldLoops (runMetricLoop rs ld i)) = length specs"
      "ldCalls (runMetricLoop rs ld i) = ldCalls ld @ ks" "length ks \<le> 10000" "list_all load_call ks" by blast
  then show ?case using Cons.IH [OF one(1)] Cons.prems(2) by simp
qed simp

text \<open>
  C35 (bounds). The load generator never panics on its label index and floods within a limit: over any
  firings of its nineteen tickers and any random source whose \<open>Intn\<close> keeps to its range, a run
  makes at most 10000 calls per firing (spikes and floods never multiply), all of them of the kind and name of a
  specification, accepted by the client's checks, safe on the wire, and no counter with a delta that
  is zero or less.
\<close>

theorem load_generator_calls:
  assumes "\<forall>n r. 0 < n \<longrightarrow> fst (rand_Intn rs n r) < n"
  shows "let calls = ldCalls (run_steps (runMetricLoop rs) (StartSyntheticMetrics seed) ticks) in
    length calls \<le> 10000 * length ticks \<and>
    (\<forall>k \<in> set calls. accepted_call k \<and>
       (case k of
          Count m d ls \<Rightarrow> (\<exists>s \<in> set specs. m = msName s \<and> msKind s = KindCounter) \<and> \<not> d \<le> 0 \<and> series_safe m ls \<and> ls \<in> set commonLabels
        | Value m v ls \<Rightarrow> (\<exists>s \<in> set specs. m = msName s \<and> msKind s = KindValue) \<and> series_safe m ls \<and> ls \<in> set commonLabels
        | _ \<Rightarrow> False))"
proof -
  have f: "fair_random rs" using assms by (simp add: fair_random_def)
  have "length (ldLoops (StartSyntheticMetrics seed)) = length specs" "ldCalls (StartSyntheticMetrics seed) = []"
    by (simp_all add: StartSyntheticMetrics_def)
  with ticks_add [OF f, of "StartSyntheticMetrics seed" ticks]
  have t: "list_all load_call (ldCalls (run_steps (runMetricLoop rs) (StartSyntheticMetrics seed) ticks))"
    "length (ldCalls (run_steps (runMetricLoop rs) (StartSyntheticMetrics seed) ticks)) \<le> 10000 * length ticks" by simp_all
  have "accepted_call k \<and>
       (case k of
          Count m d ls \<Rightarrow> (\<exists>s \<in> set specs. m = msName s \<and> msKind s = KindCounter) \<and> \<not> d \<le> 0 \<and> series_safe m ls \<and> ls \<in> set commonLabels
        | Value m v ls \<Rightarrow> (\<exists>s \<in> set specs. m = msName s \<and> msKind s = KindValue) \<and> series_safe m ls \<and> ls \<in> set commonLabels
        | _ \<Rightarrow> False)" if "load_call k" for k
    using that load_call_accepted [OF that] by (cases k) (auto simp: load_call_def)
  then show ?thesis using t by (simp add: Let_def list_all_iff)
qed

definition steady_random :: "nat random" where
  "steady_random =
     \<lparr>rand_Float64 = \<lambda>r. (lit 1 2, r + 1), rand_Intn = \<lambda>n r. (r mod n, r + 1), math_Sin = \<lambda>x. 0\<rparr>"

lemma steady_specs:
  "specs ! 0 = metric_spec ''metric_test_counter_1'' KindCounter (500 * millisecond) 1 (lit 1 1) (lit 3 10) True False False False"
  "specs ! 3 = metric_spec ''metric_test_counter_4'' KindCounter (2 * second) 1 (lit 5 1) (lit 1 1) False False False False"
  "length specs = 19"
  by (simp_all add: specs_def)

lemma steady_calls:
  "map (\<lambda>k. case k of Count m _ ls \<Rightarrow> (m, ls) | _ \<Rightarrow> ([], []))
     (ldCalls (run_steps (runMetricLoop steady_random) (StartSyntheticMetrics 7) [0, 3, 0])) =
   [(''metric_test_counter_1'', commonLabels ! 0), (''metric_test_counter_4'', commonLabels ! 2),
    (''metric_test_counter_1'', commonLabels ! 2)]"
  by (simp add: runMetricLoop_def metric_tick_def StartSyntheticMetrics_def steady_specs burst_size_def chance_def
      sample_call_def base_value_def wobble_def steady_random_def metric_spec_def commonLabels_def Let_def)

theorem load_generator_calls_witness:
  "\<exists>d1 d2 d3. ldCalls (run_steps (runMetricLoop steady_random) (StartSyntheticMetrics 7) [0, 3, 0]) =
      [Count ''metric_test_counter_1'' d1 (commonLabels ! 0), Count ''metric_test_counter_4'' d2 (commonLabels ! 2),
       Count ''metric_test_counter_1'' d3 (commonLabels ! 2)] \<and> \<not> d1 \<le> 0 \<and> \<not> d2 \<le> 0 \<and> \<not> d3 \<le> 0"
proof -
  let ?calls = "ldCalls (run_steps (runMetricLoop steady_random) (StartSyntheticMetrics 7) [0, 3, 0])"
  have fair: "\<forall>n r. 0 < n \<longrightarrow> fst (rand_Intn steady_random n r) < n" by (simp add: steady_random_def)
  note ok = load_generator_calls [OF fair, of 7 "[0, 3, 0]", unfolded Let_def]
  then have cnt: "\<exists>m d ls. k = Count m d ls \<and> \<not> d \<le> 0" if "k \<in> set ?calls" "(case k of Count m _ ls \<Rightarrow> (m, ls) | _ \<Rightarrow> ([], [])) \<noteq> ([], [])" for k
    using that by (cases k) auto
  obtain k1 k2 k3 where k: "?calls = [k1, k2, k3]"
    using steady_calls by (auto simp: map_eq_Cons_conv)
  from steady_calls [unfolded k] cnt [unfolded k, of k1] cnt [unfolded k, of k2] cnt [unfolded k, of k3]
  show ?thesis unfolding k by auto
qed

end
