(* ===== verification/Summaries.thy ===== *)
theory Summaries
  imports Client "HOL-Library.List_Lexorder" "HOL-Library.Char_ord" "HOL-Library.Multiset"
begin

section \<open>What the client logs of payloads and errors (client.go, transport.go)\<close>

text \<open>
  The texts of the log lines: error messages, the summary of a payload, the numeric limits its
  events break, the counts per metric. A \<open>map[string]int\<close> is an association list with distinct
  keys in any order: the order of Go's map iteration. The logger itself is not modelled.
\<close>

subsection \<open>Errors\<close>

definition with_bytes :: "string \<Rightarrow> int \<Rightarrow> string" where
  "with_bytes s n = (if n > 0 then s @ '' (request_bytes='' @ fmt_int n @ '')'' else s)"

definition HTTPTransportError_Error :: "HTTPTransportError option \<Rightarrow> string" where
  "HTTPTransportError_Error err =
     (case err of
        None \<Rightarrow> []
      | Some e \<Rightarrow>
          (let m = (if Method e = [] then ''POST'' else Method e);
               pre = m @ '' '' @ Endpoint e in
           if Status e \<noteq> []
           then (if Detail e \<noteq> []
                 then with_bytes (pre @ '': '' @ Status e @ '': '' @ Detail e) (RequestBytes e)
                 else with_bytes (pre @ '': '' @ Status e) (RequestBytes e))
           else if Detail e \<noteq> [] then with_bytes (pre @ '': '' @ Detail e) (RequestBytes e)
           else with_bytes (pre @ '' failed'') (RequestBytes e)))"

text \<open>
  The message of an error value: \<open>other\<close> gives the messages of the errors of other packages.
\<close>

fun StopIngestError_Error :: "(go_error \<Rightarrow> string) \<Rightarrow> go_error \<Rightarrow> string" where
  "StopIngestError_Error other (HTTPTransportErr h) = HTTPTransportError_Error (Some h)"
| "StopIngestError_Error other (StopIngestErr code (Some e)) = StopIngestError_Error other e"
| "StopIngestError_Error other (StopIngestErr code None) =
     (if code > 0 then ''statok: stop ingesting after HTTP '' @ fmt_int code else ''statok: stop ingesting'')"
| "StopIngestError_Error other e = other e"

text \<open>The version of the client (version.go) and the line that \<open>NewClient\<close> logs with it.\<close>

definition VersionString :: string where "VersionString = ''20260710-0001''"

definition Version :: string where "Version = VersionString"

definition version_line :: "config \<Rightarrow> string list" where
  "version_line cfg =
     (if cfgVerbose cfg \<and> cfgLogger cfg \<noteq> None then [''statok: client version '' @ Version] else [])"

definition field :: "bool \<Rightarrow> string \<Rightarrow> string \<Rightarrow> string list" where
  "field shown key val = (if shown then [key @ ''='' @ val] else [])"

definition summarizeTransportError :: "(go_error \<Rightarrow> string) \<Rightarrow> go_error option \<Rightarrow> string" where
  "summarizeTransportError other err =
     (case err of
        None \<Rightarrow> []
      | Some e \<Rightarrow>
          (case errors_as as_http_error (unwrap_chain e) of
             None \<Rightarrow> StopIngestError_Error other e
           | Some t \<Rightarrow>
               join_with '' ''
                 (field True ''endpoint'' (Endpoint t) @ field True ''status'' (fmt_int (StatusCode t)) @
                  field (BatchID t \<noteq> []) ''batchId'' (BatchID t) @
                  field (DictionarySession t \<noteq> []) ''dictSession'' (DictionarySession t) @
                  field (DictionaryRevision t > 0 \<or> DictionarySession t \<noteq> []) ''dictRevision'' (fmt_nat 10 (DictionaryRevision t)) @
                  field (DictionarySeries t > 0) ''dictSeries'' (fmt_int (DictionarySeries t)) @
                  field (SeriesDefinitions t > 0) ''seriesDefCount'' (fmt_int (SeriesDefinitions t)) @
                  (let shown = Accepted t \<ge> 0 \<or> Dropped t \<ge> 0 \<or> Rejected t \<ge> 0 in
                   field shown ''accepted'' (fmt_int (maxHeaderValue (Accepted t))) @
                   field shown ''dropped'' (fmt_int (maxHeaderValue (Dropped t))) @
                   field shown ''rejected'' (fmt_int (maxHeaderValue (Rejected t)))) @
                  field (EventLines t > 0) ''eventLines'' (fmt_int (EventLines t)) @
                  field (EventSeriesSamples t \<noteq> []) ''eventSeries'' (EventSeriesSamples t) @
                  field (ResponseCode t \<noteq> []) ''responseCode'' (ResponseCode t))))"

subsection \<open>Counts per metric\<close>

definition count_metric :: "(string \<times> nat) list \<Rightarrow> string \<Rightarrow> (string \<times> nat) list" where
  "count_metric counts m =
     AList.update m ((case map_of counts m of None \<Rightarrow> 0 | Some n \<Rightarrow> n) + 1) counts"

definition countMetricsCounters :: "counterEvent list \<Rightarrow> (string \<times> nat) list" where
  "countMetricsCounters events = foldl (\<lambda>counts ev. count_metric counts (cMetric ev)) [] events"

definition countMetricsValues :: "valueEvent list \<Rightarrow> (string \<times> nat) list" where
  "countMetricsValues events = foldl (\<lambda>counts ev. count_metric counts (vMetric ev)) [] events"

definition countMetricsUniques :: "uniqueEvent list \<Rightarrow> (string \<times> nat) list" where
  "countMetricsUniques events = foldl (\<lambda>counts ev. count_metric counts (uMetric ev)) [] events"

definition lookup_count :: "(string \<times> nat) list \<Rightarrow> string \<Rightarrow> nat" where
  "lookup_count counts k = (case map_of counts k of None \<Rightarrow> 0 | Some n \<Rightarrow> n)"

definition summarizeMetricCounts :: "(string \<times> nat) list \<Rightarrow> int \<Rightarrow> string" where
  "summarizeMetricCounts counts limit =
     (if length counts = 0 then ''-''
      else
        let keys = sort (map fst counts);
            keys = (if limit > 0 \<and> int (length keys) > limit then take (nat limit) keys else keys);
            shown = join_with '', '' (map (\<lambda>k. k @ ''='' @ fmt_nat 10 (lookup_count counts k)) keys) in
        if limit > 0 \<and> int (length counts) > limit
        then shown @ '', +'' @ fmt_int (int (length counts) - limit) @ '' more''
        else shown)"

record payloadSummary =
  psTotalEvents :: nat
  psCounters :: nat
  psValues :: nat
  psUniques :: nat
  psCounterSeries :: nat
  psValueSeries :: nat
  psUniqueSeries :: nat

definition summarizePayload :: "payload option \<Rightarrow> payloadSummary" where
  "summarizePayload pl =
     (case pl of
        None \<Rightarrow> \<lparr>psTotalEvents = 0, psCounters = 0, psValues = 0, psUniques = 0, psCounterSeries = 0,
                 psValueSeries = 0, psUniqueSeries = 0\<rparr>
      | Some p \<Rightarrow>
          \<lparr>psTotalEvents = length (pCounters p) + length (pValues p) + length (pUniques p),
           psCounters = length (pCounters p), psValues = length (pValues p), psUniques = length (pUniques p),
           psCounterSeries = length (countMetricsCounters (pCounters p)),
           psValueSeries = length (countMetricsValues (pValues p)),
           psUniqueSeries = length (countMetricsUniques (pUniques p))\<rparr>)"

definition logFlushSummary :: "payload \<Rightarrow> string" where
  "logFlushSummary p =
     (let cCounter = length (pCounters p); cValues = length (pValues p); cUniques = length (pUniques p) in
      ''statok: flushing '' @ fmt_nat 10 (cCounter + cValues + cUniques) @
      '' events (counters='' @ fmt_nat 10 cCounter @ '', values='' @ fmt_nat 10 cValues @
      '', uniques='' @ fmt_nat 10 cUniques @
      ''); counter metrics: '' @ summarizeMetricCounts (countMetricsCounters (pCounters p)) 10 @
      ''; value metrics: '' @ summarizeMetricCounts (countMetricsValues (pValues p)) 10 @
      ''; unique metrics: '' @ summarizeMetricCounts (countMetricsUniques (pUniques p)) 10)"

subsection \<open>Values outside the limits of the ingester\<close>

definition maxIngestCounterValue :: f64 where
  "maxIngestCounterValue = f64_of_int (2 ^ 32 - 1)"

definition maxIngestValueValue :: f64 where
  "maxIngestValueValue = f64_of_int ((2 ^ 32 - 1) div 10)"

record numericSeriesDiag =
  nsMetric :: string
  nsValue :: f64
  nsLabels :: string

record numericLimitDiag =
  nlNegative :: nat
  nlNonFinite :: nat
  nlOverMax :: nat
  nlMaxSeen :: numericSeriesDiag

definition no_limit_diag :: numericLimitDiag where
  "no_limit_diag = \<lparr>nlNegative = 0, nlNonFinite = 0, nlOverMax = 0,
     nlMaxSeen = \<lparr>nsMetric = [], nsValue = 0, nsLabels = []\<rparr>\<rparr>"

text \<open>The loop over the labels: the parts so far and the length of their text.\<close>

fun label_parts :: "string list \<Rightarrow> nat \<Rightarrow> int \<Rightarrow> int \<Rightarrow> string list \<Rightarrow> string list" where
  "label_parts parts n maxLabels maxBytes [] = parts"
| "label_parts parts n maxLabels maxBytes (lbl # rest) =
     (if lbl = [] then label_parts parts n maxLabels maxBytes rest
      else
        let part = truncateLogField lbl 48;
            next = n + length part + (if length parts > 0 then 1 else 0) in
        if int (length parts) \<ge> maxLabels \<or> int next > maxBytes then parts
        else label_parts (parts @ [part]) next maxLabels maxBytes rest)"

definition summarizeLabelsForLog :: "string list \<Rightarrow> int \<Rightarrow> int \<Rightarrow> string" where
  "summarizeLabelsForLog labels maxLabels maxBytes =
     (if length labels = 0 \<or> maxLabels \<le> 0 \<or> maxBytes \<le> 0 then []
      else join_with '','' (label_parts [] 0 maxLabels maxBytes labels))"

definition updateNumericLimitDiag ::
  "numericLimitDiag \<Rightarrow> string \<Rightarrow> f64 \<Rightarrow> string list \<Rightarrow> f64 \<Rightarrow> numericLimitDiag" where
  "updateNumericLimitDiag d0 metric val labels maxAllowed =
     (if is_nan val \<or> is_inf val then d0\<lparr>nlNonFinite := nlNonFinite d0 + 1\<rparr>
      else
        let d1 = (if val < 0 then d0\<lparr>nlNegative := nlNegative d0 + 1\<rparr> else d0);
            d2 = (if maxAllowed < val then d1\<lparr>nlOverMax := nlOverMax d1 + 1\<rparr> else d1) in
        if metric = [] then d2
        else if nsMetric (nlMaxSeen d2) = [] \<or> nsValue (nlMaxSeen d2) < val
        then d2\<lparr>nlMaxSeen :=
            \<lparr>nsMetric = truncateLogField metric 48, nsValue = val,
             nsLabels = summarizeLabelsForLog labels 3 96\<rparr>\<rparr>
        else d2)"

text \<open>\<open>strconv.FormatFloat(x, 'f', 2, 64)\<close>: two decimals, ties to even on the exact value.\<close>

fun fmt_float2 :: "f64 \<Rightarrow> string" where
  "fmt_float2 NaN = ''NaN''"
| "fmt_float2 (Infty s) = (if s then ''-Inf'' else ''+Inf'')"
| "fmt_float2 (Fin s m e) =
     (let c = rne (100 * scale_num 2 (- e) m) (scale_den 2 (- e) 1) in
      (if s then ''-'' else []) @ fmt_nat 10 (c div 100) @ ''.'' @ pad_digits 2 (fmt_nat 10 (c mod 100)))"

definition limit_fields :: "string \<Rightarrow> string \<Rightarrow> numericLimitDiag \<Rightarrow> string list" where
  "limit_fields kind capital d =
     (if nlNegative d > 0 \<or> nlNonFinite d > 0 \<or> nlOverMax d > 0
      then field True (kind @ ''Negative'') (fmt_nat 10 (nlNegative d)) @
           field True (kind @ ''NonFinite'') (fmt_nat 10 (nlNonFinite d)) @
           field True (kind @ ''OverMax'') (fmt_nat 10 (nlOverMax d)) @
           (if nsMetric (nlMaxSeen d) \<noteq> []
            then field True (''max'' @ capital @ ''Metric'') (nsMetric (nlMaxSeen d)) @
                 field True (''max'' @ capital @ ''Value'') (fmt_float2 (nsValue (nlMaxSeen d))) @
                 field (nsLabels (nlMaxSeen d) \<noteq> []) (''max'' @ capital @ ''Labels'') (nsLabels (nlMaxSeen d))
            else [])
      else [])"

definition counter_diag :: "counterEvent list \<Rightarrow> numericLimitDiag" where
  "counter_diag evs =
     foldl (\<lambda>d ev. updateNumericLimitDiag d (cMetric ev) (cValue ev) (cLabels ev) maxIngestCounterValue)
       no_limit_diag evs"

definition value_diag :: "valueEvent list \<Rightarrow> numericLimitDiag" where
  "value_diag evs =
     foldl (\<lambda>d ev. updateNumericLimitDiag d (vMetric ev) (vValue ev) (vLabels ev) maxIngestValueValue)
       no_limit_diag evs"

definition summarizePayloadValueLimits :: "payload option \<Rightarrow> string list" where
  "summarizePayloadValueLimits pl =
     (case pl of
        None \<Rightarrow> []
      | Some p \<Rightarrow>
          limit_fields ''counter'' ''Counter'' (counter_diag (pCounters p)) @
          limit_fields ''value'' ''Value'' (value_diag (pValues p)))"

definition nonNegativeHeaderValue :: "int \<Rightarrow> int" where
  "nonNegativeHeaderValue v = (if v < 0 then 0 else v)"

text \<open>The series definitions of a failed body, and the other fields of an \<open>HTTPTransportError\<close>.\<close>

definition definition_fields :: "HTTPTransportError \<Rightarrow> string list" where
  "definition_fields t =
     (if SeriesDefinitions t > 0
      then field True ''seriesDefCount'' (fmt_int (SeriesDefinitions t)) @
           field True ''seriesDefBytes'' (fmt_int (SeriesDefinitionBytes t)) @
           field True ''eventBytes'' (fmt_int (EventBytes t)) @
           field True ''largestSeriesDefBytes'' (fmt_int (LargestSeriesDefinitionBytes t)) @
           field (LargestSeriesMetric t \<noteq> []) ''largestSeriesMetric'' (LargestSeriesMetric t) @
           field (LargestSeriesLabels t > 0) ''largestSeriesLabels'' (fmt_int (LargestSeriesLabels t)) @
           field (LargestLabelBytes t > 0) ''largestLabelBytes'' (fmt_int (LargestLabelBytes t)) @
           field (LargestLabelKey t \<noteq> []) ''largestLabelKey'' (LargestLabelKey t) @
           field (LargestLabelValuePrefix t \<noteq> []) ''largestLabelValuePrefix'' (LargestLabelValuePrefix t)
      else [])"

definition transport_fields :: "HTTPTransportError \<Rightarrow> string list" where
  "transport_fields t =
     field True ''endpoint'' (Endpoint t) @ field True ''status'' (fmt_int (StatusCode t)) @
     field True ''requestBytes'' (fmt_int (RequestBytes t)) @
     field (DictionarySession t \<noteq> []) ''dictSession'' (DictionarySession t) @
     field (DictionaryRevision t > 0 \<or> DictionarySession t \<noteq> []) ''dictRevision'' (fmt_nat 10 (DictionaryRevision t)) @
     field (DictionarySeries t > 0) ''dictSeries'' (fmt_int (DictionarySeries t)) @
     field (EventLines t > 0) ''eventLines'' (fmt_int (EventLines t)) @
     field (EventSeriesMinID t \<ge> 0) ''eventSeriesMinID'' (fmt_int (EventSeriesMinID t)) @
     field (EventSeriesMaxID t \<ge> 0) ''eventSeriesMaxID'' (fmt_int (EventSeriesMaxID t)) @
     field (EventSeriesSamples t \<noteq> []) ''eventSeries'' (EventSeriesSamples t) @
     definition_fields t @
     field (ResponseCode t \<noteq> []) ''responseCode'' (ResponseCode t) @
     (let shown = Accepted t \<ge> 0 \<or> Dropped t \<ge> 0 \<or> Rejected t \<ge> 0 in
      field shown ''responseAccepted'' (fmt_int (nonNegativeHeaderValue (Accepted t))) @
      field shown ''responseDropped'' (fmt_int (nonNegativeHeaderValue (Dropped t))) @
      field shown ''responseRejected'' (fmt_int (nonNegativeHeaderValue (Rejected t))))"

definition flushFailureDetails :: "'w client \<Rightarrow> payload \<Rightarrow> go_error option \<Rightarrow> string" where
  "flushFailureDetails c p err =
     (let stats = summarizePayload (Some p) in
      join_with '' ''
        (field True ''batchId'' (batchID p) @
         field True ''events'' (fmt_nat 10 (psTotalEvents stats)) @
         field True ''counters'' (fmt_nat 10 (psCounters stats)) @
         field True ''values'' (fmt_nat 10 (psValues stats)) @
         field True ''uniques'' (fmt_nat 10 (psUniques stats)) @
         field True ''counterSeries'' (fmt_nat 10 (psCounterSeries stats)) @
         field True ''valueSeries'' (fmt_nat 10 (psValueSeries stats)) @
         field True ''uniqueSeries'' (fmt_nat 10 (psUniqueSeries stats)) @
         field True ''queueDepth'' (fmt_nat 10 (length (clQueue c))) @
         field True ''dropped'' (fmt_nat 10 (unat (clDropped c))) @
         summarizePayloadValueLimits (Some p) @
         (case Option.bind err (\<lambda>e. errors_as as_http_error (unwrap_chain e)) of
            None \<Rightarrow> []
          | Some t \<Rightarrow> transport_fields t)))"

subsection \<open>Counting\<close>

lemma lookup_count_metric:
  "lookup_count (count_metric counts m) k = lookup_count counts k + (if k = m then 1 else 0)"
  by (auto simp: lookup_count_def count_metric_def split: option.split)

lemma count_metric_keys:
  assumes "distinct (map fst counts)"
  shows "distinct (map fst (count_metric counts m)) \<and> fst ` set (count_metric counts m) = insert m (fst ` set counts)"
  using assms by (simp add: count_metric_def distinct_update dom_update)

lemma count_fold:
  assumes "distinct (map fst counts)"
  shows "distinct (map fst (foldl (\<lambda>c e. count_metric c (f e)) counts es)) \<and>
    fst ` set (foldl (\<lambda>c e. count_metric c (f e)) counts es) = fst ` set counts \<union> f ` set es \<and>
    lookup_count (foldl (\<lambda>c e. count_metric c (f e)) counts es) k =
      lookup_count counts k + length (filter (\<lambda>e. f e = k) es)"
  using assms
proof (induction es arbitrary: counts)
  case (Cons e es)
  from Cons.IH [OF conjunct1 [OF count_metric_keys [OF Cons.prems, of "f e"]]]
  show ?case using count_metric_keys [OF Cons.prems, of "f e"] by (auto simp: lookup_count_metric)
qed simp

lemma length_distinct_keys: "distinct (map fst counts) \<Longrightarrow> length counts = card (fst ` set counts)"
  by (metis distinct_card length_map set_map)

text \<open>
  The counts of a log summary: a metric counts as often as it occurs, and the
  number of series that a summary reports is the number of different metric names.
\<close>

theorem summary_counts:
  "summarizePayload (Some p) =
     \<lparr>psTotalEvents = length (pCounters p) + length (pValues p) + length (pUniques p),
      psCounters = length (pCounters p), psValues = length (pValues p), psUniques = length (pUniques p),
      psCounterSeries = card (cMetric ` set (pCounters p)), psValueSeries = card (vMetric ` set (pValues p)),
      psUniqueSeries = card (uMetric ` set (pUniques p))\<rparr> \<and>
   lookup_count (countMetricsCounters (pCounters p)) m = length (filter (\<lambda>e. cMetric e = m) (pCounters p)) \<and>
   lookup_count (countMetricsValues (pValues p)) m = length (filter (\<lambda>e. vMetric e = m) (pValues p)) \<and>
   lookup_count (countMetricsUniques (pUniques p)) m = length (filter (\<lambda>e. uMetric e = m) (pUniques p))"
  using count_fold [of "[]" cMetric "pCounters p" m] count_fold [of "[]" vMetric "pValues p" m]
    count_fold [of "[]" uMetric "pUniques p" m]
  by (simp add: summarizePayload_def countMetricsCounters_def countMetricsValues_def countMetricsUniques_def
      length_distinct_keys lookup_count_def [of "[]"])

text \<open>
  The summary of the counts does not depend on the order in which Go iterates over
  the map: two orders of the same counts give the same text.
\<close>

theorem summary_order_independent:
  assumes "mset counts = mset counts'" and "distinct (map fst counts)"
  shows "summarizeMetricCounts counts limit = summarizeMetricCounts counts' limit"
proof -
  have keys: "sort (map fst counts) = sort (map fst counts')"
    by (intro properties_for_sort) (simp_all add: assms(1))
  have "distinct (map fst counts')" using assms by (metis mset_eq_imp_distinct_iff mset_map)
  then have "map_of counts k = map_of counts' k" for k
    using assms map_of_inject_set [of counts counts'] mset_eq_setD [OF assms(1)] by simp
  then have "lookup_count counts = lookup_count counts'" by (simp add: lookup_count_def fun_eq_iff)
  then show ?thesis
    using keys mset_eq_length [OF assms(1)] by (simp add: summarizeMetricCounts_def Let_def)
qed

theorem summary_order_independent_witness:
  "summarizeMetricCounts [(''b'', 2), (''a'', 1)] 1 = summarizeMetricCounts [(''a'', 1), (''b'', 2)] 1"
  by (rule summary_order_independent) simp_all

subsection \<open>Bounds of the label text\<close>

lemma length_join_snoc:
  "length (join_with sep (xs @ [x])) = length (join_with sep xs) + length x + (if xs = [] then 0 else length sep)"
proof (induction xs rule: induct_list012)
  case (3 y z zs)
  then show ?case by (cases zs) simp_all
qed simp_all

lemma label_parts_bound:
  assumes "length (join_with '','' parts) = n" and "int n \<le> mb" and "int (length parts) \<le> ml"
  shows "int (length (join_with '','' (label_parts parts n ml mb ls))) \<le> mb \<and>
    int (length (label_parts parts n ml mb ls)) \<le> ml"
  using assms
proof (induction parts n ml mb ls rule: label_parts.induct)
  case (2 parts n ml mb lbl rest)
  let ?part = "truncateLogField lbl 48"
  let ?n = "n + length ?part + (if length parts > 0 then 1 else 0)"
  show ?case
  proof (cases "lbl = [] \<or> int (length parts) \<ge> ml \<or> int ?n > mb")
    case True
    then show ?thesis using 2 by (auto simp: Let_def)
  next
    case False
    have "length (join_with '','' (parts @ [?part])) = ?n" using "2.prems"(1) by (simp add: length_join_snoc)
    then show ?thesis using False "2.IH"(2) [OF _ refl refl] by (simp add: Let_def)
  qed
qed simp_all

text \<open>
  The label text of a log line stays within its byte budget, and a field with a limit
  of at least four bytes within its limit.
\<close>

theorem log_text_bounds:
  "int (length (summarizeLabelsForLog labels maxLabels maxBytes)) \<le> (if maxBytes < 0 then 0 else maxBytes) \<and>
   (0 < k \<longrightarrow> int (length (truncateLogField s k)) \<le> k)"
proof -
  have "int (length (truncateLogField s k)) \<le> k" if "0 < k"
    using that by (auto simp: truncateLogField_def Let_def)
  then show ?thesis
    using label_parts_bound [of "[]" 0 maxBytes maxLabels labels] by (auto simp: summarizeLabelsForLog_def)
qed

theorem log_text_bounds_witness:
  "int (length (summarizeLabelsForLog [''host=a'', ''zone=b''] 3 10)) \<le> 10 \<and>
   int (length (truncateLogField ''requests'' 5)) \<le> 5"
  using log_text_bounds [where labels = "[''host=a'', ''zone=b'']" and maxLabels = 3 and maxBytes = 10
    and s = "''requests''" and k = 5] by simp

subsection \<open>The limit diagnostics\<close>

definition limit_diag :: "f64 \<Rightarrow> (string \<times> f64 \<times> string list) list \<Rightarrow> numericLimitDiag" where
  "limit_diag mx xs = foldl (\<lambda>d (m, v, ls). updateNumericLimitDiag d m v ls mx) no_limit_diag xs"

lemma diag_eq:
  "counter_diag cs = limit_diag maxIngestCounterValue (map (\<lambda>e. (cMetric e, cValue e, cLabels e)) cs)"
  "value_diag vs = limit_diag maxIngestValueValue (map (\<lambda>e. (vMetric e, vValue e, vLabels e)) vs)"
  by (simp_all add: counter_diag_def value_diag_def limit_diag_def foldl_map)

definition finite_f64 :: "f64 \<Rightarrow> bool" where
  "finite_f64 v \<longleftrightarrow> \<not> is_nan v \<and> \<not> is_inf v"

lemma finite_not_less_trans:
  "finite_f64 a \<Longrightarrow> finite_f64 b \<Longrightarrow> finite_f64 c \<Longrightarrow> \<not> a < c \<Longrightarrow> a < b \<Longrightarrow> \<not> b < c"
  by (cases a; cases b; cases c) (simp_all add: finite_f64_def is_nan_def is_inf_def f64_less_real del: less_f64.simps)

lemma finite_not_less_refl: "finite_f64 a \<Longrightarrow> \<not> a < a"
  by (cases a) (simp_all add: finite_f64_def is_nan_def is_inf_def f64_less_real del: less_f64.simps)

lemma limit_diag_snoc:
  "limit_diag mx (xs @ [(m, v, ls)]) = updateNumericLimitDiag (limit_diag mx xs) m v ls mx"
  by (simp add: limit_diag_def)

lemma limit_diag_counts:
  "nlNonFinite (limit_diag mx xs) = length (filter (\<lambda>(m, v, ls). \<not> finite_f64 v) xs) \<and>
   nlNegative (limit_diag mx xs) = length (filter (\<lambda>(m, v, ls). finite_f64 v \<and> v < 0) xs) \<and>
   nlOverMax (limit_diag mx xs) = length (filter (\<lambda>(m, v, ls). finite_f64 v \<and> mx < v) xs)"
proof (induction xs rule: rev_induct)
  case (snoc x xs)
  obtain m v ls where "x = (m, v, ls)" by (cases x) auto
  then show ?case
    using snoc.IH by (simp add: limit_diag_snoc updateNumericLimitDiag_def finite_f64_def Let_def)
qed (simp add: limit_diag_def no_limit_diag_def)

definition seen_max :: "(string \<times> f64 \<times> string list) list \<Rightarrow> numericSeriesDiag \<Rightarrow> bool" where
  "seen_max xs d \<longleftrightarrow>
     (if \<exists>(m, v, ls) \<in> set xs. finite_f64 v
      then \<exists>(m, v, ls) \<in> set xs. finite_f64 v \<and>
        d = \<lparr>nsMetric = truncateLogField m 48, nsValue = v, nsLabels = summarizeLabelsForLog ls 3 96\<rparr> \<and>
        (\<forall>(m', v', ls') \<in> set xs. finite_f64 v' \<longrightarrow> \<not> v < v')
      else nsMetric d = [])"

lemma truncate_not_Nil: "trim_space m \<noteq> [] \<Longrightarrow> truncateLogField m 48 \<noteq> []"
  by (simp add: truncateLogField_def Let_def)

lemma limit_diag_max:
  assumes "\<forall>(m, v, ls) \<in> set xs. trim_space m \<noteq> []"
  shows "seen_max xs (nlMaxSeen (limit_diag mx xs))"
  using assms
proof (induction xs rule: rev_induct)
  case (snoc x xs)
  obtain m v ls where x: "x = (m, v, ls)" by (cases x) auto
  let ?d = "nlMaxSeen (limit_diag mx xs)"
  have IH: "seen_max xs ?d" and m: "trim_space m \<noteq> []" using snoc x by auto
  have m': "m \<noteq> []" using m by auto
  show ?case
  proof (cases "finite_f64 v")
    case False
    have "nlMaxSeen (limit_diag mx (xs @ [x])) = ?d"
      using False by (simp add: x limit_diag_snoc updateNumericLimitDiag_def finite_f64_def)
    then show ?thesis using IH False by (auto simp: seen_max_def x)
  next
    case fin: True
    have upd: "nlMaxSeen (limit_diag mx (xs @ [x])) =
        (if nsMetric ?d = [] \<or> nsValue ?d < v
         then \<lparr>nsMetric = truncateLogField m 48, nsValue = v, nsLabels = summarizeLabelsForLog ls 3 96\<rparr> else ?d)"
      using fin m' by (simp add: x limit_diag_snoc updateNumericLimitDiag_def finite_f64_def Let_def)
    show ?thesis
    proof (cases "\<exists>(m, v, ls) \<in> set xs. finite_f64 v")
      case True
      then obtain m0 v0 ls0 where o: "(m0, v0, ls0) \<in> set xs" "finite_f64 v0"
          "?d = \<lparr>nsMetric = truncateLogField m0 48, nsValue = v0, nsLabels = summarizeLabelsForLog ls0 3 96\<rparr>"
          "\<forall>(m', v', ls') \<in> set xs. finite_f64 v' \<longrightarrow> \<not> v0 < v'"
        using IH unfolding seen_max_def by auto
      have "trim_space m0 \<noteq> []" using snoc.prems o(1) by auto
      then have ne: "nsMetric ?d \<noteq> []" using truncate_not_Nil o(3) by simp
      show ?thesis
      proof (cases "v0 < v")
        case True
        have "\<forall>(m', v', ls') \<in> set (xs @ [x]). finite_f64 v' \<longrightarrow> \<not> v < v'"
          using o(2,4) fin True finite_not_less_trans [of v0 v] finite_not_less_refl by (auto simp: x)
        moreover have "nlMaxSeen (limit_diag mx (xs @ [x])) =
            \<lparr>nsMetric = truncateLogField m 48, nsValue = v, nsLabels = summarizeLabelsForLog ls 3 96\<rparr>"
          unfolding upd using True o(3) by simp
        ultimately show ?thesis using fin unfolding seen_max_def x by auto
      next
        case False
        have "\<forall>(m', v', ls') \<in> set (xs @ [x]). finite_f64 v' \<longrightarrow> \<not> v0 < v'" using o(4) False by (auto simp: x)
        moreover have "nlMaxSeen (limit_diag mx (xs @ [x])) = ?d"
          unfolding upd using ne False o(3) by simp
        ultimately show ?thesis using o(1,2,3) fin unfolding seen_max_def by auto
      qed
    next
      case False
      then have "nsMetric ?d = []" using IH unfolding seen_max_def by auto
      then have "nlMaxSeen (limit_diag mx (xs @ [x])) =
          \<lparr>nsMetric = truncateLogField m 48, nsValue = v, nsLabels = summarizeLabelsForLog ls 3 96\<rparr>"
        unfolding upd by simp
      moreover have "\<forall>(m', v', ls') \<in> set (xs @ [x]). finite_f64 v' \<longrightarrow> \<not> v < v'"
        using False finite_not_less_refl [OF fin] by (auto simp: x)
      ultimately show ?thesis using fin unfolding seen_max_def x by auto
    qed
  qed
qed (simp add: seen_max_def limit_diag_def no_limit_diag_def)

text \<open>
  The limit fields of a failure log appear exactly when an event breaks a limit of
  the ingester (a counter above \<open>2^32 - 1\<close>, a value above a tenth of it, a negative or a value that
  is no number); each event is counted once per limit it breaks; and, when no metric name is blank,
  the event shown is one with the largest finite value.
\<close>

theorem limit_diagnostics:
  fixes p :: payload
  defines "d \<equiv> counter_diag (pCounters p)"
  assumes "\<forall>e \<in> set (pCounters p). trim_space (cMetric e) \<noteq> []"
  shows "(summarizePayloadValueLimits (Some p) = [] \<longleftrightarrow>
      (\<forall>e \<in> set (pCounters p). finite_f64 (cValue e) \<and> \<not> cValue e < 0 \<and> \<not> maxIngestCounterValue < cValue e) \<and>
      (\<forall>e \<in> set (pValues p). finite_f64 (vValue e) \<and> \<not> vValue e < 0 \<and> \<not> maxIngestValueValue < vValue e)) \<and>
    nlNonFinite d = length (filter (\<lambda>e. \<not> finite_f64 (cValue e)) (pCounters p)) \<and>
    nlNegative d = length (filter (\<lambda>e. finite_f64 (cValue e) \<and> cValue e < 0) (pCounters p)) \<and>
    nlOverMax d = length (filter (\<lambda>e. finite_f64 (cValue e) \<and> maxIngestCounterValue < cValue e) (pCounters p)) \<and>
    (\<forall>e \<in> set (pCounters p). finite_f64 (cValue e) \<longrightarrow>
       (\<exists>e' \<in> set (pCounters p). nsValue (nlMaxSeen d) = cValue e' \<and>
          nsMetric (nlMaxSeen d) = truncateLogField (cMetric e') 48) \<and> \<not> nsValue (nlMaxSeen d) < cValue e)"
proof -
  let ?xs = "map (\<lambda>e. (cMetric e, cValue e, cLabels e)) (pCounters p)"
  let ?ys = "map (\<lambda>e. (vMetric e, vValue e, vLabels e)) (pValues p)"
  note cnt = limit_diag_counts [of maxIngestCounterValue ?xs] limit_diag_counts [of maxIngestValueValue ?ys]
  have c: "nlNonFinite d = length (filter (\<lambda>e. \<not> finite_f64 (cValue e)) (pCounters p))"
    "nlNegative d = length (filter (\<lambda>e. finite_f64 (cValue e) \<and> cValue e < 0) (pCounters p))"
    "nlOverMax d = length (filter (\<lambda>e. finite_f64 (cValue e) \<and> maxIngestCounterValue < cValue e) (pCounters p))"
    using cnt(1) by (simp_all add: d_def diag_eq filter_map comp_def)
  have v: "nlNonFinite (value_diag (pValues p)) = length (filter (\<lambda>e. \<not> finite_f64 (vValue e)) (pValues p))"
    "nlNegative (value_diag (pValues p)) = length (filter (\<lambda>e. finite_f64 (vValue e) \<and> vValue e < 0) (pValues p))"
    "nlOverMax (value_diag (pValues p)) = length (filter (\<lambda>e. finite_f64 (vValue e) \<and> maxIngestValueValue < vValue e) (pValues p))"
    using cnt(2) by (simp_all add: diag_eq filter_map comp_def)
  have empty: "summarizePayloadValueLimits (Some p) = [] \<longleftrightarrow>
      nlNegative d = 0 \<and> nlNonFinite d = 0 \<and> nlOverMax d = 0 \<and> nlNegative (value_diag (pValues p)) = 0 \<and>
      nlNonFinite (value_diag (pValues p)) = 0 \<and> nlOverMax (value_diag (pValues p)) = 0"
    by (auto simp: summarizePayloadValueLimits_def limit_fields_def field_def d_def)
  have "seen_max ?xs (nlMaxSeen d)"
    unfolding d_def diag_eq by (rule limit_diag_max) (use assms in auto)
  then have "\<forall>e \<in> set (pCounters p). finite_f64 (cValue e) \<longrightarrow>
       (\<exists>e' \<in> set (pCounters p). nsValue (nlMaxSeen d) = cValue e' \<and>
          nsMetric (nlMaxSeen d) = truncateLogField (cMetric e') 48) \<and> \<not> nsValue (nlMaxSeen d) < cValue e"
    unfolding seen_max_def by (auto split: if_split_asm)
  moreover have "summarizePayloadValueLimits (Some p) = [] \<longleftrightarrow>
      (\<forall>e \<in> set (pCounters p). finite_f64 (cValue e) \<and> \<not> cValue e < 0 \<and> \<not> maxIngestCounterValue < cValue e) \<and>
      (\<forall>e \<in> set (pValues p). finite_f64 (vValue e) \<and> \<not> vValue e < 0 \<and> \<not> maxIngestValueValue < vValue e)"
    unfolding empty c v by (auto simp: filter_empty_conv)
  ultimately show ?thesis using c by blast
qed

definition limit_sample :: payload where
  "limit_sample = \<lparr>batchID = ''b'',
     pCounters = [\<lparr>cMetric = ''c'', cValue = f64_of_int 5000000000, cLabels = [''h=1''], cTs = 7\<rparr>,
                  \<lparr>cMetric = ''d'', cValue = NaN, cLabels = [], cTs = 7\<rparr>], pValues = [], pUniques = []\<rparr>"

theorem limit_diagnostics_witness:
  "nlNonFinite (counter_diag (pCounters limit_sample)) =
     length (filter (\<lambda>e. \<not> finite_f64 (cValue e)) (pCounters limit_sample)) \<and>
   list_all (\<lambda>e. trim_space (cMetric e) \<noteq> []) (pCounters limit_sample)"
proof -
  have *: "\<forall>e \<in> set (pCounters limit_sample). trim_space (cMetric e) \<noteq> []"
    by (simp add: limit_sample_def trim_space_plain plain_char_def)
  from limit_diagnostics [OF this] * show ?thesis by (simp add: list_all_iff)
qed

end
