(* ===== verification/FloatOps.thy ===== *)
theory FloatOps
  imports Float64
begin

section \<open>Exact products and quotients\<close>

text \<open>
  float64 arithmetic on integers below \<open>2 ^ 53\<close> that the collectors use: a product of two of them
  rounds like the product, and a quotient without remainder is that quotient.
\<close>

lemma f64_nonneg_Fin:
  assumes "0 \<le> a" and "a < 2 ^ 53"
  obtains m e where "f64_of_int a = Fin False m e" and "real m * 2 powi e = of_int a"
proof -
  have "\<bar>a\<bar> < 2 ^ 53" using assms by simp
  then obtain m e where "f64_of_int a = Fin (a < 0) m e" "f64_real (Fin (a < 0) m e) = of_int a"
    by (rule f64_of_int_Fin)
  then show ?thesis using that [of m e] assms by (simp add: signed_def)
qed

lemma f64_int_mult:
  assumes "0 \<le> a" "a < 2 ^ 53" and "0 \<le> b" "b < 2 ^ 53"
  shows "f64_of_int a * f64_of_int b = f64_of_int (a * b)"
proof -
  obtain m e where a: "f64_of_int a = Fin False m e" "real m * 2 powi e = of_int a"
    by (rule f64_nonneg_Fin [OF assms(1,2)])
  obtain n g where b: "f64_of_int b = Fin False n g" "real n * 2 powi g = of_int b"
    by (rule f64_nonneg_Fin [OF assms(3,4)])
  have "of_int (int (m * n)) * 2 powi (e + g) = (of_int (a * b) :: real)"
    by (simp add: power_int_add flip: a(2) b(2))
  from f64_scaled_int [OF this] show ?thesis by (simp add: a(1) b(1) del: of_nat_mult)
qed

text \<open>The quotient of two integers is the float64 nearest to their ratio.\<close>

lemma f64_int_ratio:
  assumes "0 \<le> a" "a < 2 ^ 53" and "0 < b" "b < 2 ^ 53"
  shows "f64_div (f64_of_int a) (f64_of_int b) = f64_round False (nat a) (nat b)"
proof -
  have b0: "0 \<le> b" using assms(3) by simp
  obtain m e where a: "f64_of_int a = Fin False m e" "real m * 2 powi e = of_int a"
    by (rule f64_nonneg_Fin [OF assms(1,2)])
  obtain n g where b: "f64_of_int b = Fin False n g" "real n * 2 powi g = of_int b"
    by (rule f64_nonneg_Fin [OF b0 assms(4)])
  have n: "n \<noteq> 0" using b(2) assms(3) by (cases "n = 0") auto
  have nats: "real (nat a) = of_int a" "real (nat b) = of_int b" using assms(1) b0 by simp_all
  have "real m * 2 powi e * real (nat b) = real (nat a) * (real n * 2 powi g)" using a(2) b(2) nats by simp
  then have "real m * 2 powi (e - g) * real (nat b) = real (nat a) * real n"
    by (simp add: power_int_diff field_simps)
  then have "real (m * 2 ^ nat (e - g) * nat b) = real (nat a * (n * 2 ^ nat (g - e)))"
    by (cases "g \<le> e") (auto simp: power_int_def field_simps)
  then have "m * 2 ^ nat (e - g) * nat b = nat a * (n * 2 ^ nat (g - e))" by (simp only: of_nat_eq_iff)
  then have "f64_round False (m * 2 ^ nat (e - g)) (n * 2 ^ nat (g - e)) = f64_round False (nat a) (nat b)"
    using n assms(3) by (intro f64_round_ratio) simp_all
  then show ?thesis using n by (simp add: a(1) b(1))
qed

lemma f64_int_div:
  assumes "0 \<le> a" "a < 2 ^ 53" and "0 < b" "b < 2 ^ 53" and "b dvd a"
  shows "f64_div (f64_of_int a) (f64_of_int b) = f64_of_int (a div b)"
proof -
  have "nat a * 1 = nat (a div b) * nat b"
    using assms(1,3,5) by (simp add: pos_imp_zdiv_nonneg_iff flip: nat_mult_distrib)
  then have "f64_round False (nat a) (nat b) = f64_round False (nat (a div b)) 1"
    using assms(3) by (intro f64_round_ratio) simp_all
  moreover have "0 \<le> a div b" using assms(1,3) by (simp add: pos_imp_zdiv_nonneg_iff)
  ultimately show ?thesis using f64_int_ratio [OF assms(1-4)] by (simp add: f64_of_int_def [of "a div b"])
qed

subsection \<open>Counters of the collectors\<close>

text \<open>
  The collectors hold counters as \<open>uint64\<close>, take differences of two readings (a counter that went
  back counts as no progress) and report bytes as kilobytes.
\<close>

definition diffUint :: "u64 \<Rightarrow> u64 \<Rightarrow> u64" where
  "diffUint a b = (if b \<ge> a then b - a else 0)"

definition f64_u64 :: "u64 \<Rightarrow> f64" where
  "f64_u64 v = f64_of_int (uint v)"

definition kb :: "u64 \<Rightarrow> f64" where
  "kb v = f64_div (f64_u64 v) (f64_of_int 1024)"

text \<open>
  \<open>uint64(x)\<close> drops the fraction; outside the range of \<open>uint64\<close> it is what the platform makes of it.
\<close>

fun f64_trunc :: "f64 \<Rightarrow> int option" where
  "f64_trunc (Fin s m e) =
     Some (signed s (if e \<ge> 0 then m * 2 ^ nat e else m div 2 ^ nat (- e)))"
| "f64_trunc _ = None"

definition u64_of_f64 :: "(f64 \<Rightarrow> u64) \<Rightarrow> f64 \<Rightarrow> u64" where
  "u64_of_f64 oob x =
     (case f64_trunc x of
        Some i \<Rightarrow> (if 0 \<le> i \<and> i < 2 ^ 64 then word_of_int i else oob x)
      | None \<Rightarrow> oob x)"

lemma diffUint_unat: "unat (diffUint a b) = unat b - unat a"
  by (auto simp: diffUint_def unat_sub word_le_nat_alt)

lemma diffUint_0: "diffUint a b = 0 \<longleftrightarrow> b \<le> a"
  by (auto simp: diffUint_def)

lemma f64_u64_nat: "f64_u64 v = f64_of_int (uint v)" "f64_of_nat n = f64_of_int (int n)"
  by (simp_all add: f64_u64_def f64_of_int_def f64_of_nat_def)

end
