(* ===== verification/GoFields.thy ===== *)
theory GoFields
  imports GoStrings
begin

section \<open>Text in columns\<close>

text \<open>
  What \<open>strings.Fields\<close> and \<open>strings.TrimSpace\<close> give on lines of words set apart by spaces, which
  is how the kernel and nginx print the tables that the collectors read; and \<open>strings.Contains\<close>.
\<close>

definition str_contains :: "string \<Rightarrow> string \<Rightarrow> bool" where
  "str_contains s t = list_ex (prefix t) (suffixes s)"

lemma str_contains_iff: "str_contains s t \<longleftrightarrow> (\<exists>a b. s = a @ t @ b)"
  unfolding str_contains_def list_ex_iff Bex_def in_set_suffixes suffix_def prefix_def by blast

definition word_text :: "string \<Rightarrow> bool" where
  "word_text t \<longleftrightarrow> t \<noteq> [] \<and> list_all plain_char t"

definition spaces :: "nat \<Rightarrow> string" where
  "spaces k = replicate k (CHR '' '')"

lemma spaces_simps [simp]: "spaces 0 = []" "spaces (Suc k) = CHR '' '' # spaces k" "rev (spaces k) = spaces k"
  by (simp_all add: spaces_def)

lemma lead_len_space:
  "lead_len ws_seqs (CHR '' '' # s) = 1" "lead_len (map rev ws_seqs) (CHR '' '' # s) = 1"
  by (simp_all add: lead_len_def ws_seqs_def)

lemma trim_by_space:
  "trim_by ws_seqs (CHR '' '' # s) = trim_by ws_seqs s"
  "trim_by (map rev ws_seqs) (CHR '' '' # s) = trim_by (map rev ws_seqs) s"
  by (subst trim_by.simps, simp add: lead_len_space)+

lemma trim_by_spaces:
  "trim_by ws_seqs (spaces k @ s) = trim_by ws_seqs s"
  "trim_by (map rev ws_seqs) (spaces k @ s) = trim_by (map rev ws_seqs) s"
  by (induction k) (simp_all add: trim_by_space)

lemma trim_space_spaces:
  assumes "s \<noteq> []" and "plain_char (hd s)" and "plain_char (last s)"
  shows "trim_space (spaces k @ s @ spaces j) = s"
proof -
  have "trim_left (spaces k @ s @ spaces j) = s @ spaces j"
    using assms(1,2) trim_by_plain(1) [of "s @ spaces j"] by (simp add: trim_left_def trim_by_spaces)
  moreover have "trim_right (s @ spaces j) = s"
    using assms(1,3) trim_by_plain(2) [of "rev s"] by (simp add: trim_right_def trim_by_spaces hd_rev)
  ultimately show ?thesis by (simp add: trim_space_def)
qed

lemma trim_space_word: "word_text t \<Longrightarrow> trim_space t = t"
  by (rule trim_space_plain) (cases t; auto simp: word_text_def list_all_iff)+

lemma fields_from_Nil: "fields_from cur [] = (if cur = [] then [] else [cur])"
  by (subst fields_from.simps) simp

lemma fields_from_word: "list_all plain_char t \<Longrightarrow> fields_from cur (t @ s) = fields_from (cur @ t) s"
proof (induction t arbitrary: cur)
  case (Cons c t)
  then have "ws_len (c # t @ s) = 0" by (simp add: ws_len_def lead_len_plain)
  then have "fields_from cur ((c # t) @ s) = fields_from (cur @ [c]) (t @ s)"
    by (subst fields_from.simps) simp
  then show ?case using Cons by simp
qed simp

lemma fields_from_space:
  "fields_from cur (CHR '' '' # s) = (if cur = [] then [] else [cur]) @ fields_from [] s"
  by (subst fields_from.simps) (simp add: ws_len_def lead_len_space)

lemma fields_from_spaces:
  "fields_from cur (spaces k @ s) = (if k = 0 then fields_from cur s else (if cur = [] then [] else [cur]) @ fields_from [] s)"
  by (induction k arbitrary: cur) (auto simp: fields_from_space)

text \<open>Words, each after some spaces.\<close>

definition columns :: "(nat \<times> string) list \<Rightarrow> string" where
  "columns ps = concat (map (\<lambda>(k, t). spaces k @ t) ps)"

lemma columns_simps [simp]: "columns [] = []" "columns ((k, t) # ps) = spaces k @ t @ columns ps"
  by (simp_all add: columns_def)

lemma fields_from_columns:
  assumes "\<forall>(k, t) \<in> set ps. 0 < k \<and> word_text t"
  shows "fields_from cur (columns ps @ spaces j) = (if cur = [] then [] else [cur]) @ map snd ps"
  using assms
proof (induction ps arbitrary: cur)
  case Nil
  then show ?case using fields_from_spaces [of cur j "[]"] by (simp add: fields_from_Nil)
next
  case (Cons p ps)
  obtain k t where p: "p = (k, t)" "0 < k" "t \<noteq> []" "list_all plain_char t"
    using Cons.prems by (cases p) (auto simp: word_text_def)
  then show ?case
    using Cons.IH [of t] Cons.prems by (simp add: fields_from_spaces fields_from_word)
qed

lemma fields_columns:
  assumes "word_text t" and "\<forall>(k, t) \<in> set ps. 0 < k \<and> word_text t"
  shows "fields (spaces k @ t @ columns ps @ spaces j) = t # map snd ps"
  using assms fields_from_columns [OF assms(2), of t j]
  by (simp add: fields_def fields_from_spaces fields_from_word word_text_def)

lemma word_text_Cons [simp]: "word_text (c # t) \<longleftrightarrow> plain_char c \<and> list_all plain_char t"
  by (simp add: word_text_def)

lemma word_fmt_nat [simp]: "word_text (fmt_nat 10 n)"
proof -
  have "plain_char c" if "c \<in> set (fmt_nat 10 n)" for c
    using fmt_nat_digits that by (fastforce simp: is_digit_def plain_char_def)
  then show ?thesis by (simp add: word_text_def list_all_iff)
qed

lemma word_append: "word_text s \<Longrightarrow> list_all plain_char t \<Longrightarrow> word_text (s @ t)"
  by (simp add: word_text_def)

lemma word_hd_last: "word_text t \<Longrightarrow> plain_char (hd t) \<and> plain_char (last t)"
  by (auto simp: word_text_def list_all_iff)

lemma last_columns:
  assumes "word_text t" and "\<forall>(k, t) \<in> set ps. 0 < k \<and> word_text t"
  shows "plain_char (last (t @ columns ps))"
  using assms
proof (induction ps arbitrary: t)
  case (Cons p ps)
  obtain k u where p: "p = (k, u)" "word_text u" using Cons.prems(2) by (cases p) auto
  have "plain_char (last (u @ columns ps))" using Cons.IH [OF p(2)] Cons.prems(2) by simp
  moreover have "u @ columns ps \<noteq> []" using p(2) by (auto simp: word_text_def)
  ultimately have "plain_char (last (t @ spaces k @ u @ columns ps))" by (metis last_appendR append_is_Nil_conv)
  then show ?case by (simp add: p(1))
qed (simp add: word_hd_last)

text \<open>A printed line, read back: trimmed and split into its words.\<close>

lemma line_columns:
  assumes "word_text t" and "\<forall>(k, t) \<in> set ps. 0 < k \<and> word_text t"
  shows "trim_space (spaces k @ t @ columns ps @ spaces j) = t @ columns ps"
    and "fields (t @ columns ps) = t # map snd ps" and "t @ columns ps \<noteq> []"
proof -
  have ne: "t \<noteq> []" using assms(1) by (auto simp: word_text_def)
  then show "t @ columns ps \<noteq> []" by simp
  have "plain_char (hd (t @ columns ps))" using word_hd_last [OF assms(1)] ne by simp
  then show "trim_space (spaces k @ t @ columns ps @ spaces j) = t @ columns ps"
    using trim_space_spaces [of "t @ columns ps" k j] ne last_columns [OF assms] by simp
  show "fields (t @ columns ps) = t # map snd ps" using fields_columns [OF assms, of 0 0] by simp
qed

lemma fmt_nat_length: "n < 10 ^ k \<Longrightarrow> 0 < k \<Longrightarrow> length (fmt_nat 10 n) \<le> k"
proof (induction k arbitrary: n)
  case (Suc k)
  show ?case
  proof (cases "n < 10")
    case True
    then show ?thesis by (subst fmt_nat.simps) simp
  next
    case False
    then have "k \<noteq> 0" using Suc.prems(1) by (cases k) auto
    moreover have "n div 10 < 10 ^ k" using Suc.prems(1) by (simp add: less_mult_imp_div_less mult.commute)
    ultimately have "length (fmt_nat 10 (n div 10)) \<le> k" using Suc.IH by simp
    then show ?thesis using False by (subst fmt_nat.simps) simp
  qed
qed simp

lemma fmt_nat_no: "\<not> is_digit c \<Longrightarrow> c \<notin> set (fmt_nat 10 n)"
  using fmt_nat_digits by blast

lemma fmt_nat_not_key:
  "\<not> is_digit c \<Longrightarrow> fmt_nat 10 n \<noteq> c # s" "\<not> is_digit c \<Longrightarrow> \<not> has_prefix (fmt_nat 10 n) (c # s)"
  using fmt_nat_no [of c n] by (auto simp: has_prefix_def prefix_def)

end
