(* ===== verification/Agent.thy ===== *)
theory Agent
  imports Client
begin

section \<open>The agent (internal/agent)\<close>

text \<open>
  The agent runs each collector in a goroutine of its own: once at the start and then on every tick,
  at most \<open>MaxConcurrency\<close> collections at a time, until the context ends; then it waits for all of
  them and closes the collectors. Probes add collectors at the start. A probe, a collection or a
  close that panics is contained. \<open>'c\<close> is a collector; what it does is the environment's choice.
\<close>

definition CollectTimeout :: int where "CollectTimeout = 3 * second"
definition MaxConcurrency :: nat where "MaxConcurrency = 4"
definition CoreFastEvery :: int where "CoreFastEvery = 10 * second"
definition CoreSlowEvery :: int where "CoreSlowEvery = 60 * second"
definition DockerEvery :: int where "DockerEvery = 10 * second"
definition MongoEvery :: int where "MongoEvery = 10 * second"
definition NginxEvery :: int where "NginxEvery = 10 * second"

subsection \<open>Probing\<close>

datatype 'a outcome = Returned 'a | Panicked string

record 'c probe =
  pbID :: string
  pbDetect :: "(bool \<times> string) outcome"
  pbNew :: "'c option outcome"

definition detectOnce :: "'c probe \<Rightarrow> bool \<times> string" where
  "detectOnce p = (case pbDetect p of Returned r \<Rightarrow> r | Panicked v \<Rightarrow> (False, ''probe panicked: '' @ v))"

definition newFromProbe :: "'c probe \<Rightarrow> 'c option" where
  "newFromProbe p = (case pbNew p of Returned c \<Rightarrow> c | Panicked v \<Rightarrow> None)"

definition logProbe :: "string \<Rightarrow> bool \<Rightarrow> string \<Rightarrow> string" where
  "logProbe pid detected reason =
     (let status = (if detected then ''detected'' else ''not detected'') in
      if reason = [] then ''probe '' @ pid @ '': '' @ status
      else ''probe '' @ pid @ '': '' @ status @ '': '' @ reason)"

text \<open>One probe: the collector it adds and the lines it logs.\<close>

definition run_probe :: "'c probe option \<Rightarrow> 'c list \<times> string list" where
  "run_probe probe =
     (case probe of
        None \<Rightarrow> ([], [])
      | Some p \<Rightarrow>
          (case detectOnce p of
             (True, reason) \<Rightarrow>
               (case newFromProbe p of
                  None \<Rightarrow> ([], [logProbe (pbID p) True reason, ''probe '' @ pbID p @ '': init failed''])
                | Some c \<Rightarrow> ([c], [logProbe (pbID p) True reason]))
           | (False, reason) \<Rightarrow> ([], [logProbe (pbID p) False reason])))"

definition agent_collectors :: "'c option list \<Rightarrow> 'c probe option list \<Rightarrow> 'c list" where
  "agent_collectors core probes =
     concat (map (\<lambda>c. case c of None \<Rightarrow> [] | Some x \<Rightarrow> [x]) core) @ concat (map (fst \<circ> run_probe) probes)"

subsection \<open>Collecting and closing\<close>

text \<open>The interval of a collector, the error of one collection (\<open>None\<close> for none), and the lines that closing logs.\<close>

definition collector_every :: "int \<Rightarrow> int" where
  "collector_every every = (if every \<le> 0 then CoreFastEvery else every)"

definition safeCollect :: "string option outcome \<Rightarrow> string option" where
  "safeCollect result = (case result of Returned err \<Rightarrow> err | Panicked v \<Rightarrow> Some (''panic: '' @ v))"

text \<open>A collector as \<open>closeCollectors\<close> meets it: its ID, and what \<open>Close\<close> does if it has one.\<close>

definition close_collector :: "string \<times> string option outcome option \<Rightarrow> string list" where
  "close_collector c =
     (case snd c of
        None \<Rightarrow> []
      | Some (Panicked v) \<Rightarrow> [''collector '' @ fst c @ '': close panic: '' @ v]
      | Some (Returned None) \<Rightarrow> []
      | Some (Returned (Some err)) \<Rightarrow> [''collector '' @ fst c @ '': close failed: '' @ err])"

definition closeCollectors :: "(string \<times> string option outcome option) option list \<Rightarrow> string list" where
  "closeCollectors cs = concat (map (\<lambda>c. case c of None \<Rightarrow> [] | Some x \<Rightarrow> close_collector x) cs)"

subsection \<open>The limiter of log lines\<close>

record logLimiter =
  llEvery :: int
  llLast :: "string \<rightharpoonup> int"

definition newLogLimiter :: "int \<Rightarrow> logLimiter" where
  "newLogLimiter every = \<lparr>llEvery = every, llLast = Map.empty\<rparr>"

definition Allow :: "string \<Rightarrow> int \<Rightarrow> logLimiter \<Rightarrow> bool \<times> logLimiter" where
  "Allow key now l =
     (case llLast l key of
        None \<Rightarrow> (True, l\<lparr>llLast := (llLast l)(key \<mapsto> now)\<rparr>)
      | Some prev \<Rightarrow>
          (if now - prev \<ge> llEvery l then (True, l\<lparr>llLast := (llLast l)(key \<mapsto> now)\<rparr>) else (False, l)))"

subsection \<open>The collection goroutines\<close>

text \<open>
  Where a goroutine is: waiting for its ticker, in \<open>collectOnce\<close> before the semaphore, collecting
  with a place of the semaphore, or returned.
\<close>

datatype goroutine = Starting | Ticking | Acquiring | Collecting | Done

record runner =
  rnPhases :: "goroutine list"
  rnSem :: nat
  rnCancelled :: bool
  rnClosed :: bool
  rnLimiter :: logLimiter
  rnLog :: "(string \<times> int) list"

definition new_runner :: "nat \<Rightarrow> runner" where
  "new_runner n = \<lparr>rnPhases = replicate n Starting, rnSem = 0, rnCancelled = False, rnClosed = False,
     rnLimiter = newLogLimiter (60 * second), rnLog = []\<rparr>"

text \<open>
  The steps: the first collection of a goroutine (skipped when the context has ended), a tick, the
  end of the context, the two cases of the \<open>select\<close> on the semaphore (\<open>GiveUp\<close> when the deadline of the
  collection passed), the end of a collection with an error or none at some time, a return at the
  end of the context, and closing the collectors once all goroutines have returned.
\<close>

datatype runner_step =
    Start nat
  | Fire nat
  | Stop
  | Acquire nat
  | GiveUp nat
  | Finish nat bool string int
  | Return nat
  | CloseAll

definition phase_of :: "runner \<Rightarrow> nat \<Rightarrow> goroutine option" where
  "phase_of r i = (if i < length (rnPhases r) then Some (rnPhases r ! i) else None)"

definition set_phase :: "nat \<Rightarrow> goroutine \<Rightarrow> runner \<Rightarrow> runner" where
  "set_phase i g r = r\<lparr>rnPhases := (rnPhases r)[i := g]\<rparr>"

definition finish_collect :: "nat \<Rightarrow> bool \<Rightarrow> string \<Rightarrow> int \<Rightarrow> runner \<Rightarrow> runner" where
  "finish_collect i failed cid now r =
     (let r1 = (set_phase i Ticking r)\<lparr>rnSem := rnSem r - 1\<rparr> in
      if \<not> failed then r1
      else if rnCancelled r then r1
      else case Allow cid now (rnLimiter r1) of
        (ok, l) \<Rightarrow> if ok then r1\<lparr>rnLimiter := l, rnLog := rnLog r1 @ [(cid, now)]\<rparr> else r1\<lparr>rnLimiter := l\<rparr>)"

definition agent_step :: "runner \<Rightarrow> runner_step \<Rightarrow> runner" where
  "agent_step r s =
     (case s of
        Start i \<Rightarrow>
          (if phase_of r i = Some Starting
           then set_phase i (if rnCancelled r then Ticking else Acquiring) r else r)
      | Fire i \<Rightarrow> (if phase_of r i = Some Ticking then set_phase i Acquiring r else r)
      | Stop \<Rightarrow> r\<lparr>rnCancelled := True\<rparr>
      | Acquire i \<Rightarrow>
          (if phase_of r i = Some Acquiring \<and> rnSem r < MaxConcurrency
           then (set_phase i Collecting r)\<lparr>rnSem := rnSem r + 1\<rparr> else r)
      | GiveUp i \<Rightarrow> (if phase_of r i = Some Acquiring then set_phase i Ticking r else r)
      | Finish i failed cid now \<Rightarrow>
          (if phase_of r i = Some Collecting then finish_collect i failed cid now r else r)
      | Return i \<Rightarrow>
          (if phase_of r i = Some Ticking \<and> rnCancelled r then set_phase i Done r else r)
      | CloseAll \<Rightarrow>
          (if rnCancelled r \<and> (\<forall>g \<in> set (rnPhases r). g = Done) then r\<lparr>rnClosed := True\<rparr> else r))"

subsection \<open>Invariants\<close>

definition runner_ok :: "runner \<Rightarrow> bool" where
  "runner_ok r \<longleftrightarrow>
     rnSem r = count_list (rnPhases r) Collecting \<and> rnSem r \<le> MaxConcurrency \<and>
     (rnClosed r \<longrightarrow> rnCancelled r \<and> (\<forall>g \<in> set (rnPhases r). g = Done))"

lemma count_list_update:
  "i < length xs \<Longrightarrow> count_list (xs[i := g]) y + (if xs ! i = y then 1 else 0) = count_list xs y + (if g = y then 1 else 0)"
proof (induction xs arbitrary: i)
  case (Cons x xs)
  show ?case
  proof (cases i)
    case (Suc j)
    then show ?thesis using Cons.IH [of j] Cons.prems by (simp split: if_splits)
  qed simp
qed simp

lemma phase_of_Some: "phase_of r i = Some g \<longleftrightarrow> i < length (rnPhases r) \<and> rnPhases r ! i = g"
  by (auto simp: phase_of_def)

lemma closed_no_phase:
  "runner_ok r \<Longrightarrow> rnClosed r \<Longrightarrow> phase_of r i = Some g \<Longrightarrow> g = Done"
  by (auto simp: runner_ok_def phase_of_Some)

lemma set_phase_ok:
  assumes "runner_ok r" and "phase_of r i = Some g" and "g \<noteq> Done" and "g \<noteq> Collecting" and "g' \<noteq> Collecting"
  shows "runner_ok (set_phase i g' r)"
  using assms closed_no_phase [OF assms(1) _ assms(2)] count_list_update [of i "rnPhases r" g' Collecting]
  by (auto simp: runner_ok_def set_phase_def phase_of_Some)

lemma agent_step_ok [step_inv]:
  assumes ok: "runner_ok r"
  shows "runner_ok (agent_step r s)"
proof (cases s)
  case (Start i)
  then show ?thesis using ok set_phase_ok [OF ok, of i Starting] by (simp add: agent_step_def)
next
  case (Fire i)
  then show ?thesis using ok set_phase_ok [OF ok, of i Ticking] by (simp add: agent_step_def)
next
  case (Acquire i)
  then show ?thesis
    using ok closed_no_phase [OF ok, of i Acquiring] count_list_update [of i "rnPhases r" Collecting Collecting]
    by (auto simp: agent_step_def runner_ok_def set_phase_def phase_of_Some)
next
  case (GiveUp i)
  then show ?thesis using ok set_phase_ok [OF ok, of i Acquiring] by (simp add: agent_step_def)
next
  case (Finish i failed cid now)
  have "runner_ok (finish_collect i failed cid now r)" if "phase_of r i = Some Collecting"
    using ok that closed_no_phase [OF ok _ that] count_list_update [of i "rnPhases r" Ticking Collecting]
    by (auto simp: finish_collect_def runner_ok_def set_phase_def phase_of_Some Let_def split: prod.split)
  then show ?thesis using ok Finish by (simp add: agent_step_def)
next
  case (Return i)
  then show ?thesis using ok set_phase_ok [OF ok, of i Ticking Done] by (simp add: agent_step_def)
qed (use ok in \<open>auto simp: agent_step_def runner_ok_def\<close>)

interpretation agent_run: inv_steps agent_step runner_ok "\<lambda>s. True"
  by unfold_locales (rule agent_step_ok)

lemma runner_ok_new [simp]: "runner_ok (new_runner n)"
  by (auto simp: runner_ok_def new_runner_def)

text \<open>The times at which an error of one collector was logged.\<close>

definition logged :: "string \<Rightarrow> runner \<Rightarrow> int list" where
  "logged cid r = map snd (filter (\<lambda>e. fst e = cid) (rnLog r))"

definition apart :: "int \<Rightarrow> int list \<Rightarrow> bool" where
  "apart d ts \<longleftrightarrow> sorted_wrt (\<lambda>a b. d \<le> b - a) ts"

text \<open>The limiter remembers the last logged time of every collector.\<close>

definition error_log_ok :: "runner \<Rightarrow> bool" where
  "error_log_ok r \<longleftrightarrow> llEvery (rnLimiter r) = 60 * second \<and>
     (\<forall>cid. apart (60 * second) (logged cid r) \<and>
        llLast (rnLimiter r) cid = (if logged cid r = [] then None else Some (List.last (logged cid r))))"

lemma apart_snoc:
  assumes "0 \<le> d" and "apart d ts" and "ts = [] \<or> d \<le> t - List.last ts"
  shows "apart d (ts @ [t])"
proof (cases ts rule: rev_cases)
  case (snoc us u)
  then show ?thesis using assms by (auto simp: apart_def sorted_wrt_append)
qed (simp add: apart_def)

lemma second_nonneg: "0 \<le> 60 * second"
  by (simp add: second_def)

lemma finish_collect_error_log:
  assumes "error_log_ok r"
  shows "error_log_ok (finish_collect i failed cid now r)"
proof -
  have same: "logged c (r\<lparr>rnPhases := ps, rnSem := k, rnLimiter := l\<rparr>) = logged c r" for c ps k l
    by (simp add: logged_def)
  have ap: "apart (60 * second) (logged cid r @ [now])"
    if "logged cid r = [] \<or> 60 * second \<le> now - List.last (logged cid r)"
    using assms that by (intro apart_snoc second_nonneg) (auto simp: error_log_ok_def)
  show ?thesis
    using assms ap
    by (auto simp: finish_collect_def set_phase_def Allow_def error_log_ok_def logged_def Let_def
        split: option.splits if_splits)
qed

lemma agent_step_error_log [step_inv]:
  assumes "error_log_ok r"
  shows "error_log_ok (agent_step r s)"
proof (cases s)
  case (Finish i failed cid now)
  then show ?thesis using assms finish_collect_error_log [OF assms] by (simp add: agent_step_def)
qed (use assms in \<open>auto simp: agent_step_def error_log_ok_def logged_def set_phase_def\<close>)

interpretation agent_log: inv_steps agent_step error_log_ok "\<lambda>s. True"
  by unfold_locales (rule agent_step_error_log)

lemma error_log_new [simp]: "error_log_ok (new_runner n)"
  by (auto simp: error_log_ok_def new_runner_def newLogLimiter_def logged_def apart_def)

text \<open>
  Whatever the interleaving and whatever the clock reads, two logged errors of one
  collector are at least a minute apart.
\<close>

theorem errors_logged_once_a_minute:
  "apart (60 * second) (logged cid (run_steps agent_step (new_runner n) steps))"
proof -
  have "error_log_ok (run_steps agent_step (new_runner n) steps)" by (rule agent_log.run_keeps) simp_all
  then show ?thesis by (simp add: error_log_ok_def)
qed

lemma agent_goroutines: "length (rnPhases (run_steps agent_step (new_runner n) steps)) = n"
proof -
  have step: "length (rnPhases (agent_step r s)) = length (rnPhases r)" for r s
    by (cases s) (auto simp: agent_step_def set_phase_def finish_collect_def Let_def split: prod.split)
  have "length (rnPhases (run_steps agent_step r steps)) = length (rnPhases r)" for r
    by (induction steps arbitrary: r) (simp_all add: step)
  then show ?thesis by (simp add: new_runner_def)
qed

text \<open>
  C23 (invariant). In every interleaving at most four collections run at a time, no collector runs
  twice at once (each of the \<open>n\<close> goroutines has one phase), and the collectors are closed only after the context
  ended and every goroutine returned: never while one collects, waits for the semaphore or for a tick.
\<close>

theorem collections_bounded:
  fixes n :: nat and steps :: "runner_step list"
  defines "r \<equiv> run_steps agent_step (new_runner n) steps"
  shows "count_list (rnPhases r) Collecting = rnSem r \<and> rnSem r \<le> 4 \<and>
    length (rnPhases r) = n \<and> (rnClosed r \<longrightarrow> rnCancelled r \<and> (\<forall>i < n. rnPhases r ! i = Done))"
proof -
  have len: "length (rnPhases r) = n" unfolding r_def by (rule agent_goroutines)
  have ok: "runner_ok r" unfolding r_def by (rule agent_run.run_keeps) simp_all
  then show ?thesis using len by (auto simp: runner_ok_def MaxConcurrency_def)
qed

theorem collections_bounded_witness:
  "let r = run_steps agent_step (new_runner 2) [Start 0, Acquire 0, Stop, Finish 0 False [] 5, Return 0, Start 1, Return 1, CloseAll] in
    count_list (rnPhases r) Collecting = rnSem r \<and> rnSem r \<le> 4 \<and>
    length (rnPhases r) = 2 \<and> (rnClosed r \<longrightarrow> rnCancelled r \<and> (\<forall>i < 2. rnPhases r ! i = Done))"
  unfolding Let_def by (rule collections_bounded)

end
