(* ===== verification/Docker.thy ===== *)
theory Docker
  imports ClientRuns FloatOps GoFields Agent
begin

section \<open>The Docker collector (internal/collectors/docker)\<close>

text \<open>
  The collector asks the Docker daemon for its containers, their statistics and restart counts and
  calls the client. The answers of the daemon are arguments (\<open>None\<close> for a request that failed or
  did not decode); what a collection does is the list of its calls and the new table of previous
  CPU readings, the only state that the collection goroutines share. They access it under a lock,
  each container its own entry, so the calls of a container depend on that container alone; the
  calls of different containers, made outside of the lock, are interleaved in any order.
\<close>

datatype dockerLabelMode = DockerLabelService | DockerLabelContainer

record dockerContainerSummary =
  dcID :: string
  dcNames :: "string list"
  dcLabels :: "(string \<times> string) list"

record dockerCPUUsage =
  totalUsage :: u64
  percpuUsage :: "u64 list"

record dockerCPUStats =
  cpuUsage :: dockerCPUUsage
  systemCPUUsage :: u64
  onlineCPUs :: "32 word"

record dockerNetworkStats =
  netRxBytes :: u64
  netTxBytes :: u64

record dockerStats =
  cpuStats :: dockerCPUStats
  memoryUsage :: u64
  networks :: "(string \<times> dockerNetworkStats) list"

record dockerContainerInfo =
  infoRestartCount :: u64
  stateRestartCount :: u64

record dockerCPUPrev =
  prevTotal :: u64
  prevSystem :: u64

record cpuCollector =
  labelMode :: dockerLabelMode
  labelKey :: string
  maxContainers :: int
  ccConcurrency :: int
  ccTimeout :: int
  ccEvery :: int
  ccPrev :: "string \<rightharpoonup> dockerCPUPrev"

definition parseDockerLabelMode :: "string \<Rightarrow> (dockerLabelMode \<times> string) option" where
  "parseDockerLabelMode s =
     (let m = to_lower (trim_space s) in
      if m = [] \<or> m = ''service'' then Some (DockerLabelService, ''service'')
      else if m = ''container'' then Some (DockerLabelContainer, ''container'')
      else None)"

definition newCPUCollector :: "string \<Rightarrow> int \<Rightarrow> string \<Rightarrow> int \<Rightarrow> int \<Rightarrow> int \<Rightarrow> cpuCollector option" where
  "newCPUCollector sockPath every mode maxc conc timeout =
     (if trim_space sockPath = [] then None
      else case parseDockerLabelMode mode of
        None \<Rightarrow> None
      | Some (m, key) \<Rightarrow>
          (let maxc = (if maxc < 1 then 1 else maxc);
               conc = (if conc < 1 then 1 else conc);
               conc = (if conc > 32 then 32 else conc);
               timeout = (if timeout \<le> 0 then 5 * second else timeout);
               every = (if every \<le> 0 then 10 * second else every) in
           Some \<lparr>labelMode = m, labelKey = key, maxContainers = maxc, ccConcurrency = conc,
                 ccTimeout = timeout, ccEvery = every, ccPrev = Map.empty\<rparr>))"

text \<open>
  The probe: \<open>stat\<close> of the socket path gives an error text, or whether it is a socket. The collector it
  makes has fixed parameters.
\<close>

definition defaultSockPath :: string where "defaultSockPath = ''/var/run/docker.sock''"

definition detect_docker :: "string + bool \<Rightarrow> bool \<times> string" where
  "detect_docker stat =
     (case stat of
        Inl err \<Rightarrow> (False, ''stat '' @ defaultSockPath @ '': '' @ err)
      | Inr socket \<Rightarrow>
          (if \<not> socket then (False, defaultSockPath @ '' is not a unix socket'')
           else (True, ''unix socket detected at '' @ defaultSockPath)))"

definition new_docker :: "cpuCollector option" where
  "new_docker = newCPUCollector defaultSockPath DockerEvery ''service'' 200 8 (5 * second)"

definition map_get :: "(string \<times> string) list \<Rightarrow> string \<Rightarrow> string" where
  "map_get m k = (case map_of m k of None \<Rightarrow> [] | Some v \<Rightarrow> v)"

definition containerLabelValue :: "cpuCollector \<Rightarrow> dockerContainerSummary \<Rightarrow> string" where
  "containerLabelValue c ctr =
     (let name = (case dcNames ctr of [] \<Rightarrow> [] | n # _ \<Rightarrow> trim_prefix (trim_space n) ''/'') in
      if labelMode c = DockerLabelContainer then name
      else
        let v = trim_space (map_get (dcLabels ctr) ''com.docker.compose.service'') in
        if v \<noteq> [] then v
        else
          let v = trim_space (map_get (dcLabels ctr) ''com.docker.swarm.service.name'') in
          if v \<noteq> [] then v else name)"

definition getRestartCount :: "dockerContainerInfo option \<Rightarrow> u64 \<times> bool" where
  "getRestartCount info =
     (case info of
        None \<Rightarrow> (0, False)
      | Some out \<Rightarrow> (if infoRestartCount out > 0 then (infoRestartCount out, True) else (stateRestartCount out, True)))"

definition container_mem_calls :: "string \<Rightarrow> dockerStats \<Rightarrow> call list" where
  "container_mem_calls target stats =
     (if memoryUsage stats > 0
      then [ValueSparse ''docker.container.mem.usage_kb'' (kb (memoryUsage stats)) [target]] else [])"

definition container_restart_calls :: "string \<Rightarrow> dockerContainerInfo option \<Rightarrow> call list" where
  "container_restart_calls target info =
     (case getRestartCount info of
        (n, True) \<Rightarrow> [Total ''docker.container.restart_count'' (f64_u64 n) [target]]
      | (_, False) \<Rightarrow> [])"

definition container_net_calls :: "string \<Rightarrow> dockerStats \<Rightarrow> call list" where
  "container_net_calls target stats =
     (if length (networks stats) > 0
      then
        let rx = sum_list (map (netRxBytes \<circ> snd) (networks stats));
            tx = sum_list (map (netTxBytes \<circ> snd) (networks stats)) in
        [Total ''docker.container.net.kb'' (kb rx) [target, ''dir=rx''],
         Total ''docker.container.net.kb'' (kb tx) [target, ''dir=tx'']]
      else [])"

definition container_cpu_pct :: "u64 \<Rightarrow> u64 \<Rightarrow> 32 word \<Rightarrow> f64" where
  "container_cpu_pct cpuDelta systemDelta online =
     f64_div (f64_of_int 100 * f64_u64 cpuDelta) (f64_u64 systemDelta) * f64_of_nat (unat online)"

definition online_cpus :: "dockerCPUStats \<Rightarrow> 32 word" where
  "online_cpus s =
     (let online = onlineCPUs s;
          online = (if online = 0 then word_of_nat (length (percpuUsage (cpuUsage s))) else online) in
      if online = 0 then 1 else online)"

definition container_cpu_calls ::
  "string \<Rightarrow> string \<Rightarrow> dockerStats \<Rightarrow> (string \<rightharpoonup> dockerCPUPrev) \<Rightarrow> call list \<times> (string \<rightharpoonup> dockerCPUPrev)" where
  "container_cpu_calls cid target stats prevs =
     (let tot = totalUsage (cpuUsage (cpuStats stats)); system = systemCPUUsage (cpuStats stats) in
      if tot = 0 \<or> system = 0 then ([], prevs)
      else
        let prevs' = prevs(cid \<mapsto> \<lparr>prevTotal = tot, prevSystem = system\<rparr>) in
        case prevs cid of
          None \<Rightarrow> ([], prevs')
        | Some prev \<Rightarrow>
            (let cpuDelta = diffUint (prevTotal prev) tot; systemDelta = diffUint (prevSystem prev) system in
             if cpuDelta = 0 \<or> systemDelta = 0 then ([], prevs')
             else
               let pct = container_cpu_pct cpuDelta systemDelta (online_cpus (cpuStats stats)) in
               if pct < 0 \<or> is_nan pct then ([], prevs')
               else ([Value ''docker.container.cpu.usage_pct'' pct [target]], prevs')))"

definition collectContainer ::
  "cpuCollector \<Rightarrow> dockerContainerSummary \<Rightarrow> dockerStats option \<Rightarrow> dockerContainerInfo option \<Rightarrow>
     (string \<rightharpoonup> dockerCPUPrev) \<Rightarrow> call list \<times> (string \<rightharpoonup> dockerCPUPrev)" where
  "collectContainer c ctr stats info prevs =
     (if dcID ctr = [] then ([], prevs)
      else
        let target = containerLabelValue c ctr in
        if target = [] then ([], prevs)
        else
          let targetLabel = Label (labelKey c) target in
          case stats of
            None \<Rightarrow> ([], prevs)
          | Some st \<Rightarrow>
              (let (cpu, prevs') = container_cpu_calls (dcID ctr) targetLabel st prevs in
               (container_mem_calls targetLabel st @ container_restart_calls targetLabel info @ container_net_calls targetLabel st @ cpu,
                prevs')))"

type_synonym sample = "dockerContainerSummary \<times> dockerStats option \<times> dockerContainerInfo option"

fun collect_samples ::
  "cpuCollector \<Rightarrow> sample list \<Rightarrow> (string \<rightharpoonup> dockerCPUPrev) \<Rightarrow> call list list \<times> (string \<rightharpoonup> dockerCPUPrev)" where
  "collect_samples c [] prevs = ([], prevs)"
| "collect_samples c ((ctr, stats, info) # rest) prevs =
     (let (calls, prevs1) = collectContainer c ctr stats info prevs;
          (blocks, prevs2) = collect_samples c rest prevs1 in
      (calls # blocks, prevs2))"

text \<open>
  An interleaving of the calls of the workers: the schedule names the container whose next call is
  made, and the calls it leaves over follow in order.
\<close>

fun interleave :: "nat list \<Rightarrow> 'a list list \<Rightarrow> 'a list" where
  "interleave [] blocks = concat blocks"
| "interleave (i # order) blocks =
     (case (if i < length blocks then blocks ! i else []) of
        [] \<Rightarrow> interleave order blocks
      | x # xs \<Rightarrow> x # interleave order (blocks[i := xs]))"

text \<open>
  \<open>listed\<close> is the answer to the list request, \<open>reached\<close> the containers the workers got to before the
  timeout, with the daemon's answers, \<open>order\<close> the schedule of the calls. An error leaves the state alone.
\<close>

definition collect_docker ::
  "dockerContainerSummary list option \<Rightarrow> sample list \<Rightarrow> nat list \<Rightarrow> cpuCollector \<Rightarrow> call list \<times> cpuCollector" where
  "collect_docker listed reached order c =
     (case listed of
        None \<Rightarrow> ([], c)
      | Some containers \<Rightarrow>
          (if length containers = 0 then ([], c\<lparr>ccPrev := Map.empty\<rparr>)
           else
             let (blocks, prevs) = collect_samples c reached (ccPrev c) in
             (interleave order blocks, c\<lparr>ccPrev := prevs |` (dcID ` set containers)\<rparr>)))"

text \<open>\<open>doJSON\<close>: \<open>decoded\<close> is what the decoder makes of the body.\<close>

definition doJSON :: "int \<Rightarrow> 'a option \<Rightarrow> 'a option" where
  "doJSON statusCode decoded = (if statusCode < 200 \<or> statusCode \<ge> 300 then None else decoded)"

subsection \<open>CPU readings\<close>

definition is_cpu_call :: "call \<Rightarrow> bool" where
  "is_cpu_call k = (case k of Value m _ _ \<Rightarrow> m = ''docker.container.cpu.usage_pct'' | _ \<Rightarrow> False)"

lemma other_calls_not_cpu:
  "\<forall>k \<in> set (container_mem_calls t st @ container_restart_calls t info @ container_net_calls t st). \<not> is_cpu_call k"
  by (auto simp: container_mem_calls_def container_restart_calls_def container_net_calls_def is_cpu_call_def Let_def
      split: prod.split bool.split)

lemma container_cpu_calls_prev:
  "snd (container_cpu_calls cid t st prevs) =
     (if totalUsage (cpuUsage (cpuStats st)) = 0 \<or> systemCPUUsage (cpuStats st) = 0 then prevs
      else prevs(cid \<mapsto> \<lparr>prevTotal = totalUsage (cpuUsage (cpuStats st)), prevSystem = systemCPUUsage (cpuStats st)\<rparr>))"
  by (simp add: container_cpu_calls_def Let_def split: option.split)

lemma collectContainer_prev:
  "snd (collectContainer c ctr stats info prevs) x = prevs x \<or> x = dcID ctr"
  by (auto simp: collectContainer_def Let_def case_prod_beta container_cpu_calls_prev split: option.split)

lemma collect_samples_prev:
  "snd (collect_samples c samples prevs) x = prevs x \<or> x \<in> (dcID \<circ> fst) ` set samples"
proof (induction samples arbitrary: prevs)
  case (Cons s samples)
  obtain ctr stats info where s: "s = (ctr, stats, info)" by (cases s) auto
  show ?case
    using Cons [of "snd (collectContainer c ctr stats info prevs)"] collectContainer_prev [of c ctr stats info prevs x]
    by (auto simp: s case_prod_beta)
qed simp

text \<open>
  The table of previous readings never holds a container that is not listed: after
  every collection that got an answer it is within the listed containers (none listed: empty), so a
  long-lived agent does not accumulate the readings of removed containers; and a collection without
  an answer changes nothing.
\<close>

theorem docker_forgets_removed:
  "dom (ccPrev (snd (collect_docker (Some containers) reached order c))) \<subseteq> dcID ` set containers \<and>
   card (dom (ccPrev (snd (collect_docker (Some containers) reached order c)))) \<le> length containers \<and>
   collect_docker None reached order c = ([], c)"
proof -
  have sub: "dom (ccPrev (snd (collect_docker (Some containers) reached order c))) \<subseteq> dcID ` set containers"
    by (auto simp: collect_docker_def Let_def case_prod_beta)
  have "card (dom (ccPrev (snd (collect_docker (Some containers) reached order c)))) \<le> card (dcID ` set containers)"
    by (rule card_mono [OF _ sub]) simp
  also have "\<dots> \<le> card (set containers)" by (rule card_image_le) simp
  also have "\<dots> \<le> length containers" by (rule card_length)
  finally show ?thesis using sub by (simp add: collect_docker_def)
qed

text \<open>
  C32 (safety). A CPU percentage is emitted for a container only between two readings of it that
  both advanced: never on its first reading, never after a restart reset a counter, never when time
  stood still; and it is neither negative nor NaN. Whatever is emitted, the new reading is kept.
\<close>

theorem docker_cpu_needs_progress:
  assumes "k \<in> set (fst (collectContainer c ctr (Some st) info prevs))" and "is_cpu_call k"
  shows "\<exists>prev pct.
    prevs (dcID ctr) = Some prev \<and> prevTotal prev < totalUsage (cpuUsage (cpuStats st)) \<and>
    prevSystem prev < systemCPUUsage (cpuStats st) \<and>
    k = Value ''docker.container.cpu.usage_pct'' pct [Label (labelKey c) (containerLabelValue c ctr)] \<and>
    \<not> pct < 0 \<and> \<not> is_nan pct \<and>
    snd (collectContainer c ctr (Some st) info prevs) (dcID ctr) =
      Some \<lparr>prevTotal = totalUsage (cpuUsage (cpuStats st)), prevSystem = systemCPUUsage (cpuStats st)\<rparr>"
proof -
  let ?t = "Label (labelKey c) (containerLabelValue c ctr)"
  have ne: "dcID ctr \<noteq> []" "containerLabelValue c ctr \<noteq> []"
    using assms(1) by (auto simp: collectContainer_def Let_def split: if_split_asm)
  have run: "collectContainer c ctr (Some st) info prevs =
      (container_mem_calls ?t st @ container_restart_calls ?t info @ container_net_calls ?t st @ fst (container_cpu_calls (dcID ctr) ?t st prevs),
       snd (container_cpu_calls (dcID ctr) ?t st prevs))"
    using ne by (simp add: collectContainer_def Let_def case_prod_beta)
  have k: "k \<in> set (fst (container_cpu_calls (dcID ctr) ?t st prevs))"
    using assms other_calls_not_cpu [of ?t st info] unfolding run by auto
  then have nz: "totalUsage (cpuUsage (cpuStats st)) \<noteq> 0" "systemCPUUsage (cpuStats st) \<noteq> 0"
    by (auto simp: container_cpu_calls_def Let_def)
  obtain prev where p: "prevs (dcID ctr) = Some prev"
    using k by (cases "prevs (dcID ctr)") (auto simp: container_cpu_calls_def Let_def split: if_split_asm)
  show ?thesis
    using k nz p unfolding run
    by (auto simp: container_cpu_calls_def Let_def diffUint_0 not_le split: if_split_asm)
qed

subsection \<open>Replicas of a service\<close>

text \<open>
  The restart totals of a collection as the worker receives them: the events of the calls.
\<close>

definition total_events :: "string \<Rightarrow> call list \<Rightarrow> event list" where
  "total_events metric calls =
     concat (map (\<lambda>k. case k of
         Total m v ls \<Rightarrow> (if m = metric then [borrowEvent new_event MtTotal m v ls 0] else [])
       | _ \<Rightarrow> []) calls)"

lemma total_events_append: "total_events m (xs @ ys) = total_events m xs @ total_events m ys"
  by (simp add: total_events_def)

lemma total_events_parts:
  "total_events ''docker.container.restart_count'' (container_mem_calls t st) = []"
  "total_events ''docker.container.restart_count'' (container_net_calls t st) = []"
  "total_events ''docker.container.restart_count'' (fst (container_cpu_calls cid t st prevs)) = []"
  by (auto simp: total_events_def container_mem_calls_def container_net_calls_def container_cpu_calls_def Let_def split: option.split)

lemma total_run_series: "\<forall>e \<in> set (total_run limit totals es). series_of e \<in> series_of ` set es"
proof (induction es arbitrary: totals)
  case (Cons a es)
  obtain r t where ap: "applyTotal a totals limit = (r, t)" by fastforce
  have "series_of x = series_of a" if "r = Some x" for x
    using ap that by (auto simp: applyTotal_def Let_def series_of_def split: if_split_asm option.split_asm)
  then show ?case using Cons.IH [of t] by (auto simp: ap split: option.split)
qed simp

definition restart_total :: "string \<Rightarrow> u64 \<Rightarrow> event" where
  "restart_total target n =
     borrowEvent new_event MtTotal ''docker.container.restart_count'' (f64_u64 n) [Label ''service'' target] 0"

lemma restart_event:
  assumes "dcID ctr \<noteq> []" and "containerLabelValue c ctr = target" and "target \<noteq> []"
    and "getRestartCount info = (n, True)" and "labelKey c = ''service''"
  shows "total_events ''docker.container.restart_count'' (fst (collectContainer c ctr (Some st) info prevs)) =
    [restart_total target n]"
proof -
  let ?t = "Label (labelKey c) target"
  have "fst (collectContainer c ctr (Some st) info prevs) =
      container_mem_calls ?t st @ container_restart_calls ?t info @ container_net_calls ?t st @ fst (container_cpu_calls (dcID ctr) ?t st prevs)"
    using assms by (simp add: collectContainer_def Let_def case_prod_beta)
  then show ?thesis
    using assms(4,5)
    by (simp add: total_events_append total_events_parts restart_total_def)
      (simp add: container_restart_calls_def total_events_def)
qed

text \<open>The calls of a sequence of collections over the same answers, each with its own schedule.\<close>

fun docker_rounds :: "nat list list \<Rightarrow> dockerContainerSummary list \<Rightarrow> sample list \<Rightarrow> cpuCollector \<Rightarrow> call list" where
  "docker_rounds [] listed samples c = []"
| "docker_rounds (order # orders) listed samples c =
     (case collect_docker (Some listed) samples order c of
        (calls, c') \<Rightarrow> calls @ docker_rounds orders listed samples c')"

text \<open>Totals of interleaved calls are an interleaving of the totals.\<close>

lemma total_events_one: "total_events m [k] = [] \<or> (\<exists>e. total_events m [k] = [e])"
  by (cases k) (auto simp: total_events_def)

lemma total_events_interleave:
  "\<exists>order'. total_events m (interleave order blocks) = interleave order' (map (total_events m) blocks)"
proof (induction order arbitrary: blocks)
  case Nil
  have "total_events m (concat blocks) = concat (map (total_events m) blocks)"
    by (induction blocks) (simp_all add: total_events_append total_events_def)
  then show ?case by (intro exI [where x = "[]"]) simp
next
  case (Cons i order)
  show ?case
  proof (cases "i < length blocks \<and> blocks ! i \<noteq> []")
    case False
    then have "interleave (i # order) blocks = interleave order blocks" by auto
    then show ?thesis using Cons.IH [of blocks] by simp
  next
    case True
    then obtain x xs where b: "i < length blocks" "blocks ! i = x # xs" by (auto simp: neq_Nil_conv)
    have "total_events m (x # xs) = total_events m [x] @ total_events m xs"
      using total_events_append [of m "[x]" xs] by simp
    moreover obtain order' where
      o: "total_events m (interleave order (blocks[i := xs])) = interleave order' (map (total_events m) (blocks[i := xs]))"
      using Cons.IH [of "blocks[i := xs]"] by blast
    ultimately show ?thesis
      using total_events_one [of m x] b total_events_append [of m "[x]" "interleave order (blocks[i := xs])"]
    proof (elim disjE exE)
      assume none: "total_events m [x] = []"
      then have "map (total_events m) (blocks[i := xs]) = map (total_events m) blocks"
        using b \<open>total_events m (x # xs) = total_events m [x] @ total_events m xs\<close>
        by (simp add: map_update) (metis b(2) list_update_id nth_map)
      then show ?thesis
        using b o none total_events_append [of m "[x]" "interleave order (blocks[i := xs])"]
        by (intro exI [where x = order']) simp
    next
      fix e assume one: "total_events m [x] = [e]"
      then show ?thesis
        using b o \<open>total_events m (x # xs) = total_events m [x] @ total_events m xs\<close>
          total_events_append [of m "[x]" "interleave order (blocks[i := xs])"]
        by (intro exI [where x = "i # order'"]) (simp add: map_update)
    qed
  qed
qed

lemma interleave_two: "interleave order [[x], [y]] \<in> {[x, y], [y, x]}"
proof -
  have none: "interleave order [[], []] = []" for order
    by (induction order) (auto simp: less_Suc_eq)
  have y: "interleave order [[], [y]] = [y]" for order
    by (induction order) (auto simp: less_Suc_eq none)
  have x: "interleave order [[x], []] = [x]" for order
    by (induction order) (auto simp: less_Suc_eq none)
  show ?thesis by (induction order) (auto simp: less_Suc_eq x y)
qed

lemma containerLabelValue_prev [simp]: "containerLabelValue (c\<lparr>ccPrev := p\<rparr>) ctr = containerLabelValue c ctr"
  by (simp add: containerLabelValue_def)

lemma replica_rounds:
  assumes "dcID a \<noteq> []" "dcID b \<noteq> []" and "containerLabelValue c a = target" "containerLabelValue c b = target"
    and "target \<noteq> []" and "getRestartCount ia = (x, True)" "getRestartCount ib = (y, True)"
    and "labelKey c = ''service''"
  shows "\<exists>rounds. length rounds = length orders \<and>
    set rounds \<subseteq> {[restart_total target x, restart_total target y], [restart_total target y, restart_total target x]} \<and>
    total_events ''docker.container.restart_count''
      (docker_rounds orders [a, b] [(a, Some sa, ia), (b, Some sb, ib)] c) = concat rounds"
  using assms(3,4,8)
proof (induction orders arbitrary: c)
  case (Cons order orders)
  let ?m = "''docker.container.restart_count''"
  let ?A = "collectContainer c a (Some sa) ia (ccPrev c)"
  let ?B = "collectContainer c b (Some sb) ib (snd ?A)"
  let ?run = "collect_docker (Some [a, b]) [(a, Some sa, ia), (b, Some sb, ib)] order c"
  obtain p where step: "?run = (interleave order [fst ?A, fst ?B], c\<lparr>ccPrev := p\<rparr>)"
    by (simp add: collect_docker_def Let_def case_prod_beta)
  obtain order' where "total_events ?m (interleave order [fst ?A, fst ?B]) =
      interleave order' (map (total_events ?m) [fst ?A, fst ?B])"
    using total_events_interleave by blast
  also have "\<dots> = interleave order' [[restart_total target x], [restart_total target y]]"
    using Cons.prems assms(1,2,5-7) by (simp add: restart_event)
  finally have one: "total_events ?m (interleave order [fst ?A, fst ?B]) \<in>
      {[restart_total target x, restart_total target y], [restart_total target y, restart_total target x]}"
    using interleave_two by metis
  from Cons.IH [of "c\<lparr>ccPrev := p\<rparr>"] Cons.prems obtain rounds where
    "length rounds = length orders"
    "set rounds \<subseteq> {[restart_total target x, restart_total target y], [restart_total target y, restart_total target x]}"
    "total_events ?m (docker_rounds orders [a, b] [(a, Some sa, ia), (b, Some sb, ib)] (c\<lparr>ccPrev := p\<rparr>)) = concat rounds"
    by auto
  then show ?case
    using one step
    by (intro exI [where x = "total_events ?m (interleave order [fst ?A, fst ?B]) # rounds"]) (simp add: total_events_append)
qed (simp add: total_events_def)

text \<open>
  Rounds that each hold \<open>x\<close> and \<open>y > x\<close>, in any order: all increases are \<open>y - x\<close>, at most one per round
  and at least one in every two rounds.
\<close>

lemma increases_rounds:
  assumes "x < y" and "set rounds \<subseteq> {[x, y], [y, x]}"
  shows "(\<exists>n \<le> length rounds. (length rounds + 1) div 2 \<le> n \<and> increases (Some x) (concat rounds) = replicate n (y - x)) \<and>
    (\<forall>p \<in> {None, Some y}. \<exists>n \<le> length rounds. length rounds div 2 \<le> n \<and> increases p (concat rounds) = replicate n (y - x))"
  using assms(2)
proof (induction rounds)
  case (Cons r rounds)
  from Cons obtain n m where
    n: "n \<le> length rounds" "(length rounds + 1) div 2 \<le> n" "increases (Some x) (concat rounds) = replicate n (y - x)" and
    m: "m \<le> length rounds" "length rounds div 2 \<le> m" "increases (Some y) (concat rounds) = replicate m (y - x)"
    by auto
  have more: "replicate (Suc k) (y - x) = (y - x) # replicate k (y - x)" for k by simp
  from Cons.prems consider "r = [x, y]" | "r = [y, x]" by auto
  then show ?case
  proof cases
    case 1
    then have "increases (Some x) (concat (r # rounds)) = replicate (Suc m) (y - x)"
      "\<forall>p \<in> {None, Some y}. increases p (concat (r # rounds)) = replicate (Suc m) (y - x)"
      using assms(1) m(3) by (auto simp: increases_Cons)
    then show ?thesis using m(1,2) by (auto intro!: exI [where x = "Suc m"])
  next
    case 2
    then have "increases (Some x) (concat (r # rounds)) = replicate (Suc n) (y - x)"
      "\<forall>p \<in> {None, Some y}. increases p (concat (r # rounds)) = replicate n (y - x)"
      using assms(1) n(3) by (auto simp: increases_Cons)
    moreover have "(length (r # rounds) + 1) div 2 \<le> Suc n" "length (r # rounds) div 2 \<le> n" using n(2) by simp_all
    ultimately show ?thesis using n(1)
      by (intro conjI ballI exI [where x = "Suc n"] exI [where x = n]) (auto simp del: replicate_Suc)
  qed
qed simp

lemma restart_total_simps:
  "evalue (restart_total target n) = f64_of_int (uint n)"
  "ename (restart_total target n) = ''docker.container.restart_count''"
  "elabels (restart_total target n) = trim_labels [Label ''service'' target]"
  by (simp_all add: restart_total_def borrowEvent_def f64_u64_nat)

lemma restart_total_nul_free:
  assumes "CHR 0x00 \<notin> set target"
  shows "nul_free (ename (restart_total target n)) (elabels (restart_total target n))"
proof -
  have "CHR 0x00 \<notin> set (Label ''service'' target)"
    using assms by (auto simp: Label_def labelReplacer_def replace_char_def)
  then have "CHR 0x00 \<notin> set (trim_space (Label ''service'' target))" using set_trim_space by blast
  then show ?thesis by (simp add: nul_free_def restart_total_simps Let_def)
qed

text \<open>
  C37 (safety). Containers of one service share their totals: with the label mode of the agent, two
  replicas of a service have the same series, so their counters are taken for one counter. Two idle
  replicas that restarted \<open>x\<close> and \<open>y > x\<close> times in the past make the worker report \<open>y - x\<close> new
  restarts again and again, for ever: whatever the order in which the workers make the calls of each
  collection, \<open>n\<close> collections report them at least \<open>n div 2\<close> and at most \<open>n\<close> times.
\<close>

theorem replicas_report_phantom_restarts:
  assumes "dcID a \<noteq> []" "dcID b \<noteq> []" and "containerLabelValue c a = target" "containerLabelValue c b = target"
    and "target \<noteq> []" "CHR 0x00 \<notin> set target" and "getRestartCount ia = (x, True)" "getRestartCount ib = (y, True)"
    and "labelKey c = ''service''" and "x < y" and "uint y < 2 ^ 52"
  shows "\<exists>n. length orders div 2 \<le> n \<and> n \<le> length orders \<and>
    map evalue (total_run defaultMaxTotalSeries []
      (total_events ''docker.container.restart_count''
        (docker_rounds orders [a, b] [(a, Some sa, ia), (b, Some sb, ib)] c))) =
    replicate n (f64_of_int (uint y - uint x))"
proof -
  let ?X = "restart_total target x" and ?Y = "restart_total target y"
  obtain rounds where rounds: "length rounds = length orders" "set rounds \<subseteq> {[?X, ?Y], [?Y, ?X]}"
    and es: "total_events ''docker.container.restart_count''
        (docker_rounds orders [a, b] [(a, Some sa, ia), (b, Some sb, ib)] c) = concat rounds"
    using replica_rounds [OF assms(1-5,7-9), of orders sa sb] by blast
  let ?v = "\<lambda>e. if e = ?X then uint x else uint y" and ?s = "series_of ?X"
  have xy: "uint x < uint y" using assms(10) by (simp add: word_less_def)
  have ne: "?X \<noteq> ?Y"
  proof
    assume "?X = ?Y"
    then have "f64_of_int (uint x) = f64_of_int (uint y)" by (metis restart_total_simps(1))
    then show False
      using f64_int_less(1) [of "uint x" "uint y"] f64_int_less(1) [of "uint x" "uint x"] xy assms(11) by simp
  qed
  have mem: "e \<in> {?X, ?Y}" if "e \<in> set (concat rounds)" for e
    using that rounds(2) by (auto split: if_split_asm)
  have ok: "\<forall>e \<in> set (concat rounds). total_ok ?v e"
  proof
    fix e assume "e \<in> set (concat rounds)"
    from mem [OF this] show "total_ok ?v e"
      using xy assms(11) ne restart_total_nul_free [OF assms(6)]
      by (auto simp: total_ok_def restart_total_simps(1))
  qed
  have all: "series_of e = ?s" if "e \<in> set (concat rounds)" for e
    using mem [OF that] by (auto simp: series_of_def restart_total_simps)
  have one: "\<forall>e \<in> set (total_run defaultMaxTotalSeries [] (concat rounds)). series_of e = ?s"
    using total_run_series [of defaultMaxTotalSeries "[]" "concat rounds"] all by fastforce
  have "series_of ` set (concat rounds) \<subseteq> {?s}" using all by blast
  then have "card (series_of ` set (concat rounds)) \<le> card {?s}" by (intro card_mono) simp_all
  then have "map evalue (filter (\<lambda>e. series_of e = ?s) (total_run defaultMaxTotalSeries [] (concat rounds))) =
      map f64_of_int (increases None (map ?v (filter (\<lambda>e. series_of e = ?s) (concat rounds))))"
    using total_run_int [of "[]" Map.empty "concat rounds" ?v defaultMaxTotalSeries ?s] ok
    by (simp add: totals_hold_def defaultMaxTotalSeries_def)
  moreover have "filter (\<lambda>e. series_of e = ?s) (total_run defaultMaxTotalSeries [] (concat rounds)) =
      total_run defaultMaxTotalSeries [] (concat rounds)" "filter (\<lambda>e. series_of e = ?s) (concat rounds) = concat rounds"
    using one all by (auto intro!: filter_True)
  ultimately have run: "map evalue (total_run defaultMaxTotalSeries [] (concat rounds)) =
      map f64_of_int (increases None (concat (map (map ?v) rounds)))" by (simp add: map_concat)
  have "set (map (map ?v) rounds) \<subseteq> {[uint x, uint y], [uint y, uint x]}" using rounds(2) ne by auto
  from increases_rounds [OF xy this] rounds(1) obtain n where
    "n \<le> length orders" "length orders div 2 \<le> n"
    "increases None (concat (map (map ?v) rounds)) = replicate n (uint y - uint x)" by auto
  then show ?thesis unfolding es run by (intro exI [where x = n]) simp
qed

definition agent_docker :: cpuCollector where
  "agent_docker = \<lparr>labelMode = DockerLabelService, labelKey = ''service'', maxContainers = 200, ccConcurrency = 8,
     ccTimeout = 5 * second, ccEvery = 10 * second, ccPrev = Map.empty\<rparr>"

definition web_container :: "string \<Rightarrow> dockerContainerSummary" where
  "web_container cid = \<lparr>dcID = cid, dcNames = [''/web'' @ cid], dcLabels = [(''com.docker.compose.service'', ''web'')]\<rparr>"

definition idle_stats :: "u64 \<Rightarrow> u64 \<Rightarrow> dockerStats" where
  "idle_stats tot system =
     \<lparr>cpuStats = \<lparr>cpuUsage = \<lparr>totalUsage = tot, percpuUsage = []\<rparr>, systemCPUUsage = system, onlineCPUs = 0\<rparr>,
      memoryUsage = 0, networks = []\<rparr>"

definition restarted :: "u64 \<Rightarrow> dockerContainerInfo option" where
  "restarted n = Some \<lparr>infoRestartCount = n, stateRestartCount = 0\<rparr>"

text \<open>It is the collector of the program.\<close>

lemma new_docker_collector: "new_docker = Some agent_docker"
proof -
  have "word_text ''service''" "word_text defaultSockPath" by (simp_all add: defaultSockPath_def plain_char_def word_text_def)
  then have "trim_space ''service'' = ''service''" "trim_space defaultSockPath = defaultSockPath"
    by (simp_all only: trim_space_word)
  then show ?thesis
    by (simp add: new_docker_def newCPUCollector_def parseDockerLabelMode_def agent_docker_def defaultSockPath_def DockerEvery_def
        second_def to_lower_def lower_char_def)
qed

lemma web_label: "containerLabelValue agent_docker (web_container cid) = ''web''"
  by (simp add: containerLabelValue_def agent_docker_def web_container_def map_get_def trim_space_plain plain_char_def)

definition demo_orders :: "nat list list" where
  "demo_orders = [[], [1, 1, 0], [0, 1], [1]]"

theorem replicas_report_phantom_restarts_witness:
  "\<exists>n. 2 \<le> n \<and> n \<le> 4 \<and> map evalue (total_run defaultMaxTotalSeries []
      (total_events ''docker.container.restart_count''
        (docker_rounds demo_orders [web_container ''a'', web_container ''b'']
          [(web_container ''a'', Some (idle_stats 5 9), restarted 1), (web_container ''b'', Some (idle_stats 6 9), restarted 4)]
          agent_docker))) =
    replicate n (f64_of_int 3)"
proof -
  have "\<exists>n. length demo_orders div 2 \<le> n \<and> n \<le> length demo_orders \<and>
    map evalue (total_run defaultMaxTotalSeries []
      (total_events ''docker.container.restart_count''
        (docker_rounds demo_orders [web_container ''a'', web_container ''b'']
          [(web_container ''a'', Some (idle_stats 5 9), restarted 1), (web_container ''b'', Some (idle_stats 6 9), restarted 4)]
          agent_docker))) = replicate n (f64_of_int (uint (4 :: u64) - uint (1 :: u64)))"
    by (rule replicas_report_phantom_restarts [OF _ _ web_label web_label])
      (simp_all add: web_container_def restarted_def getRestartCount_def agent_docker_def)
  moreover have "length demo_orders = 4" by (simp add: demo_orders_def)
  ultimately show ?thesis by simp
qed

theorem docker_cpu_needs_progress_witness:
  "\<exists>prev pct.
    Some \<lparr>prevTotal = 50, prevSystem = 100\<rparr> = Some prev \<and> prevTotal prev < 100 \<and> prevSystem prev < 200 \<and>
    Value ''docker.container.cpu.usage_pct'' (container_cpu_pct 50 100 1) [Label ''service'' ''web''] =
      Value ''docker.container.cpu.usage_pct'' pct [Label ''service'' ''web''] \<and>
    \<not> pct < 0 \<and> \<not> is_nan pct \<and>
    snd (collectContainer agent_docker (web_container ''a'') (Some (idle_stats 100 200)) None
      [''a'' \<mapsto> \<lparr>prevTotal = 50, prevSystem = 100\<rparr>]) ''a'' = Some \<lparr>prevTotal = 100, prevSystem = 200\<rparr>"
proof -
  have "container_cpu_pct 50 100 1 = f64_of_int 50"
    using f64_int_mult [of 100 50] f64_int_div [of 5000 100] f64_int_mult [of 50 1]
    by (simp add: container_cpu_pct_def f64_u64_nat)
  moreover have "\<not> f64_of_int 50 < 0" using f64_int_less(1) [of 50 0] by (simp add: f64_zero_int)
  ultimately have pct: "\<not> container_cpu_pct 50 100 1 < 0 \<and> \<not> is_nan (container_cpu_pct 50 100 1)"
    using f64_nonneg_Fin [of 50] by (simp add: is_nan_def) (metis f64.distinct(3))
  have "Value ''docker.container.cpu.usage_pct'' (container_cpu_pct 50 100 1) [Label ''service'' ''web'']
    \<in> set (fst (collectContainer agent_docker (web_container ''a'') (Some (idle_stats 100 200)) None
      [''a'' \<mapsto> \<lparr>prevTotal = 50, prevSystem = 100\<rparr>]))"
    using pct
    by (simp add: collectContainer_def web_label Let_def case_prod_beta)
      (simp add: web_container_def agent_docker_def idle_stats_def container_cpu_calls_def diffUint_def online_cpus_def Let_def)
  from docker_cpu_needs_progress [OF this]
  show ?thesis by (simp add: is_cpu_call_def web_label) (simp add: web_container_def agent_docker_def idle_stats_def)
qed

end
