(* ===== verification/DockerRequests.thy ===== *)
theory DockerRequests
  imports Docker
begin

section \<open>The requests of the Docker collector (internal/collectors/docker/cpu.go)\<close>

text \<open>
  The collector talks to the daemon with GET requests over a Unix socket. A daemon is a function from
  the requested URL to a status code and a body, \<open>None\<close> for a request that failed; the JSON decoders of
  the three answers are parameters. \<open>url.PathEscape\<close> puts the ID of a container into a path; the
  lemmas show that it names that container and nothing else, whatever the ID holds.
\<close>

record docker_daemon =
  respond :: "string \<Rightarrow> (int \<times> string) option"
  json_containers :: "string \<Rightarrow> dockerContainerSummary list option"
  json_stats :: "string \<Rightarrow> dockerStats option"
  json_info :: "string \<Rightarrow> dockerContainerInfo option"

definition baseURL :: string where "baseURL = ''http://docker''"

subsection \<open>Escaped path segments\<close>

definition path_plain :: "char \<Rightarrow> bool" where
  "path_plain c =
     (let n = of_char c :: nat in
      48 \<le> n \<and> n \<le> 57 \<or> 65 \<le> n \<and> n \<le> 90 \<or> 97 \<le> n \<and> n \<le> 122 \<or> c \<in> set ''-_.~$&+=:@'')"

definition upper_hex :: "nat \<Rightarrow> char" where
  "upper_hex n = ''0123456789ABCDEF'' ! n"

definition path_char :: "char \<Rightarrow> string" where
  "path_char c =
     (if path_plain c then [c] else [CHR ''%'', upper_hex (of_char c div 16), upper_hex (of_char c mod 16)])"

definition PathEscape :: "string \<Rightarrow> string" where
  "PathEscape s = concat (map path_char s)"

definition containers_path :: "int \<Rightarrow> string" where
  "containers_path limit = ''/containers/json?all=0&limit='' @ fmt_int limit @ ''&size=0''"

definition stats_path :: "string \<Rightarrow> string" where
  "stats_path cid = ''/containers/'' @ PathEscape cid @ ''/stats?stream=false''"

definition info_path :: "string \<Rightarrow> string" where
  "info_path cid = ''/containers/'' @ PathEscape cid @ ''/json?size=0''"

subsection \<open>Requests and a collection\<close>

definition get_json :: "docker_daemon \<Rightarrow> (string \<Rightarrow> 'a option) \<Rightarrow> string \<Rightarrow> 'a option" where
  "get_json d decode path =
     (case respond d (baseURL @ path) of
        None \<Rightarrow> None
      | Some (statusCode, body) \<Rightarrow> doJSON statusCode (decode (take (8 * 2 ^ 20) body)))"

definition listContainers :: "docker_daemon \<Rightarrow> int \<Rightarrow> dockerContainerSummary list option" where
  "listContainers d limit = get_json d (json_containers d) (containers_path limit)"

definition getStats :: "docker_daemon \<Rightarrow> string \<Rightarrow> dockerStats option" where
  "getStats d cid = get_json d (json_stats d) (stats_path cid)"

definition container_info :: "docker_daemon \<Rightarrow> string \<Rightarrow> dockerContainerInfo option" where
  "container_info d cid = get_json d (json_info d) (info_path cid)"

text \<open>
  A collection: \<open>d\<close> answers the list request; \<open>reached\<close> are the containers the workers got to, each with
  the daemon as it was then.
\<close>

definition sample_container :: "dockerContainerSummary \<times> docker_daemon \<Rightarrow> sample" where
  "sample_container = (\<lambda>(ctr, d). (ctr, getStats d (dcID ctr), container_info d (dcID ctr)))"

definition collect_daemon ::
  "docker_daemon \<Rightarrow> (dockerContainerSummary \<times> docker_daemon) list \<Rightarrow> nat list \<Rightarrow> cpuCollector \<Rightarrow> call list \<times> cpuCollector" where
  "collect_daemon d reached order c =
     collect_docker (listContainers d (maxContainers c)) (map sample_container reached) order c"

subsection \<open>An ID is one path segment\<close>

text \<open>The reading of a segment that every server does (RFC 3986).\<close>

definition hex_value :: "char \<Rightarrow> nat" where
  "hex_value c = (let n = of_char c in if n \<le> 57 then n - 48 else n - 55)"

fun percent_decode :: "string \<Rightarrow> string" where
  "percent_decode [] = []"
| "percent_decode (c # cs) =
     (if c = CHR ''%''
      then (case cs of
              a # b # rest \<Rightarrow> char_of (16 * hex_value a + hex_value b) # percent_decode rest
            | _ \<Rightarrow> [])
      else c # percent_decode cs)"

lemma upper_hex_digit:
  assumes "n < 16"
  shows "hex_value (upper_hex n) = n" and "upper_hex n \<notin> {CHR ''/'', CHR ''?'', CHR ''#''}"
proof -
  have "\<forall>n \<in> set [0..<16]. hex_value (upper_hex n) = n \<and> upper_hex n \<notin> {CHR ''/'', CHR ''?'', CHR ''#''}" by code_simp
  then show "hex_value (upper_hex n) = n" "upper_hex n \<notin> {CHR ''/'', CHR ''?'', CHR ''#''}" using assms by simp_all
qed

lemma char_nibbles:
  "(of_char c :: nat) div 16 < 16" "(of_char c :: nat) mod 16 < 16"
  "char_of (16 * ((of_char c :: nat) div 16) + of_char c mod 16) = c"
  by (simp_all add: less_mult_imp_div_less mult_div_mod_eq)

lemma path_char_decode: "percent_decode (path_char c @ rest) = c # percent_decode rest"
proof (cases "path_plain c")
  case True
  then have "c \<noteq> CHR ''%''" by (auto simp: path_plain_def Let_def of_char_def)
  then show ?thesis using True by (simp add: path_char_def)
next
  case False
  then have "percent_decode (path_char c @ rest) =
      char_of (16 * ((of_char c :: nat) div 16) + of_char c mod 16) # percent_decode rest"
    by (simp add: path_char_def upper_hex_digit(1) char_nibbles(1,2) del: mod_mult_div_eq mult_div_mod_eq)
  then show ?thesis by (simp only: char_nibbles(3))
qed

lemma path_char_segment: "set (path_char c) \<inter> {CHR ''/'', CHR ''?'', CHR ''#''} = {}"
proof (cases "path_plain c")
  case True
  then have "c \<notin> {CHR ''/'', CHR ''?'', CHR ''#''}" by (auto simp: path_plain_def Let_def of_char_def)
  then show ?thesis using True by (simp add: path_char_def)
next
  case False
  then show ?thesis
    using upper_hex_digit(2) [OF char_nibbles(1), of c] upper_hex_digit(2) [OF char_nibbles(2), of c]
    by (auto simp: path_char_def)
qed

lemma percent_decode_PathEscape [simp]: "percent_decode (PathEscape s) = s"
  by (induction s) (simp_all add: PathEscape_def path_char_decode)

lemma PathEscape_segment: "set (PathEscape s) \<inter> {CHR ''/'', CHR ''?'', CHR ''#''} = {}"
  by (induction s) (use path_char_segment in \<open>simp_all add: PathEscape_def Int_Un_distrib2\<close>)

lemma PathEscape_inj: "PathEscape s = PathEscape t \<longleftrightarrow> s = t"
  by (metis percent_decode_PathEscape)

text \<open>
  Reading the path of a statistics request: the segment between the second and the third slash is the
  escaped ID, so two containers never share a request and an ID cannot reach another resource.
\<close>

definition second_segment :: "string \<Rightarrow> string" where
  "second_segment path = takeWhile (\<lambda>c. c \<noteq> CHR ''/'') (drop (length ''/containers/'') path)"

lemma second_segment_of: "second_segment (''/containers/'' @ PathEscape cid @ CHR ''/'' # rest) = PathEscape cid"
proof -
  have "\<forall>c \<in> set (PathEscape cid). c \<noteq> CHR ''/''" using PathEscape_segment [of cid] by auto
  then show ?thesis by (simp add: second_segment_def takeWhile_append2)
qed

lemma container_paths:
  shows "percent_decode (second_segment (stats_path cid)) = cid"
    and "percent_decode (second_segment (info_path cid)) = cid"
    and "stats_path cid = stats_path cid' \<longleftrightarrow> cid = cid'" and "stats_path cid \<noteq> info_path cid'"
proof -
  have st: "second_segment (stats_path i) = PathEscape i" for i
    using second_segment_of [of i "''stats?stream=false''"] by (simp add: stats_path_def)
  have inf: "second_segment (info_path i) = PathEscape i" for i
    using second_segment_of [of i "''json?size=0''"] by (simp add: info_path_def)
  show "percent_decode (second_segment (stats_path cid)) = cid" "percent_decode (second_segment (info_path cid)) = cid"
    by (simp_all add: st inf)
  show "stats_path cid = stats_path cid' \<longleftrightarrow> cid = cid'" by (metis st percent_decode_PathEscape)
  show "stats_path cid \<noteq> info_path cid'"
  proof
    assume e: "stats_path cid = info_path cid'"
    then have "cid = cid'" by (metis st inf percent_decode_PathEscape)
    with e show False by (simp add: stats_path_def info_path_def)
  qed
qed

text \<open>
  A collection over the daemon is a collection over its answers: what the collector remembers after it
  are containers of the list, and a list request that fails changes nothing.
\<close>

lemma collect_daemon_prev:
  "ccPrev (snd (collect_daemon d reached order c)) =
     (case listContainers d (maxContainers c) of
        None \<Rightarrow> ccPrev c
      | Some containers \<Rightarrow> snd (collect_samples c (map sample_container reached) (ccPrev c)) |` (dcID ` set containers))"
  by (simp add: collect_daemon_def collect_docker_def case_prod_beta split: option.split)

lemma refused_list:
  assumes "respond d (baseURL @ containers_path (maxContainers c)) = Some (status, body)" and "status < 200 \<or> status \<ge> 300"
  shows "collect_daemon d reached order c = ([], c)"
  using assms by (auto simp: collect_daemon_def collect_docker_def listContainers_def get_json_def doJSON_def)

end
