(* ===== verification/Nginx.thy ===== *)
theory Nginx
  imports Client GoFields FloatOps
begin

section \<open>The nginx collector (internal/collectors/nginx)\<close>

text \<open>
  The collector fetches the \<open>stub_status\<close> page, reads its seven numbers and calls the client. The
  HTTP request is a parameter: \<open>http_get\<close> gives for an endpoint an error, or the status and the
  body (\<open>None\<close> if reading it failed). URLs are those of the configuration, \<open>url_host\<close> gives the host.
\<close>

definition DefaultEndpoint :: string where "DefaultEndpoint = ''http://127.0.0.1/stub_status''"
definition maxBodyBytes :: nat where "maxBodyBytes = 4096"

record stubStatus =
  Active :: int
  Accepts :: int
  Handled :: int
  Requests :: int
  Reading :: int
  Writing :: int
  Waiting :: int

definition no_status :: stubStatus where
  "no_status = \<lparr>Active = 0, Accepts = 0, Handled = 0, Requests = 0, Reading = 0, Writing = 0, Waiting = 0\<rparr>"

definition NormalizeEndpoint :: "(string \<Rightarrow> url option) \<Rightarrow> (url \<Rightarrow> string) \<Rightarrow> string \<Rightarrow> string" where
  "NormalizeEndpoint url_parse url_string endpoint =
     (let ep = trim_space endpoint in
      if ep = [] then DefaultEndpoint
      else
        let ep = (if \<not> str_contains ep ''://'' then ''http://'' @ ep else ep) in
        case url_parse ep of
          None \<Rightarrow> ep
        | Some u \<Rightarrow>
            url_string (if uPath u = [] \<or> uPath u = ''/'' then u\<lparr>uPath := ''/stub_status''\<rparr> else u))"

definition ValidateEndpoint :: "(string \<Rightarrow> url option) \<Rightarrow> (url \<Rightarrow> string) \<Rightarrow> string \<Rightarrow> bool" where
  "ValidateEndpoint url_parse url_host endpoint =
     (case url_parse endpoint of
        None \<Rightarrow> False
      | Some u \<Rightarrow> (if trim_space (url_host u) = [] then False else True))"

definition parseInt :: "string \<Rightarrow> int \<times> bool" where
  "parseInt val0 =
     (let val = trim_space val0 in
      if val = [] then (0, False)
      else case parse_int val of
        (_, Some _) \<Rightarrow> (0, False)
      | (parsed, None) \<Rightarrow> (parsed, True))"

fun parseKey :: "string list \<Rightarrow> string \<Rightarrow> int \<times> bool" where
  "parseKey [] key = (0, False)"
| "parseKey (f # rest) key =
     (if f = key @ '':'' then (case rest of [] \<Rightarrow> (0, False) | v # _ \<Rightarrow> parseInt v)
      else if has_prefix f (key @ '':'') then parseInt (trim_prefix f (key @ '':''))
      else parseKey rest key)"

record stubParse =
  spOut :: stubStatus
  haveActive :: bool
  haveTotals :: bool
  haveStates :: bool

definition parse_states :: "string list \<Rightarrow> stubParse \<Rightarrow> stubParse" where
  "parse_states fs p =
     (let (reading, okR) = parseKey fs ''Reading'';
          (writing, okW) = parseKey fs ''Writing'';
          (waiting, okWa) = parseKey fs ''Waiting'' in
      if okR \<or> okW \<or> okWa
      then
        let out = spOut p;
            out = (if okR then out\<lparr>Reading := reading\<rparr> else out);
            out = (if okW then out\<lparr>Writing := writing\<rparr> else out);
            out = (if okWa then out\<lparr>Waiting := waiting\<rparr> else out) in
        p\<lparr>spOut := out, haveStates := haveStates p \<or> (okR \<and> okW \<and> okWa)\<rparr>
      else p)"

definition parse_status_line :: "stubParse \<Rightarrow> string \<Rightarrow> stubParse" where
  "parse_status_line p line0 =
     (let line = trim_space line0 in
      if line = [] then p
      else
        let fs = GoStrings.fields line in
        if length fs \<ge> 3 \<and> equal_fold (fs ! 0) ''Active'' \<and> has_prefix (to_lower (fs ! 1)) ''connections''
        then (case parseInt (fs ! (length fs - 1)) of
                (v, ok) \<Rightarrow> if ok then p\<lparr>spOut := (spOut p)\<lparr>Active := v\<rparr>, haveActive := True\<rparr> else p)
        else if length fs \<ge> 3 \<and> snd (parseInt (fs ! 0)) \<and> snd (parseInt (fs ! 1)) \<and> snd (parseInt (fs ! 2))
        then p\<lparr>spOut := (spOut p)\<lparr>Accepts := fst (parseInt (fs ! 0)), Handled := fst (parseInt (fs ! 1)),
                 Requests := fst (parseInt (fs ! 2))\<rparr>, haveTotals := True\<rparr>
        else parse_states fs p)"

text \<open>An error carries the three flags of its message.\<close>

definition parseStubStatus :: "string \<Rightarrow> bool \<times> bool \<times> bool + stubStatus" where
  "parseStubStatus raw =
     (let p = foldl parse_status_line
                \<lparr>spOut = no_status, haveActive = False, haveTotals = False, haveStates = False\<rparr>
                (split_on (CHR 0x0A) raw) in
      if \<not> haveActive p \<or> \<not> haveTotals p \<or> \<not> haveStates p
      then Inl (haveActive p, haveTotals p, haveStates p)
      else Inr (spOut p))"

datatype nginx_error =
    RequestFailed
  | UnexpectedStatus int
  | ReadBody
  | IncompleteStatus bool bool bool

definition fetchStubStatus :: "(string \<Rightarrow> (int \<times> string option) option) \<Rightarrow> string \<Rightarrow> nginx_error + stubStatus" where
  "fetchStubStatus http_get endpoint0 =
     (let endpoint = (if trim_space endpoint0 = [] then DefaultEndpoint else endpoint0) in
      case http_get endpoint of
        None \<Rightarrow> Inl RequestFailed
      | Some (statusCode, body) \<Rightarrow>
          (if statusCode < 200 \<or> statusCode \<ge> 300 then Inl (UnexpectedStatus statusCode)
           else case body of
             None \<Rightarrow> Inl ReadBody
           | Some b \<Rightarrow>
               (case parseStubStatus (take maxBodyBytes b) of
                  Inl (a, t, s) \<Rightarrow> Inl (IncompleteStatus a t s)
                | Inr status \<Rightarrow> Inr status)))"

definition emit_conn :: "string \<Rightarrow> int \<Rightarrow> call list" where
  "emit_conn state v = (if v < 0 then [] else [Value ''nginx.connections'' (f64_of_int v) [Label ''state'' state]])"

definition emit_total :: "string \<Rightarrow> int \<Rightarrow> call list" where
  "emit_total typ v = (if v < 0 then [] else [Total ''nginx.totals'' (f64_of_int v) [Label ''type'' typ]])"

definition collect_nginx :: "(string \<Rightarrow> (int \<times> string option) option) \<Rightarrow> string \<Rightarrow> nginx_error + call list" where
  "collect_nginx http_get endpoint =
     (case fetchStubStatus http_get endpoint of
        Inl e \<Rightarrow> Inl e
      | Inr s \<Rightarrow>
          Inr (emit_conn ''active'' (Active s) @ emit_conn ''reading'' (Reading s) @
               emit_conn ''writing'' (Writing s) @ emit_conn ''waiting'' (Waiting s) @
               emit_total ''accepts'' (Accepts s) @ emit_total ''handled'' (Handled s) @
               emit_total ''requests'' (Requests s)))"

definition autoProbePorts :: "nat list" where "autoProbePorts = [80, 8080, 8081, 8888]"
definition autoProbePaths :: "string list" where "autoProbePaths = [''/stub_status'', ''/nginx_status'']"

text \<open>
  The two loops over ports and paths; \<open>alive n\<close> says whether the context was still valid after the
  \<open>n\<close>-th attempt. The result is the endpoint found, or the error of the last attempt.
\<close>

fun probe_loop ::
  "(string \<Rightarrow> (int \<times> string option) option) \<Rightarrow> (nat \<Rightarrow> bool) \<Rightarrow> nat \<Rightarrow> nginx_error option \<Rightarrow> string list \<Rightarrow>
     nginx_error option + string" where
  "probe_loop http_get alive n lastErr [] = Inl lastErr"
| "probe_loop http_get alive n lastErr (endpoint # rest) =
     (case fetchStubStatus http_get endpoint of
        Inr _ \<Rightarrow> Inr endpoint
      | Inl e \<Rightarrow> (if \<not> alive n then Inl (Some e) else probe_loop http_get alive (n + 1) (Some e) rest))"

definition probe_endpoints :: "string list" where
  "probe_endpoints =
     concat (map (\<lambda>port. map (\<lambda>path. ''http://127.0.0.1:'' @ fmt_nat 10 port @ path) autoProbePaths) autoProbePorts)"

definition autoProbeEndpoint ::
  "(string \<Rightarrow> (int \<times> string option) option) \<Rightarrow> (nat \<Rightarrow> bool) \<Rightarrow> nginx_error option + string" where
  "autoProbeEndpoint http_get alive = probe_loop http_get alive 0 None probe_endpoints"

text \<open>\<open>Detect\<close>: the endpoint the probe has afterwards, if there is one.\<close>

definition detect_nginx ::
  "(string \<Rightarrow> (int \<times> string option) option) \<Rightarrow> (nat \<Rightarrow> bool) \<Rightarrow> string \<Rightarrow> string option" where
  "detect_nginx http_get alive endpoint0 =
     (let endpoint = trim_space endpoint0 in
      if endpoint = []
      then (case autoProbeEndpoint http_get alive of Inl _ \<Rightarrow> None | Inr found \<Rightarrow> Some found)
      else (case fetchStubStatus http_get endpoint of Inl _ \<Rightarrow> None | Inr _ \<Rightarrow> Some endpoint0))"

subsection \<open>The page that nginx prints\<close>

text \<open>The collector, and what \<open>New\<close> of the probe makes of the endpoint that it detected.\<close>

record nginxCollector =
  ngEvery :: int
  ngEndpoint :: string

definition NewNginxCollector :: "(string \<Rightarrow> url option) \<Rightarrow> (url \<Rightarrow> string) \<Rightarrow> string \<Rightarrow> int \<Rightarrow> nginxCollector" where
  "NewNginxCollector url_parse url_string endpoint every =
     \<lparr>ngEvery = every, ngEndpoint = NormalizeEndpoint url_parse url_string endpoint\<rparr>"

lemma probe_loop_found:
  "probe_loop http_get alive n lastErr es = Inr e \<Longrightarrow> e \<in> set es \<and> (\<exists>s. fetchStubStatus http_get e = Inr s)"
  by (induction es arbitrary: n lastErr) (auto split: sum.splits if_splits)

text \<open>
  A detected endpoint is collected: when the normalisation leaves it as it is, a collection that gets
  the answer of the probe succeeds.
\<close>

lemma detected_is_collected:
  assumes "detect_nginx http_get alive endpoint0 = Some e"
    and "trim_space e = e" and "str_contains e ''://''"
    and "url_parse e = Some u" and "url_string u = e" and "uPath u \<noteq> []" and "uPath u \<noteq> ''/''"
  shows "\<exists>calls. collect_nginx http_get (ngEndpoint (NewNginxCollector url_parse url_string e every)) = Inr calls"
proof -
  have "\<exists>s. fetchStubStatus http_get e = Inr s"
    using assms(1,2)
    by (auto simp: detect_nginx_def Let_def autoProbeEndpoint_def dest: probe_loop_found split: if_splits sum.splits)
  moreover have "\<not> str_contains [] ''://''" by code_simp
  then have "e \<noteq> []" using assms(3) by auto
  then have "ngEndpoint (NewNginxCollector url_parse url_string e every) = e"
    using assms(2-7) by (simp add: NewNginxCollector_def NormalizeEndpoint_def Let_def)
  ultimately show ?thesis by (auto simp: collect_nginx_def)
qed

definition stub_page :: "nat \<Rightarrow> nat \<Rightarrow> nat \<Rightarrow> nat \<Rightarrow> nat \<Rightarrow> nat \<Rightarrow> nat \<Rightarrow> string" where
  "stub_page a acc h req r w k =
     ''Active connections: '' @ fmt_nat 10 a @ '' '' @ [CHR 0x0A] @
     ''server accepts handled requests'' @ [CHR 0x0A] @
     '' '' @ fmt_nat 10 acc @ '' '' @ fmt_nat 10 h @ '' '' @ fmt_nat 10 req @ '' '' @ [CHR 0x0A] @
     ''Reading: '' @ fmt_nat 10 r @ '' Writing: '' @ fmt_nat 10 w @ '' Waiting: '' @ fmt_nat 10 k @ '' '' @ [CHR 0x0A]"

lemma parseInt_fmt: "n < 2 ^ 63 \<Longrightarrow> parseInt (fmt_nat 10 n) = (int n, True)"
  using parse_int_fmt [of "int n"] trim_space_word [OF word_fmt_nat, of n]
  by (simp add: parseInt_def fmt_int_def int64_range_def)

lemma parseInt_not_number:
  assumes "word_text (c # s)" and "\<not> is_digit c" and "c \<noteq> CHR ''-''" and "c \<noteq> CHR ''+''"
  shows "parseInt (c # s) = (0, False)"
  using assms trim_space_word [OF assms(1)] by (simp add: parseInt_def parse_int_def parse_uint_def)

lemma equal_fold_length: "equal_fold s t \<Longrightarrow> length s = length t"
  unfolding equal_fold_def to_lower_def by (metis length_map)

lemma active_line:
  assumes "a < 2 ^ 63"
  shows "parse_status_line p (''Active connections: '' @ fmt_nat 10 a @ '' '') =
    p\<lparr>spOut := (spOut p)\<lparr>Active := int a\<rparr>, haveActive := True\<rparr>"
proof -
  have "word_text (''Active'')" and "\<forall>(k, t) \<in> set [(1, ''connections:''), (1, fmt_nat 10 a)]. 0 < (k :: nat) \<and> word_text t"
    by (simp_all add: plain_char_def)
  note c = line_columns [OF this]
  have "trim_space (''Active connections: '' @ fmt_nat 10 a @ '' '') =
      ''Active'' @ columns [(1, ''connections:''), (1, fmt_nat 10 a)]"
    using c(1) [of 0 1] by simp
  moreover have "to_lower ''connections:'' = ''connections:''" by (simp add: to_lower_def lower_char_def)
  ultimately show ?thesis
    using c(2,3) parseInt_fmt [OF assms] unfolding parse_status_line_def
    by (simp add: Let_def equal_fold_def has_prefix_def)
qed

lemma header_line: "parse_status_line p ''server accepts handled requests'' = p"
proof -
  have "word_text (''server'')" and "\<forall>(k, t) \<in> set [(1, ''accepts''), (1, ''handled''), (1, ''requests'')]. 0 < (k :: nat) \<and> word_text t"
    by (simp_all add: plain_char_def)
  note c = line_columns [OF this]
  have "trim_space ''server accepts handled requests'' =
      ''server'' @ columns [(1, ''accepts''), (1, ''handled''), (1, ''requests'')]"
    using c(1) [of 0 0] by simp
  moreover have "\<not> equal_fold ''server'' ''Active''"
    by (simp add: equal_fold_def to_lower_def lower_char_def)
  moreover have "parseInt ''server'' = (0, False)" by (rule parseInt_not_number) (simp_all add: is_digit_def plain_char_def)
  ultimately show ?thesis
    using c(2,3) unfolding parse_status_line_def parse_states_def
    by (simp add: Let_def has_prefix_def)
qed

lemma totals_line:
  assumes "acc < 2 ^ 63" "h < 2 ^ 63" "req < 2 ^ 63"
  shows "parse_status_line p ('' '' @ fmt_nat 10 acc @ '' '' @ fmt_nat 10 h @ '' '' @ fmt_nat 10 req @ '' '') =
    p\<lparr>spOut := (spOut p)\<lparr>Accepts := int acc, Handled := int h, Requests := int req\<rparr>, haveTotals := True\<rparr>"
proof -
  have "word_text (fmt_nat 10 acc)" and "\<forall>(k, t) \<in> set [(1, fmt_nat 10 h), (1, fmt_nat 10 req)]. 0 < (k :: nat) \<and> word_text t"
    by (simp_all add: plain_char_def)
  note c = line_columns [OF this]
  have "trim_space ('' '' @ fmt_nat 10 acc @ '' '' @ fmt_nat 10 h @ '' '' @ fmt_nat 10 req @ '' '') =
      fmt_nat 10 acc @ columns [(1, fmt_nat 10 h), (1, fmt_nat 10 req)]"
    using c(1) [of 1 1] by simp
  moreover have "\<not> (equal_fold (fmt_nat 10 acc) ''Active'' \<and> has_prefix (to_lower (fmt_nat 10 h)) ''connections'')"
  proof
    assume "equal_fold (fmt_nat 10 acc) ''Active'' \<and> has_prefix (to_lower (fmt_nat 10 h)) ''connections''"
    then have "CHR ''c'' \<in> set (to_lower (fmt_nat 10 h))" by (auto simp: has_prefix_def prefix_def)
    moreover have "lower_char d = d" if "is_digit d" for d
      using that by (simp add: is_digit_def lower_char_def)
    then have "to_lower (fmt_nat 10 h) = fmt_nat 10 h"
      using fmt_nat_digits [of h] by (simp add: to_lower_def subset_iff map_idI)
    ultimately show False using fmt_nat_no [of "CHR ''c''" h] by (simp add: is_digit_def)
  qed
  ultimately show ?thesis
    using c(2,3) parseInt_fmt assms unfolding parse_status_line_def
    by (auto simp: Let_def)
qed

lemma states_line:
  assumes "r < 2 ^ 63" "w < 2 ^ 63" "k < 2 ^ 63"
  shows "parse_status_line p (''Reading: '' @ fmt_nat 10 r @ '' Writing: '' @ fmt_nat 10 w @ '' Waiting: '' @ fmt_nat 10 k @ '' '') =
    p\<lparr>spOut := (spOut p)\<lparr>Reading := int r, Writing := int w, Waiting := int k\<rparr>, haveStates := True\<rparr>"
proof -
  have "word_text (''Reading:'')" and "\<forall>(k, t) \<in> set [(1, fmt_nat 10 r), (1, ''Writing:''), (1, fmt_nat 10 w), (1, ''Waiting:''), (1, fmt_nat 10 k)]. 0 < (k :: nat) \<and> word_text t"
    by (simp_all add: plain_char_def)
  note c = line_columns [OF this]
  have "trim_space (''Reading: '' @ fmt_nat 10 r @ '' Writing: '' @ fmt_nat 10 w @ '' Waiting: '' @ fmt_nat 10 k @ '' '') =
      ''Reading:'' @ columns [(1, fmt_nat 10 r), (1, ''Writing:''), (1, fmt_nat 10 w), (1, ''Waiting:''), (1, fmt_nat 10 k)]"
    using c(1) [of 0 1] by simp
  moreover have "\<not> equal_fold ''Reading:'' ''Active''" using equal_fold_length by fastforce
  moreover have "parseInt ''Reading:'' = (0, False)" by (rule parseInt_not_number) (simp_all add: is_digit_def plain_char_def)
  moreover have "\<not> has_prefix ''Reading:'' ''Writing:''" "\<not> has_prefix ''Reading:'' ''Waiting:''"
    "\<not> has_prefix ''Writing:'' ''Waiting:''" by (simp_all add: has_prefix_def)
  moreover have "\<not> is_digit (CHR ''R'')" "\<not> is_digit (CHR ''W'')" by (simp_all add: is_digit_def)
  ultimately show ?thesis
    using c(2,3) parseInt_fmt assms fmt_nat_not_key unfolding parse_status_line_def parse_states_def
    by (simp add: Let_def)
qed

lemma split_page: "CHR 0x0A \<notin> set l \<Longrightarrow> split_on (CHR 0x0A) (l @ [CHR 0x0A] @ rest) = l # split_on (CHR 0x0A) rest"
  by (simp add: split_on_append)

lemma stub_page_lines:
  "split_on (CHR 0x0A) (stub_page a acc h req r w k) =
     [''Active connections: '' @ fmt_nat 10 a @ '' '', ''server accepts handled requests'',
      '' '' @ fmt_nat 10 acc @ '' '' @ fmt_nat 10 h @ '' '' @ fmt_nat 10 req @ '' '',
      ''Reading: '' @ fmt_nat 10 r @ '' Writing: '' @ fmt_nat 10 w @ '' Waiting: '' @ fmt_nat 10 k @ '' '', []]"
proof -
  have nl: "CHR 0x0A \<notin> set (fmt_nat 10 n)" for n by (rule fmt_nat_no) (simp add: is_digit_def)
  have assoc: "stub_page a acc h req r w k =
      (''Active connections: '' @ fmt_nat 10 a @ '' '') @ [CHR 0x0A] @ ''server accepts handled requests'' @ [CHR 0x0A] @
      ('' '' @ fmt_nat 10 acc @ '' '' @ fmt_nat 10 h @ '' '' @ fmt_nat 10 req @ '' '') @ [CHR 0x0A] @
      (''Reading: '' @ fmt_nat 10 r @ '' Writing: '' @ fmt_nat 10 w @ '' Waiting: '' @ fmt_nat 10 k @ '' '') @ [CHR 0x0A] @ []"
    by (simp add: stub_page_def)
  show ?thesis
    unfolding assoc by (subst split_page, simp add: nl)+ (simp add: nl)
qed

lemma parse_stub_page:
  assumes "\<forall>n \<in> {a, acc, h, req, r, w, k}. n < 2 ^ 63"
  shows "parseStubStatus (stub_page a acc h req r w k) =
    Inr \<lparr>Active = int a, Accepts = int acc, Handled = int h, Requests = int req,
         Reading = int r, Writing = int w, Waiting = int k\<rparr>"
proof -
  have lt: "a < 2 ^ 63" "acc < 2 ^ 63" "h < 2 ^ 63" "req < 2 ^ 63" "r < 2 ^ 63" "w < 2 ^ 63" "k < 2 ^ 63"
    using assms by blast+
  have "parse_status_line p [] = p" for p by (simp add: parse_status_line_def)
  then show ?thesis
    unfolding parseStubStatus_def stub_page_lines
    using active_line [OF lt(1)] totals_line [OF lt(2-4)] states_line [OF lt(5-7)] header_line
    by (simp only: foldl.simps) (simp add: no_status_def)
qed

lemma stub_page_length:
  assumes "\<forall>n \<in> {a, acc, h, req, r, w, k}. n < 2 ^ 63"
  shows "length (stub_page a acc h req r w k) \<le> maxBodyBytes"
proof -
  have "length (fmt_nat 10 n) \<le> 19" if "n < 2 ^ 63" for n
    using that fmt_nat_length [of n 19] by simp
  then have "length (fmt_nat 10 a) \<le> 19" "length (fmt_nat 10 acc) \<le> 19" "length (fmt_nat 10 h) \<le> 19"
    "length (fmt_nat 10 req) \<le> 19" "length (fmt_nat 10 r) \<le> 19" "length (fmt_nat 10 w) \<le> 19" "length (fmt_nat 10 k) \<le> 19"
    using assms by blast+
  then show ?thesis by (simp add: stub_page_def maxBodyBytes_def)
qed

text \<open>
  C29 (roundtrip). The page that nginx prints for any seven counters below \<open>2 ^ 63\<close> is within the
  4096 bytes the collector reads, and it becomes exactly the seven samples of these counters: four
  connection values and three totals, each under its own label.
\<close>

theorem nginx_page_roundtrip:
  assumes "\<forall>n \<in> {a, acc, h, req, r, w, k}. n < 2 ^ 63" and "200 \<le> code" "code < 300"
    and "http_get endpoint = Some (code, Some (stub_page a acc h req r w k))" and "trim_space endpoint \<noteq> []"
  shows "collect_nginx http_get endpoint =
    Inr [Value ''nginx.connections'' (f64_of_int a) [''state=active''],
         Value ''nginx.connections'' (f64_of_int r) [''state=reading''],
         Value ''nginx.connections'' (f64_of_int w) [''state=writing''],
         Value ''nginx.connections'' (f64_of_int k) [''state=waiting''],
         Total ''nginx.totals'' (f64_of_int acc) [''type=accepts''],
         Total ''nginx.totals'' (f64_of_int h) [''type=handled''],
         Total ''nginx.totals'' (f64_of_int req) [''type=requests'']]"
  using assms(2-5) parse_stub_page [OF assms(1)] stub_page_length [OF assms(1)]
  by (simp add: collect_nginx_def fetchStubStatus_def Let_def emit_conn_def emit_total_def
      Label_def labelReplacer_def replace_char_def)

theorem nginx_page_roundtrip_witness:
  "collect_nginx (\<lambda>e. if e = ''http://h/s'' then Some (200, Some (stub_page 2 9 8 30 0 1 1)) else None) ''http://h/s'' =
    Inr [Value ''nginx.connections'' (f64_of_int (int 2)) [''state=active''],
         Value ''nginx.connections'' (f64_of_int (int 0)) [''state=reading''],
         Value ''nginx.connections'' (f64_of_int (int 1)) [''state=writing''],
         Value ''nginx.connections'' (f64_of_int (int 1)) [''state=waiting''],
         Total ''nginx.totals'' (f64_of_int (int 9)) [''type=accepts''],
         Total ''nginx.totals'' (f64_of_int (int 8)) [''type=handled''],
         Total ''nginx.totals'' (f64_of_int (int 30)) [''type=requests'']]"
  by (rule nginx_page_roundtrip) (simp_all add: trim_space_plain plain_char_def)

end
