(* ===== verification/HostCollectors.thy ===== *)
theory HostCollectors
  imports ClientRuns GoFields FloatOps
begin

section \<open>The host collectors (internal/collectors/core)\<close>

text \<open>
  CPU, network, disk, memory, file systems and uptime of a Linux host. A file under \<open>/proc\<close> is what
  opening and scanning it gives: \<open>None\<close> when it cannot be opened, else its lines and whether the
  scanner failed. A snapshot is a Go map: an association list with distinct keys, in the order Go
  iterates. What a collection does is the list of its calls of the client. The gopsutil branches
  (other systems) take the library's answer as an argument.
\<close>

type_synonym proc_file = "(string list \<times> bool) option"

datatype read_error = OpenFailed | ScanFailed | NoCPULines | MissingAggregate | EmptyFile | ParseFailed

definition parseUint :: "string \<Rightarrow> u64 \<times> num_error option" where
  "parseUint s = (case parse_uint maxUint64 (trim_space s) of (v, e) \<Rightarrow> (word_of_nat v, e))"

text \<open>The value that \<open>x, _ := parseUint(fields[i])\<close> leaves: 0 or the maximum on an error.\<close>

definition column :: "string list \<Rightarrow> nat \<Rightarrow> u64" where
  "column fs i = fst (parseUint (fs ! i))"

subsection \<open>Network interfaces (net.go)\<close>

record netCounters =
  rxBytes :: u64
  rxPackets :: u64
  rxErrs :: u64
  rxDrop :: u64
  txBytes :: u64
  txPackets :: u64
  txErrs :: u64
  txDrop :: u64

definition skipNetInterface :: "string \<Rightarrow> bool" where
  "skipNetInterface name =
     (if name = ''lo'' then True
      else if has_prefix name ''veth'' then True
      else if name = ''docker0'' then True
      else if has_prefix name ''br-'' then True
      else if has_prefix name ''cali'' then True
      else if has_prefix name ''flannel.'' then True
      else if has_prefix name ''tunl'' then True
      else False)"

definition net_line :: "string \<Rightarrow> (string \<times> netCounters) list \<Rightarrow> (string \<times> netCounters) list" where
  "net_line line0 stats =
     (let line = trim_space line0 in
      if line = [] then stats
      else
        let parts = split_on (CHR '':'') line in
        if length parts \<noteq> 2 then stats
        else
          let iface = trim_space (parts ! 0) in
          if iface = [] then stats
          else if skipNetInterface iface then stats
          else
            let fs = GoStrings.fields (trim_space (parts ! 1)) in
            if length fs < 16 then stats
            else AList.update iface
              \<lparr>rxBytes = column fs 0, rxPackets = column fs 1, rxErrs = column fs 2, rxDrop = column fs 3,
               txBytes = column fs 8, txPackets = column fs 9, txErrs = column fs 10, txDrop = column fs 11\<rparr> stats)"

definition readNetProc :: "proc_file \<Rightarrow> read_error + (string \<times> netCounters) list" where
  "readNetProc f =
     (case f of
        None \<Rightarrow> Inl OpenFailed
      | Some (ls, failed) \<Rightarrow>
          (let stats = fold net_line (drop 2 ls) [] in if failed then Inl ScanFailed else Inr stats))"

definition readNetGopsutil :: "(string \<times> netCounters) list option \<Rightarrow> read_error + (string \<times> netCounters) list" where
  "readNetGopsutil counters =
     (case counters of
        None \<Rightarrow> Inl OpenFailed
      | Some cs \<Rightarrow> Inr (fold (\<lambda>(name, s) stats. if skipNetInterface name then stats else AList.update name s stats) cs []))"

definition net_calls :: "string \<times> netCounters \<Rightarrow> call list" where
  "net_calls p =
     (case p of (iface, cur) \<Rightarrow>
        let ifaceLabel = Label ''iface'' iface; dirRx = Label ''dir'' ''rx''; dirTx = Label ''dir'' ''tx'' in
        [Total ''host.net.kb'' (kb (rxBytes cur)) [ifaceLabel, dirRx],
         Total ''host.net.packets'' (f64_u64 (rxPackets cur)) [ifaceLabel, dirRx],
         Total ''host.net.errors'' (f64_u64 (rxErrs cur)) [ifaceLabel, dirRx],
         Total ''host.net.dropped'' (f64_u64 (rxDrop cur)) [ifaceLabel, dirRx],
         Total ''host.net.kb'' (kb (txBytes cur)) [ifaceLabel, dirTx],
         Total ''host.net.packets'' (f64_u64 (txPackets cur)) [ifaceLabel, dirTx],
         Total ''host.net.errors'' (f64_u64 (txErrs cur)) [ifaceLabel, dirTx],
         Total ''host.net.dropped'' (f64_u64 (txDrop cur)) [ifaceLabel, dirTx]])"

definition collect_net :: "read_error + (string \<times> netCounters) list \<Rightarrow> read_error + call list" where
  "collect_net snapshot = (case snapshot of Inl e \<Rightarrow> Inl e | Inr s \<Rightarrow> Inr (concat (map net_calls s)))"

subsection \<open>Disks (diskio.go)\<close>

record diskIOStats =
  readBytes :: u64
  writeBytes :: u64
  readOps :: u64
  writeOps :: u64
  ioTimeMs :: u64

definition hasTrailingDigit :: "string \<Rightarrow> bool" where
  "hasTrailingDigit s = (if s = [] then False else is_digit (last s))"

definition skipDiskDevice :: "string \<Rightarrow> bool" where
  "skipDiskDevice dev =
     (if has_prefix dev ''loop'' \<or> has_prefix dev ''ram'' then True
      else if has_prefix dev ''dm-'' then True
      else if (has_prefix dev ''sd'' \<or> has_prefix dev ''vd'' \<or> has_prefix dev ''xvd'') \<and> hasTrailingDigit dev then True
      else if has_prefix dev ''nvme'' \<and> str_contains dev ''p'' then True
      else False)"

definition disk_line :: "string \<Rightarrow> (string \<times> diskIOStats) list \<Rightarrow> (string \<times> diskIOStats) list" where
  "disk_line line stats =
     (let fs = GoStrings.fields (trim_space line) in
      if length fs < 14 then stats
      else
        let dev = fs ! 2 in
        if skipDiskDevice dev then stats
        else AList.update dev
          \<lparr>readBytes = column fs 5 * 512, writeBytes = column fs 9 * 512, readOps = column fs 3,
           writeOps = column fs 7, ioTimeMs = column fs 12\<rparr> stats)"

definition readDiskIOProc :: "proc_file \<Rightarrow> read_error + (string \<times> diskIOStats) list" where
  "readDiskIOProc f =
     (case f of
        None \<Rightarrow> Inl OpenFailed
      | Some (ls, failed) \<Rightarrow> (let stats = fold disk_line ls [] in if failed then Inl ScanFailed else Inr stats))"

definition readDiskIOGopsutil :: "(string \<times> diskIOStats) list option \<Rightarrow> read_error + (string \<times> diskIOStats) list" where
  "readDiskIOGopsutil counters =
     (case counters of
        None \<Rightarrow> Inl OpenFailed
      | Some cs \<Rightarrow> Inr (fold (\<lambda>(dev, s) stats. if skipDiskDevice dev then stats else AList.update dev s stats) cs []))"

definition disk_calls :: "string \<times> diskIOStats \<Rightarrow> call list" where
  "disk_calls p =
     (case p of (dev, cur) \<Rightarrow>
        let deviceLabel = Label ''device'' dev; dirRead = Label ''dir'' ''read''; dirWrite = Label ''dir'' ''write'' in
        [Total ''host.disk.io_kb'' (kb (readBytes cur)) [deviceLabel, dirRead],
         Total ''host.disk.io_kb'' (kb (writeBytes cur)) [deviceLabel, dirWrite],
         Total ''host.disk.io_ops'' (f64_u64 (readOps cur)) [deviceLabel, dirRead],
         Total ''host.disk.io_ops'' (f64_u64 (writeOps cur)) [deviceLabel, dirWrite],
         Total ''host.disk.io_time_ms'' (f64_u64 (ioTimeMs cur)) [deviceLabel]])"

definition collect_disk :: "read_error + (string \<times> diskIOStats) list \<Rightarrow> read_error + call list" where
  "collect_disk snapshot = (case snapshot of Inl e \<Rightarrow> Inl e | Inr s \<Rightarrow> Inr (concat (map disk_calls s)))"

subsection \<open>CPU usage (cpu_usage.go, cpu_times_linux.go)\<close>

record cpuTimes =
  ctUser :: u64
  ctNice :: u64
  ctSystem :: u64
  ctIdle :: u64
  ctIowait :: u64
  ctIrq :: u64
  ctSoftirq :: u64
  ctSteal :: u64
  ctGuest :: u64
  ctGuestNice :: u64

text \<open>\<open>vals[i]\<close>: 0 when the line has no such column or it is no number.\<close>

definition cpu_val :: "string list \<Rightarrow> nat \<Rightarrow> u64" where
  "cpu_val fs i =
     (if 1 + i < length fs
      then (case parseUint (fs ! (1 + i)) of (v, None) \<Rightarrow> v | (_, Some _) \<Rightarrow> 0)
      else 0)"

definition cpu_line :: "string \<Rightarrow> (string \<times> cpuTimes) list \<Rightarrow> (string \<times> cpuTimes) list" where
  "cpu_line line result =
     (if \<not> has_prefix line ''cpu'' then result
      else
        let fs = GoStrings.fields line in
        if length fs < 5 then result
        else AList.update (fs ! 0)
          \<lparr>ctUser = cpu_val fs 0, ctNice = cpu_val fs 1, ctSystem = cpu_val fs 2, ctIdle = cpu_val fs 3,
           ctIowait = cpu_val fs 4, ctIrq = cpu_val fs 5, ctSoftirq = cpu_val fs 6, ctSteal = cpu_val fs 7,
           ctGuest = cpu_val fs 8, ctGuestNice = cpu_val fs 9\<rparr> result)"

definition readCPUTimes :: "proc_file \<Rightarrow> read_error + (string \<times> cpuTimes) list" where
  "readCPUTimes f =
     (case f of
        None \<Rightarrow> Inl OpenFailed
      | Some (ls, failed) \<Rightarrow>
          (let result = fold cpu_line ls [] in
           if failed then Inl ScanFailed
           else if length result = 0 then Inl NoCPULines
           else if map_of result ''cpu'' = None then Inl MissingAggregate
           else Inr result))"

text \<open>
  On other systems the times come from gopsutil, in seconds, and are scaled to hundredths (cpu_times_gopsutil.go);
  the aggregate is the sum.
\<close>

record cpu_stat =
  csUser :: f64
  csNice :: f64
  csSystem :: f64
  csIdle :: f64
  csIowait :: f64
  csIrq :: f64
  csSoftirq :: f64
  csSteal :: f64
  csGuest :: f64
  csGuestNice :: f64

definition scale_cpu :: "(f64 \<Rightarrow> u64) \<Rightarrow> f64 \<Rightarrow> u64" where
  "scale_cpu oob v = (if v < 0 then 0 else u64_of_f64 oob (v * f64_of_int 100))"

definition scaled_times :: "(f64 \<Rightarrow> u64) \<Rightarrow> cpu_stat \<Rightarrow> cpuTimes" where
  "scaled_times oob st =
     (let scale = scale_cpu oob in
      \<lparr>ctUser = scale (csUser st), ctNice = scale (csNice st), ctSystem = scale (csSystem st),
       ctIdle = scale (csIdle st), ctIowait = scale (csIowait st), ctIrq = scale (csIrq st),
       ctSoftirq = scale (csSoftirq st), ctSteal = scale (csSteal st), ctGuest = scale (csGuest st),
       ctGuestNice = scale (csGuestNice st)\<rparr>)"

definition add_times :: "cpuTimes \<Rightarrow> cpuTimes \<Rightarrow> cpuTimes" where
  "add_times agg ct =
     \<lparr>ctUser = ctUser agg + ctUser ct, ctNice = ctNice agg + ctNice ct, ctSystem = ctSystem agg + ctSystem ct,
      ctIdle = ctIdle agg + ctIdle ct, ctIowait = ctIowait agg + ctIowait ct, ctIrq = ctIrq agg + ctIrq ct,
      ctSoftirq = ctSoftirq agg + ctSoftirq ct, ctSteal = ctSteal agg + ctSteal ct, ctGuest = ctGuest agg + ctGuest ct,
      ctGuestNice = ctGuestNice agg + ctGuestNice ct\<rparr>"

definition no_times :: cpuTimes where
  "no_times =
     \<lparr>ctUser = 0, ctNice = 0, ctSystem = 0, ctIdle = 0, ctIowait = 0, ctIrq = 0, ctSoftirq = 0, ctSteal = 0,
      ctGuest = 0, ctGuestNice = 0\<rparr>"

definition readCPUTimesGopsutil ::
  "(f64 \<Rightarrow> u64) \<Rightarrow> cpu_stat list option \<Rightarrow> read_error + (string \<times> cpuTimes) list" where
  "readCPUTimesGopsutil oob per =
     (case per of
        None \<Rightarrow> Inl OpenFailed
      | Some sts \<Rightarrow>
          (if length sts = 0 then Inl NoCPULines
           else
             let times = map (scaled_times oob) sts;
                 result = fold (\<lambda>(i, ct). AList.update (''cpu'' @ fmt_nat 10 i) ct) (enumerate 0 times) [] in
             Inr (AList.update ''cpu'' (foldl add_times no_times times) result)))"

definition normalizeCPUName :: "string \<Rightarrow> string" where
  "normalizeCPUName raw = (if raw = ''cpu'' then ''all'' else trim_prefix raw ''cpu'')"

definition cpu_pct :: "u64 \<Rightarrow> u64 \<Rightarrow> f64" where
  "cpu_pct delta deltaTotal = f64_div (f64_of_int 100 * f64_u64 delta) (f64_u64 deltaTotal)"

text \<open>The closure \<open>emit\<close>, over the label and the total that it captures.\<close>

definition cpu_emit :: "string \<Rightarrow> u64 \<Rightarrow> string \<Rightarrow> u64 \<Rightarrow> call list" where
  "cpu_emit cpuLabel deltaTotal mode delta =
     (if delta = 0 then []
      else [Value ''host.cpu.usage_pct'' (cpu_pct delta deltaTotal) [cpuLabel, Label ''mode'' mode]])"

definition cpu_calls :: "string \<Rightarrow> cpuTimes \<Rightarrow> cpuTimes \<Rightarrow> call list" where
  "cpu_calls name prev cur =
     (let deltaUser = diffUint (ctUser prev) (ctUser cur);
          deltaNice = diffUint (ctNice prev) (ctNice cur);
          deltaSystem = diffUint (ctSystem prev) (ctSystem cur);
          deltaIdle = diffUint (ctIdle prev) (ctIdle cur);
          deltaIOWait = diffUint (ctIowait prev) (ctIowait cur);
          deltaIRQ = diffUint (ctIrq prev) (ctIrq cur);
          deltaSoftIRQ = diffUint (ctSoftirq prev) (ctSoftirq cur);
          deltaSteal = diffUint (ctSteal prev) (ctSteal cur);
          deltaTotal = deltaUser + deltaNice + deltaSystem + deltaIdle +
            deltaIOWait + deltaIRQ + deltaSoftIRQ + deltaSteal in
      if deltaTotal = 0 then []
      else
        let cpuLabel = Label ''cpu'' (normalizeCPUName name); emit = cpu_emit cpuLabel deltaTotal in
        emit ''user'' deltaUser @ emit ''nice'' deltaNice @ emit ''system'' deltaSystem @
        emit ''idle'' deltaIdle @ emit ''iowait'' deltaIOWait @ emit ''irq'' deltaIRQ @
        emit ''softirq'' deltaSoftIRQ @ emit ''steal'' deltaSteal)"

fun cpu_loop ::
  "(string \<times> cpuTimes) list \<Rightarrow> (string \<rightharpoonup> cpuTimes) \<Rightarrow> call list \<times> (string \<rightharpoonup> cpuTimes)" where
  "cpu_loop [] prevs = ([], prevs)"
| "cpu_loop ((name, cur) # rest) prevs =
     (if name = ''cpu'' then cpu_loop rest prevs
      else
        let (calls, prevs') = cpu_loop rest (prevs(name \<mapsto> cur)) in
        case prevs name of
          None \<Rightarrow> (calls, prevs')
        | Some prev \<Rightarrow> (cpu_calls name prev cur @ calls, prevs'))"

definition collect_cpu ::
  "read_error + (string \<times> cpuTimes) list \<Rightarrow> (string \<rightharpoonup> cpuTimes) \<Rightarrow> (read_error + call list) \<times> (string \<rightharpoonup> cpuTimes)" where
  "collect_cpu snapshot prevs =
     (case snapshot of
        Inl e \<Rightarrow> (Inl e, prevs)
      | Inr s \<Rightarrow> (case cpu_loop s prevs of (calls, prevs') \<Rightarrow> (Inr calls, prevs')))"

subsection \<open>Memory (mem.go)\<close>

definition mem_line :: "string \<Rightarrow> (string \<rightharpoonup> u64) \<Rightarrow> (string \<rightharpoonup> u64)" where
  "mem_line line valuesKB =
     (let fs = GoStrings.fields line in
      if length fs < 2 then valuesKB
      else
        let key = trim_suffix (fs ! 0) '':'' in
        case parse_uint maxUint64 (fs ! 1) of
          (_, Some _) \<Rightarrow> valuesKB
        | (v, None) \<Rightarrow> valuesKB(key \<mapsto> word_of_nat v))"

definition lookup0 :: "(string \<rightharpoonup> u64) \<Rightarrow> string \<Rightarrow> u64" where
  "lookup0 m k = (case m k of None \<Rightarrow> 0 | Some v \<Rightarrow> v)"

definition capacity :: "string \<Rightarrow> string \<Rightarrow> u64 \<Rightarrow> call" where
  "capacity metric typ v = ValueSparse metric (f64_u64 v) [Label ''type'' typ]"

definition mem_calls :: "(string \<rightharpoonup> u64) \<Rightarrow> call list" where
  "mem_calls valuesKB =
     (let memTotal = lookup0 valuesKB ''MemTotal''; memFree = lookup0 valuesKB ''MemFree'';
          memAvailable = lookup0 valuesKB ''MemAvailable''; swapTotal = lookup0 valuesKB ''SwapTotal'';
          swapFree = lookup0 valuesKB ''SwapFree'';
          memUsed = (if memTotal \<ge> memAvailable then memTotal - memAvailable else 0);
          swapUsed = (if swapTotal \<ge> swapFree then swapTotal - swapFree else 0) in
      [capacity ''host.mem.capacity_kb'' ''total'' memTotal, capacity ''host.mem.capacity_kb'' ''used'' memUsed,
       capacity ''host.mem.capacity_kb'' ''free'' memFree, capacity ''host.mem.capacity_kb'' ''available'' memAvailable,
       capacity ''host.swap.capacity_kb'' ''total'' swapTotal, capacity ''host.swap.capacity_kb'' ''used'' swapUsed,
       capacity ''host.swap.capacity_kb'' ''free'' swapFree])"

definition collectMemProc :: "proc_file \<Rightarrow> read_error + call list" where
  "collectMemProc f =
     (case f of
        None \<Rightarrow> Inl OpenFailed
      | Some (ls, failed) \<Rightarrow>
          (let valuesKB = fold mem_line ls Map.empty in
           if failed then Inl ScanFailed else Inr (mem_calls valuesKB)))"

text \<open>The gopsutil branch: the totals of memory and swap as the library gives them, in bytes.\<close>

record mem_stat =
  msTotal :: u64
  msUsed :: u64
  msFree :: u64
  msAvailable :: u64

definition collectMemGopsutil :: "mem_stat option \<Rightarrow> mem_stat option \<Rightarrow> read_error + call list" where
  "collectMemGopsutil vm sm =
     (case vm of
        None \<Rightarrow> Inl OpenFailed
      | Some v \<Rightarrow>
          (case sm of
             None \<Rightarrow> Inl OpenFailed
           | Some s \<Rightarrow>
               (let memTotalKB = msTotal v div 1024; memFreeKB = msFree v div 1024; memAvailKB = msAvailable v div 1024;
                    memUsedKB = (msTotal v - msAvailable v) div 1024;
                    swapTotalKB = msTotal s div 1024; swapFreeKB = msFree s div 1024; swapUsedKB = msUsed s div 1024 in
                Inr [capacity ''host.mem.capacity_kb'' ''total'' memTotalKB, capacity ''host.mem.capacity_kb'' ''used'' memUsedKB,
                     capacity ''host.mem.capacity_kb'' ''free'' memFreeKB, capacity ''host.mem.capacity_kb'' ''available'' memAvailKB,
                     capacity ''host.swap.capacity_kb'' ''total'' swapTotalKB, capacity ''host.swap.capacity_kb'' ''used'' swapUsedKB,
                     capacity ''host.swap.capacity_kb'' ''free'' swapFreeKB])))"

text \<open>
  Unlike the branch for Linux it subtracts without a check: with more memory available than there is
  in total, the difference wraps around.
\<close>

lemma mem_used_wraps:
  assumes "msTotal v < msAvailable v"
  shows "unat (msTotal v - msAvailable v) = 2 ^ 64 + unat (msTotal v) - unat (msAvailable v)"
  using assms unat_sub_if' [of "msTotal v" "msAvailable v"]
  by (simp add: word_less_nat_alt)

subsection \<open>File systems (fs.go)\<close>

definition skipFSType :: "string \<Rightarrow> bool" where
  "skipFSType fsType \<longleftrightarrow>
     fsType \<in> {''proc'', ''sysfs'', ''tmpfs'', ''devtmpfs'', ''devpts'', ''cgroup'', ''cgroup2'',
       ''overlay'', ''squashfs'', ''debugfs'', ''mqueue'', ''rpc_pipefs'', ''nsfs'',
       ''tracefs'', ''autofs'', ''binfmt_misc'', ''pstore'', ''fusectl'', ''configfs''}"

definition skipMountpoint :: "string \<Rightarrow> bool" where
  "skipMountpoint mnt =
     (if mnt = ''/proc'' \<or> mnt = ''/sys'' \<or> mnt = ''/dev'' then True
      else if has_prefix mnt ''/run'' then True
      else False)"

record statfs =
  stBlocks :: u64
  stBfree :: u64
  stBsize :: u64
  stFiles :: u64
  stFfree :: u64

definition emitFSStat :: "(string \<Rightarrow> statfs option) \<Rightarrow> string \<Rightarrow> string \<Rightarrow> call list" where
  "emitFSStat statfs_call device mnt =
     (case statfs_call mnt of
        None \<Rightarrow> []
      | Some st \<Rightarrow>
          (let totalBytes = stBlocks st * stBsize st; freeBytes = stBfree st * stBsize st;
               usedBytes = (if totalBytes \<ge> freeBytes then totalBytes - freeBytes else 0);
               totalInodes = stFiles st; freeInodes = stFfree st;
               usedInodes = (if totalInodes \<ge> freeInodes then totalInodes - freeInodes else 0);
               emit = (\<lambda>metric typ v. ValueSparse metric (f64_u64 v)
                         [Label ''mount'' mnt, Label ''device'' device, Label ''type'' typ]) in
           [emit ''host.fs.capacity_kb'' ''total'' (totalBytes div 1024), emit ''host.fs.capacity_kb'' ''used'' (usedBytes div 1024),
            emit ''host.fs.capacity_kb'' ''free'' (freeBytes div 1024), emit ''host.fs.inodes_count'' ''total'' totalInodes,
            emit ''host.fs.inodes_count'' ''used'' usedInodes, emit ''host.fs.inodes_count'' ''free'' freeInodes]))"

definition fs_line :: "(string \<Rightarrow> statfs option) \<Rightarrow> string \<Rightarrow> call list" where
  "fs_line statfs_call line =
     (let fs = GoStrings.fields line in
      if length fs < 3 then []
      else if skipFSType (fs ! 2) \<or> skipMountpoint (fs ! 1) then []
      else emitFSStat statfs_call (fs ! 0) (fs ! 1))"

text \<open>The calls are made while the file is scanned: also those before a scan error.\<close>

definition collectFSProc :: "(string \<Rightarrow> statfs option) \<Rightarrow> proc_file \<Rightarrow> call list \<times> read_error option" where
  "collectFSProc statfs_call f =
     (case f of
        None \<Rightarrow> ([], Some OpenFailed)
      | Some (ls, failed) \<Rightarrow>
          (concat (map (fs_line statfs_call) ls), if failed then Some ScanFailed else None))"

definition collectFSGopsutil :: "(string \<Rightarrow> statfs option) \<Rightarrow> (string \<times> string \<times> string) list option \<Rightarrow> call list \<times> read_error option" where
  "collectFSGopsutil statfs_call partitions =
     (case partitions of
        None \<Rightarrow> ([], Some OpenFailed)
      | Some ps \<Rightarrow>
          (concat (map (\<lambda>(device, mnt, fsType).
             if skipFSType fsType \<or> skipMountpoint mnt then [] else emitFSStat statfs_call device mnt) ps), None))"

subsection \<open>Uptime (uptime.go)\<close>

text \<open>\<open>parse_float\<close> is \<open>strconv.ParseFloat\<close> with 64 bits.\<close>

definition readUptimeSeconds :: "(string \<Rightarrow> f64 option) \<Rightarrow> proc_file \<Rightarrow> read_error + f64" where
  "readUptimeSeconds parse_float f =
     (case f of
        None \<Rightarrow> Inl OpenFailed
      | Some ([], failed) \<Rightarrow> Inl (if failed then ScanFailed else EmptyFile)
      | Some (line # _, _) \<Rightarrow>
          (case GoStrings.fields line of
             [] \<Rightarrow> Inl EmptyFile
           | w # _ \<Rightarrow> (case parse_float w of None \<Rightarrow> Inl ParseFailed | Some v \<Rightarrow> Inr v)))"

text \<open>On other systems: the whole seconds that gopsutil gives.\<close>

definition readUptimeGopsutil :: "u64 option \<Rightarrow> read_error + f64" where
  "readUptimeGopsutil uptime = (case uptime of None \<Rightarrow> Inl OpenFailed | Some u \<Rightarrow> Inr (f64_u64 u))"

definition uptime_calls :: "read_error + f64 \<Rightarrow> read_error + call list" where
  "uptime_calls uptime =
     (case uptime of
        Inl e \<Rightarrow> Inl e
      | Inr v \<Rightarrow> Inr (if v < 0 then [] else [ValueSparse ''host.uptime_min'' (f64_div v (f64_of_int 60)) []]))"

definition collect_uptime :: "(string \<Rightarrow> f64 option) \<Rightarrow> proc_file \<Rightarrow> read_error + call list" where
  "collect_uptime parse_float f = uptime_calls (readUptimeSeconds parse_float f)"

subsection \<open>What the kernel prints\<close>

text \<open>
  A row of \<open>/proc/net/dev\<close>: the name of the interface, right-aligned, and its counters, each after
  at least one space. \<open>pads\<close> are the widths of the gaps.
\<close>

record net_row =
  nrIndent :: nat
  nrName :: string
  nrPads :: "nat list"
  nrCounters :: "nat list"

definition net_row_text :: "net_row \<Rightarrow> string" where
  "net_row_text r = spaces (nrIndent r) @ nrName r @ '':'' @ columns (zip (nrPads r) (map (fmt_nat 10) (nrCounters r)))"

definition net_row_ok :: "net_row \<Rightarrow> bool" where
  "net_row_ok r \<longleftrightarrow>
     word_text (nrName r) \<and> CHR '':'' \<notin> set (nrName r) \<and> length (nrPads r) = length (nrCounters r) \<and>
     16 \<le> length (nrCounters r) \<and> (\<forall>k \<in> set (nrPads r). 0 < k) \<and> (\<forall>n \<in> set (nrCounters r). n < 2 ^ 64)"

definition row_counters :: "nat list \<Rightarrow> netCounters" where
  "row_counters ns =
     \<lparr>rxBytes = word_of_nat (ns ! 0), rxPackets = word_of_nat (ns ! 1), rxErrs = word_of_nat (ns ! 2),
      rxDrop = word_of_nat (ns ! 3), txBytes = word_of_nat (ns ! 8), txPackets = word_of_nat (ns ! 9),
      txErrs = word_of_nat (ns ! 10), txDrop = word_of_nat (ns ! 11)\<rparr>"

lemma column_fmt:
  assumes "i < length ns" and "ns ! i < 2 ^ 64"
  shows "column (map (fmt_nat 10) ns) i = word_of_nat (ns ! i)"
  using assms parse_uint_fmt [of "ns ! i" maxUint64]
  by (simp add: column_def parseUint_def trim_space_word maxUint64_def)

lemma zip_columns_ok:
  assumes "length ks = length ts" and "\<forall>k \<in> set ks. 0 < k" and "\<forall>t \<in> set ts. word_text t"
  shows "\<forall>(k, t) \<in> set (zip ks ts). 0 < k \<and> word_text t" and "map snd (zip ks ts) = ts"
  using assms by (auto dest: set_zip_leftD set_zip_rightD)

lemma columns_no_colon:
  "\<forall>t \<in> set ts. CHR '':'' \<notin> set t \<Longrightarrow> CHR '':'' \<notin> set (columns (zip ks ts))"
  by (auto simp: columns_def spaces_def dest: set_zip_rightD)

lemma trim_columns:
  assumes "\<forall>(k, t) \<in> set ps. 0 < k \<and> word_text t"
  shows "GoStrings.fields (trim_space (columns ps)) = map snd ps"
proof (cases ps)
  case (Cons p rest)
  obtain k t where p: "p = (k, t)" by fastforce
  have w: "word_text t" "\<forall>(k, t) \<in> set rest. 0 < k \<and> word_text t" using assms by (auto simp: Cons p)
  show ?thesis using line_columns(1) [OF w, of k 0] line_columns(2) [OF w] by (simp add: Cons p)
qed (simp add: GoStrings.fields_def fields_from_Nil)

lemma net_line_row:
  assumes "net_row_ok r"
  shows "net_line (net_row_text r) stats =
    (if skipNetInterface (nrName r) then stats else AList.update (nrName r) (row_counters (nrCounters r)) stats)"
proof -
  let ?ns = "nrCounters r" and ?ps = "zip (nrPads r) (map (fmt_nat 10) (nrCounters r))"
  have name: "word_text (nrName r)" "CHR '':'' \<notin> set (nrName r)" and len: "16 \<le> length ?ns"
    and lt: "\<And>i. i < length ?ns \<Longrightarrow> ?ns ! i < 2 ^ 64"
    using assms by (auto simp: net_row_ok_def)
  have ps: "\<forall>(k, t) \<in> set ?ps. 0 < k \<and> word_text t" "map snd ?ps = map (fmt_nat 10) ?ns"
    using assms zip_columns_ok [of "nrPads r" "map (fmt_nat 10) ?ns"] by (auto simp: net_row_ok_def)
  have w: "word_text (nrName r @ '':'')" using name(1) by (simp add: word_text_def plain_char_def)
  have trim: "trim_space (net_row_text r) = nrName r @ CHR '':'' # columns ?ps"
    using line_columns(1) [OF w ps(1), of "nrIndent r" 0] by (simp add: net_row_text_def)
  have "CHR '':'' \<notin> set (fmt_nat 10 n)" for n by (rule fmt_nat_no) (simp add: is_digit_def)
  then have "CHR '':'' \<notin> set (columns ?ps)" by (intro columns_no_colon) auto
  then have split: "split_on (CHR '':'') (nrName r @ CHR '':'' # columns ?ps) = [nrName r, columns ?ps]"
    using name(2) by (simp add: split_on_append split_on_absent)
  have cols: "column (map (fmt_nat 10) ?ns) i = word_of_nat (?ns ! i)" if "i < 16" for i
    using that len lt by (intro column_fmt) auto
  have nm: "nrName r \<noteq> []" using name(1) by (auto simp: word_text_def)
  show ?thesis
    unfolding net_line_def trim
    using trim_columns [OF ps(1)] ps(2) cols len nm
    by (simp add: Let_def split trim_space_word [OF name(1)] row_counters_def)
qed

text \<open>
  C30 (roundtrip). The network collector reads back what the kernel prints: for any list of
  interfaces with at least sixteen counters below \<open>2 ^ 64\<close> each, in any alignment, the snapshot maps
  each interface that is not skipped to its counters (the last row of a name wins) and no other.
\<close>

theorem net_dev_roundtrip:
  assumes "\<forall>r \<in> set rows. net_row_ok r"
  shows "\<exists>snapshot. readNetProc (Some (h1 # h2 # map net_row_text rows, False)) = Inr snapshot \<and>
    distinct (map fst snapshot) \<and>
    map_of snapshot = map_of (rev [(nrName r, row_counters (nrCounters r)). r \<leftarrow> rows, \<not> skipNetInterface (nrName r)])"
proof -
  let ?pairs = "\<lambda>rows. [(nrName r, row_counters (nrCounters r)). r \<leftarrow> rows, \<not> skipNetInterface (nrName r)]"
  have "distinct (map fst (fold net_line (map net_row_text rows) stats)) \<and>
      map_of (fold net_line (map net_row_text rows) stats) = map_of stats ++ map_of (rev (?pairs rows))"
    if "distinct (map fst stats)" for stats
    using assms that
  proof (induction rows arbitrary: stats)
    case (Cons r rows)
    let ?s = "net_line (net_row_text r) stats"
    have r: "net_row_ok r" using Cons.prems(1) by simp
    have d: "distinct (map fst ?s)" using Cons.prems(2) by (simp add: net_line_row [OF r] distinct_update)
    have "map_of ?s = map_of stats ++ map_of (rev (?pairs [r]))"
      by (simp add: net_line_row [OF r] update_conv')
    moreover have "rev (?pairs (r # rows)) = rev (?pairs rows) @ rev (?pairs [r])" by simp
    ultimately show ?case using Cons.IH [OF _ d] Cons.prems(1) by (simp add: map_add_assoc)
  qed simp
  from this [of "[]"] show ?thesis
    by (intro exI [of _ "fold net_line (map net_row_text rows) []"]) (simp add: readNetProc_def)
qed

definition eth_row :: net_row where
  "eth_row = \<lparr>nrIndent = 2, nrName = ''eth0'', nrPads = replicate 16 1, nrCounters = [1..<17]\<rparr>"

definition lo_row :: net_row where
  "lo_row = \<lparr>nrIndent = 4, nrName = ''lo'', nrPads = replicate 16 3, nrCounters = replicate 16 7\<rparr>"

theorem net_dev_roundtrip_witness:
  "\<exists>snapshot. readNetProc (Some (''Inter-|'' # '' face |'' # map net_row_text [lo_row, eth_row], False)) = Inr snapshot \<and>
    distinct (map fst snapshot) \<and> map_of snapshot = [''eth0'' \<mapsto> row_counters [1..<17]]"
proof -
  have "\<forall>r \<in> set [lo_row, eth_row]. net_row_ok r"
    by (auto simp: net_row_ok_def lo_row_def eth_row_def plain_char_def)
  from net_dev_roundtrip [OF this, of "''Inter-|''" "'' face |''"]
  show ?thesis by (simp add: lo_row_def eth_row_def skipNetInterface_def has_prefix_def)
qed

subsection \<open>Shares of CPU time\<close>

lemma cpu_loop_spec:
  assumes "distinct (map fst snapshot)"
  shows "cpu_loop snapshot prevs =
    (concat (map (\<lambda>(name, cur). if name = ''cpu'' then [] else
        (case prevs name of None \<Rightarrow> [] | Some prev \<Rightarrow> cpu_calls name prev cur)) snapshot),
     \<lambda>name. if name \<noteq> ''cpu'' \<and> name \<in> fst ` set snapshot then map_of snapshot name else prevs name)"
  using assms
proof (induction snapshot arbitrary: prevs)
  case (Cons p rest)
  obtain name cur where p: "p = (name, cur)" by fastforce
  have fresh: "name \<notin> fst ` set rest" using Cons.prems by (simp add: p)
  have same: "map (\<lambda>(n, cur'). if n = ''cpu'' then [] else
        (case (prevs(name \<mapsto> cur)) n of None \<Rightarrow> [] | Some prev \<Rightarrow> cpu_calls n prev cur')) rest =
      map (\<lambda>(n, cur'). if n = ''cpu'' then [] else
        (case prevs n of None \<Rightarrow> [] | Some prev \<Rightarrow> cpu_calls n prev cur')) rest"
    using fresh by (intro map_cong refl) (auto simp: image_iff split: option.split)
  show ?case
  proof (cases "name = ''cpu''")
    case True
    then show ?thesis using Cons.IH [of prevs] Cons.prems by (auto simp: p fun_eq_iff)
  next
    case False
    have d: "distinct (map fst rest)" using Cons.prems by simp
    have after: "(\<lambda>x. if x \<noteq> ''cpu'' \<and> x \<in> fst ` set rest then map_of rest x else (prevs(name \<mapsto> cur)) x) =
        (\<lambda>x. if x \<noteq> ''cpu'' \<and> x \<in> fst ` set ((name, cur) # rest) then map_of ((name, cur) # rest) x else prevs x)"
      using False fresh by (auto simp: fun_eq_iff)
    note run = Cons.IH [OF d, of "prevs(name \<mapsto> cur)", unfolded same after]
    show ?thesis using False unfolding p by (cases "prevs name") (simp_all add: run del: fun_upd_apply)
  qed
qed simp

lemma sum_list_unat:
  fixes ws :: "u64 list"
  assumes "sum_list (map unat ws) < 2 ^ 64"
  shows "unat (sum_list ws) = sum_list (map unat ws)"
  using assms
proof (induction ws)
  case (Cons w ws)
  have "sum_list (map unat ws) < 2 ^ 64" using Cons.prems by simp
  then have IH: "unat (sum_list ws) = sum_list (map unat ws)" by (rule Cons.IH)
  have "unat w + unat (sum_list ws) < 2 ^ LENGTH(64)" using Cons.prems IH by simp
  then have "unat (w + sum_list ws) = unat w + unat (sum_list ws)" by (subst unat_add_lem [symmetric]) simp
  then show ?case by (simp add: IH)
qed simp

text \<open>
  The report of a core, from the readings alone: how far each of the eight counters of its line in
  \<open>/proc/stat\<close> advanced, and of the counters that did the nearest float64 to their percentage of all advances.
\<close>

definition cpu_modes :: "(string \<times> (cpuTimes \<Rightarrow> u64)) list" where
  "cpu_modes =
     [(''user'', ctUser), (''nice'', ctNice), (''system'', ctSystem), (''idle'', ctIdle),
      (''iowait'', ctIowait), (''irq'', ctIrq), (''softirq'', ctSoftirq), (''steal'', ctSteal)]"

definition advance :: "cpuTimes \<Rightarrow> cpuTimes \<Rightarrow> (cpuTimes \<Rightarrow> u64) \<Rightarrow> nat" where
  "advance prev cur f = unat (f cur) - unat (f prev)"

definition all_advances :: "cpuTimes \<Rightarrow> cpuTimes \<Rightarrow> nat" where
  "all_advances prev cur = sum_list (map (\<lambda>(mode, f). advance prev cur f) cpu_modes)"

definition cpu_report :: "string \<Rightarrow> cpuTimes \<Rightarrow> cpuTimes \<Rightarrow> call list" where
  "cpu_report name prev cur =
     map (\<lambda>(mode, f). Value ''host.cpu.usage_pct'' (f64_round False (100 * advance prev cur f) (all_advances prev cur))
         [Label ''cpu'' (trim_prefix name ''cpu''), Label ''mode'' mode])
       (filter (\<lambda>(mode, f). 0 < advance prev cur f) cpu_modes)"

lemma cpu_pct_ratio:
  assumes "100 * unat delta < 2 ^ 53" and "0 < unat tot" and "unat tot < 2 ^ 53"
  shows "cpu_pct delta tot = f64_round False (100 * unat delta) (unat tot)"
proof -
  obtain d t where n: "unat delta = d" "unat tot = t" by simp
  have u: "uint delta = int d" "uint tot = int t" by (simp_all flip: n)
  have "f64_of_int 100 * f64_of_int (int d) = f64_of_int (int (100 * d))"
    using assms(1) f64_int_mult [of 100 "int d"] by (simp add: n)
  moreover have "f64_div (f64_of_int (int (100 * d))) (f64_of_int (int t)) = f64_round False (nat (int (100 * d))) (nat (int t))"
    by (rule f64_int_ratio) (use assms in \<open>simp_all add: n\<close>)
  ultimately show ?thesis unfolding cpu_pct_def f64_u64_nat u n by (simp only: nat_int)
qed

lemma cpu_calls_report:
  assumes "name \<noteq> ''cpu''" and small: "100 * all_advances prev cur < 2 ^ 53"
  shows "cpu_calls name prev cur = cpu_report name prev cur"
proof -
  let ?ds = "map (\<lambda>(mode, f). diffUint (f prev) (f cur)) cpu_modes" and ?all = "all_advances prev cur"
  have adv: "unat (diffUint (f prev) (f cur)) = advance prev cur f" for f by (simp add: diffUint_unat advance_def)
  have "sum_list (map unat ?ds) = ?all" by (simp add: all_advances_def adv comp_def case_prod_unfold)
  then have tot: "unat (sum_list ?ds) = ?all" using sum_list_unat [of ?ds] small by simp
  have emit: "cpu_emit lbl (sum_list ?ds) mode (diffUint (f prev) (f cur)) =
      (if 0 < advance prev cur f
       then [Value ''host.cpu.usage_pct'' (f64_round False (100 * advance prev cur f) ?all) [lbl, Label ''mode'' mode]] else [])"
    if "(mode, f) \<in> set cpu_modes" for lbl mode f
  proof -
    have le: "advance prev cur f \<le> ?all" using member_le_sum_list [of "advance prev cur f" "map (\<lambda>(mode, f). advance prev cur f) cpu_modes"] that
      by (force simp: all_advances_def)
    show ?thesis
    proof (cases "advance prev cur f = 0")
      case True
      then have "diffUint (f prev) (f cur) = 0" using adv [of f] by (simp add: unat_eq_0)
      then show ?thesis using True by (simp add: cpu_emit_def)
    next
      case False
      then have "diffUint (f prev) (f cur) \<noteq> 0" using adv [of f] by (metis unat_0)
      then show ?thesis using False le small cpu_pct_ratio [of "diffUint (f prev) (f cur)" "sum_list ?ds"]
        by (simp add: cpu_emit_def adv tot)
    qed
  qed
  have calls: "cpu_calls name prev cur = (if sum_list ?ds = 0 then []
      else concat (map (\<lambda>(mode, f). cpu_emit (Label ''cpu'' (normalizeCPUName name)) (sum_list ?ds) mode (diffUint (f prev) (f cur))) cpu_modes))"
    by (simp add: cpu_calls_def cpu_modes_def Let_def add.assoc)
  have cm: "concat (map (\<lambda>x. if P x then [g x] else []) xs) = map g (filter P xs)"
    for P and g :: "string \<times> (cpuTimes \<Rightarrow> u64) \<Rightarrow> call" and xs by (induction xs) auto
  have nm: "normalizeCPUName name = trim_prefix name ''cpu''" using assms(1) by (simp add: normalizeCPUName_def)
  have cat: "concat (map (\<lambda>(mode, f). cpu_emit (Label ''cpu'' (normalizeCPUName name)) (sum_list ?ds) mode (diffUint (f prev) (f cur))) cpu_modes) =
      cpu_report name prev cur"
    unfolding cpu_report_def nm cm [symmetric] by (intro arg_cong [where f = concat] map_cong refl) (auto simp: emit)
  have "cpu_report name prev cur = []" if "sum_list ?ds = 0"
  proof -
    have "?all = 0" using tot that by simp
    then have "\<forall>x \<in> set cpu_modes. (\<lambda>(mode, f). advance prev cur f) x = 0" by (simp add: all_advances_def sum_list_eq_0_iff)
    then show ?thesis by (auto simp: cpu_report_def filter_empty_conv)
  qed
  then show ?thesis by (simp add: calls cat)
qed

text \<open>
  C31 (functional). A CPU collection compares each core with its previous sample: a core seen for the
  first time and the aggregate line \<open>cpu\<close> give no samples, every core of the snapshot is remembered,
  a failed read changes nothing; and the samples of a core are one for each of the eight modes whose counter
  advanced, under the name of that mode, its value the nearest float64 to one hundred times the
  advance over the sum of the advances of all eight modes (while a hundred times that sum is below \<open>2 ^ 53\<close>).
\<close>

theorem cpu_collection:
  assumes "distinct (map fst snapshot)"
    and "\<forall>(name, cur) \<in> set snapshot. \<forall>prev. prevs name = Some prev \<longrightarrow> 100 * all_advances prev cur < 2 ^ 53"
  shows "collect_cpu (Inr snapshot) prevs =
      (Inr (concat (map (\<lambda>(name, cur). if name = ''cpu'' then [] else
          (case prevs name of None \<Rightarrow> [] | Some prev \<Rightarrow> cpu_report name prev cur)) snapshot)),
       \<lambda>name. if name \<noteq> ''cpu'' \<and> name \<in> fst ` set snapshot then map_of snapshot name else prevs name) \<and>
    collect_cpu (Inl e) prevs = (Inl e, prevs)"
proof -
  have "map (\<lambda>(name, cur). if name = ''cpu'' then [] else
        (case prevs name of None \<Rightarrow> [] | Some prev \<Rightarrow> cpu_calls name prev cur)) snapshot =
      map (\<lambda>(name, cur). if name = ''cpu'' then [] else
        (case prevs name of None \<Rightarrow> [] | Some prev \<Rightarrow> cpu_report name prev cur)) snapshot"
    using assms(2) by (intro map_cong refl) (auto simp: cpu_calls_report split: option.split)
  moreover have "collect_cpu (Inr snapshot) prevs =
      (Inr (concat (map (\<lambda>(name, cur). if name = ''cpu'' then [] else
          (case prevs name of None \<Rightarrow> [] | Some prev \<Rightarrow> cpu_calls name prev cur)) snapshot)),
       \<lambda>name. if name \<noteq> ''cpu'' \<and> name \<in> fst ` set snapshot then map_of snapshot name else prevs name)"
    by (simp add: collect_cpu_def cpu_loop_spec [OF assms(1)])
  ultimately show ?thesis by (simp only:) (simp add: collect_cpu_def)
qed

definition cpu_sample :: "u64 \<Rightarrow> u64 \<Rightarrow> cpuTimes" where
  "cpu_sample u i = \<lparr>ctUser = u, ctNice = 0, ctSystem = 0, ctIdle = i, ctIowait = 0, ctIrq = 0, ctSoftirq = 0,
     ctSteal = 0, ctGuest = 0, ctGuestNice = 0\<rparr>"

theorem cpu_collection_witness:
  "collect_cpu (Inr [(''cpu'', cpu_sample 9 9), (''cpu0'', cpu_sample 30 90)]) [''cpu0'' \<mapsto> cpu_sample 5 15] =
    (Inr [Value ''host.cpu.usage_pct'' (f64_of_int 25) [''cpu=0'', ''mode=user''],
          Value ''host.cpu.usage_pct'' (f64_of_int 75) [''cpu=0'', ''mode=idle'']],
     [''cpu0'' \<mapsto> cpu_sample 30 90])"
proof -
  let ?s = "[(''cpu'', cpu_sample 9 9), (''cpu0'', cpu_sample 30 90)]"
  have adv: "all_advances (cpu_sample 5 15) (cpu_sample 30 90) = 100"
    by (simp add: all_advances_def cpu_modes_def advance_def cpu_sample_def)
  have "f64_round False 2500 100 = f64_round False 25 1" "f64_round False 7500 100 = f64_round False 75 1"
    by (rule f64_round_ratio; simp)+
  then have "f64_round False 2500 100 = f64_of_int 25" "f64_round False 7500 100 = f64_of_int 75"
    by (simp_all add: f64_of_int_def)
  then have rep: "cpu_report ''cpu0'' (cpu_sample 5 15) (cpu_sample 30 90) =
      [Value ''host.cpu.usage_pct'' (f64_of_int 25) [''cpu=0'', ''mode=user''],
       Value ''host.cpu.usage_pct'' (f64_of_int 75) [''cpu=0'', ''mode=idle'']]"
    unfolding cpu_report_def adv
    by (simp add: cpu_modes_def advance_def cpu_sample_def Label_def labelReplacer_def replace_char_def trim_prefix_def)
  have small: "\<forall>(name, cur) \<in> set ?s. \<forall>prev. [''cpu0'' \<mapsto> cpu_sample 5 15] name = Some prev \<longrightarrow>
      100 * all_advances prev cur < 2 ^ 53"
    using adv by auto
  have "distinct (map fst ?s)" by simp
  note run = conjunct1 [OF cpu_collection [OF this small, of EmptyFile]]
  have "(\<lambda>name. if name \<noteq> ''cpu'' \<and> name \<in> fst ` set ?s then map_of ?s name else [''cpu0'' \<mapsto> cpu_sample 5 15] name) =
      [''cpu0'' \<mapsto> cpu_sample 30 90]" by (auto simp: fun_eq_iff)
  then show ?thesis unfolding run by (simp add: rep)
qed

text \<open>
  The mount point of a line of \<open>/proc/self/mounts\<close> is used as it stands there. The kernel writes a
  space in it as a backslash and \<open>040\<close>, and that text is what \<open>statfs\<close> is asked for.
\<close>

definition escaped_mount :: string where
  "escaped_mount = ''/mnt/my'' @ CHR 0x5C # ''040disk''"

lemma escaped_mount_not_decoded:
  "fs_line statfs_call (''/dev/sdb1 '' @ escaped_mount @ '' ext4 rw 0 0'') =
     emitFSStat statfs_call ''/dev/sdb1'' escaped_mount"
proof -
  have m: "word_text escaped_mount" by (simp add: escaped_mount_def plain_char_def)
  have "word_text ''/dev/sdb1''"
    and "\<forall>(k, t) \<in> set [(1, escaped_mount), (1, ''ext4''), (1, ''rw''), (1, ''0''), (1, ''0'')]. 0 < (k :: nat) \<and> word_text t"
    using m by (simp_all add: plain_char_def)
  from line_columns(2) [OF this]
  have "GoStrings.fields (''/dev/sdb1 '' @ escaped_mount @ '' ext4 rw 0 0'') =
      [''/dev/sdb1'', escaped_mount, ''ext4'', ''rw'', ''0'', ''0'']" by simp
  then show ?thesis
    by (simp add: fs_line_def Let_def skipFSType_def skipMountpoint_def has_prefix_def) (simp add: escaped_mount_def)
qed

end
