(* ===== verification/Mongo.thy ===== *)
theory Mongo
  imports Client FloatOps "HOL-Library.Multiset"
begin

section \<open>The MongoDB collector (internal/collectors/mongo)\<close>

text \<open>
  The collector asks each configured instance for its \<open>serverStatus\<close> and calls the client. It keeps a
  connection per instance while the instance answers, and leaves an instance that failed alone until
  its next attempt is due. The driver is a parameter: whether a connect and a ping succeed and what
  the server answers are arguments; the handles it has open are part of the state, so that the
  connections can be accounted for. An int64 is a word read with \<open>sint\<close>.
\<close>

definition defaultOpTimeout :: int where "defaultOpTimeout = 2 * second"

record mongo_instance =
  URI :: string
  instLabel :: string

record opLatency =
  Latency :: i64
  Ops :: i64

record opLatencies =
  latReads :: opLatency
  latWrites :: opLatency
  latCommands :: opLatency

record opCounters =
  opInsert :: i64
  opQuery :: i64
  opUpdate :: i64
  opDelete :: i64
  opGetMore :: i64
  opCommand :: i64

record memStats =
  Resident :: i64

record wiredTigerCache =
  BytesCurrent :: i64
  BytesMax :: i64
  Evictions :: i64

record wiredTigerStatus =
  Cache :: wiredTigerCache

record serverStatus =
  connCurrent :: i64
  connAvailable :: i64
  Mem :: memStats
  WiredTiger :: wiredTigerStatus
  OpCounters :: opCounters
  OpLatencies :: opLatencies

record instanceState =
  isInstance :: mongo_instance
  isClient :: "nat option"
  nextAttempt :: "int option"
  prevOpLat :: "opLatencies option"

record mongo_collector =
  mcEvery :: int
  retryEvery :: int
  opTimeout :: int
  instances :: "instanceState list"

text \<open>The zero time of \<open>nextAttempt\<close> is \<open>None\<close>; \<open>hasPrevLat\<close> says whether \<open>prevOpLat\<close> is there.\<close>

definition NewCollector :: "mongo_instance list \<Rightarrow> int \<Rightarrow> int \<Rightarrow> mongo_collector" where
  "NewCollector insts every retry =
     (let state = map (\<lambda>inst. \<lparr>isInstance = inst, isClient = None, nextAttempt = None, prevOpLat = None\<rparr>) insts;
          retry = (if retry \<le> 0 then 60 * second else retry) in
      \<lparr>mcEvery = every, retryEvery = retry, opTimeout = defaultOpTimeout, instances = state\<rparr>)"

definition diffCounter :: "i64 \<Rightarrow> i64 \<Rightarrow> i64" where
  "diffCounter prev cur = (if sint cur \<ge> sint prev then cur - prev else 0)"

definition f64_i64 :: "i64 \<Rightarrow> f64" where
  "f64_i64 v = f64_of_int (sint v)"

subsection \<open>The calls of one answer\<close>

definition emitConnection :: "string \<Rightarrow> string \<Rightarrow> i64 \<Rightarrow> call list" where
  "emitConnection inst typ v =
     (if sint v < 0 then [] else [Value ''mongo.connections'' (f64_i64 v) [inst, Label ''type'' typ]])"

definition emitWTCache :: "string \<Rightarrow> string \<Rightarrow> i64 \<Rightarrow> call list" where
  "emitWTCache inst typ bytes =
     (if sint bytes < 0 then []
      else [Value ''mongo.wt.cache.kb'' (f64_div (f64_i64 bytes) (f64_of_int 1024)) [inst, Label ''type'' typ]])"

definition emitOp :: "string \<Rightarrow> string \<Rightarrow> i64 \<Rightarrow> call list" where
  "emitOp inst typ tot =
     (if sint tot < 0 then [] else [Total ''mongo.ops_count'' (f64_i64 tot) [inst, Label ''type'' typ]])"

definition emitLatency :: "string \<Rightarrow> string \<Rightarrow> opLatency \<Rightarrow> opLatency \<Rightarrow> call list" where
  "emitLatency inst typ prev cur =
     (let deltaOps = diffCounter (Ops prev) (Ops cur) in
      if sint deltaOps \<le> 0 then []
      else
        let deltaLatency = diffCounter (Latency prev) (Latency cur) in
        if sint deltaLatency \<le> 0 then []
        else
          let avgMs = f64_div (f64_div (f64_i64 deltaLatency) (f64_i64 deltaOps)) (f64_of_int 1000) in
          if avgMs \<le> 0 then []
          else [Value ''mongo.op_latency_ms'' avgMs [inst, Label ''type'' typ]])"

definition status_calls :: "string \<Rightarrow> serverStatus \<Rightarrow> call list" where
  "status_calls inst s =
     emitConnection inst ''current'' (connCurrent s) @ emitConnection inst ''available'' (connAvailable s) @
     (if sint (Resident (Mem s)) \<ge> 0 then [Value ''mongo.mem.resident_mb'' (f64_i64 (Resident (Mem s))) [inst]] else []) @
     emitWTCache inst ''used'' (BytesCurrent (Cache (WiredTiger s))) @
     emitWTCache inst ''max'' (BytesMax (Cache (WiredTiger s))) @
     (if sint (Evictions (Cache (WiredTiger s))) \<ge> 0
      then [Total ''mongo.wt.cache.evictions_count'' (f64_i64 (Evictions (Cache (WiredTiger s)))) [inst]] else []) @
     emitOp inst ''insert'' (opInsert (OpCounters s)) @ emitOp inst ''query'' (opQuery (OpCounters s)) @
     emitOp inst ''update'' (opUpdate (OpCounters s)) @ emitOp inst ''delete'' (opDelete (OpCounters s)) @
     emitOp inst ''getmore'' (opGetMore (OpCounters s)) @ emitOp inst ''command'' (opCommand (OpCounters s))"

definition latency_calls :: "string \<Rightarrow> opLatencies option \<Rightarrow> opLatencies \<Rightarrow> call list" where
  "latency_calls inst prev cur =
     (case prev of
        None \<Rightarrow> []
      | Some p \<Rightarrow>
          emitLatency inst ''reads'' (latReads p) (latReads cur) @
          emitLatency inst ''writes'' (latWrites p) (latWrites cur) @
          emitLatency inst ''commands'' (latCommands p) (latCommands cur))"

subsection \<open>Connections and the schedule\<close>

text \<open>
  The driver: the number of the next handle, and the handles that are connected. \<open>drFails\<close> tells of which
  handles \<open>Disconnect\<close> returns an error (the code ignores it); such a connection may stay open, and is
  also in \<open>drStuck\<close>. \<open>contacts\<close> records which instance was contacted, when, and whether it failed. The last
  two are not in the code.
\<close>

record driver =
  drNext :: nat
  drOpen :: "nat list"
  drFails :: "nat \<Rightarrow> bool"
  drStuck :: "nat list"
  contacts :: "(nat \<times> int \<times> bool) list"

record mongo_answer =
  maConnect :: bool
  maPing :: bool
  maStatus :: "serverStatus option"

datatype mongo_error = ConnectFailed | PingFailed | StatusFailed

definition driver_connect :: "driver \<Rightarrow> nat \<times> driver" where
  "driver_connect d = (drNext d, d\<lparr>drNext := drNext d + 1, drOpen := drNext d # drOpen d\<rparr>)"

definition driver_disconnect :: "nat \<Rightarrow> driver \<Rightarrow> driver" where
  "driver_disconnect h d =
     (if drFails d h then d\<lparr>drStuck := h # drStuck d\<rparr> else d\<lparr>drOpen := remove1 h (drOpen d)\<rparr>)"

definition ensureClient :: "mongo_answer \<Rightarrow> instanceState \<Rightarrow> driver \<Rightarrow> (mongo_error + nat) \<times> instanceState \<times> driver" where
  "ensureClient ans inst d =
     (case isClient inst of
        Some h \<Rightarrow> (Inr h, inst, d)
      | None \<Rightarrow>
          (if \<not> maConnect ans then (Inl ConnectFailed, inst, d)
           else
             let (h, d) = driver_connect d in
             if \<not> maPing ans then (Inl PingFailed, inst, driver_disconnect h d)
             else (Inr h, inst\<lparr>isClient := Some h\<rparr>, d)))"

definition resetClient :: "instanceState \<Rightarrow> driver \<Rightarrow> instanceState \<times> driver" where
  "resetClient inst d =
     (case isClient inst of
        None \<Rightarrow> (inst, d)
      | Some h \<Rightarrow> (inst\<lparr>isClient := None\<rparr>, driver_disconnect h d))"

definition collectInstance ::
  "mongo_answer \<Rightarrow> instanceState \<Rightarrow> driver \<Rightarrow> (mongo_error + call list) \<times> instanceState \<times> driver" where
  "collectInstance ans inst0 d0 =
     (case ensureClient ans inst0 d0 of
        (Inl e, inst, d) \<Rightarrow> (Inl e, inst, d)
      | (Inr h, inst, d) \<Rightarrow>
          (case maStatus ans of
             None \<Rightarrow> (let (inst, d) = resetClient inst d in (Inl StatusFailed, inst, d))
           | Some status \<Rightarrow>
               (let instanceLabel = Label ''instance'' (instLabel (isInstance inst));
                    calls = status_calls instanceLabel status @ latency_calls instanceLabel (prevOpLat inst) (OpLatencies status) in
                (Inr calls, inst\<lparr>prevOpLat := Some (OpLatencies status)\<rparr>, d))))"

text \<open>\<open>now.Before(inst.nextAttempt)\<close>, which no time is for the zero time.\<close>

definition waiting :: "int \<Rightarrow> instanceState \<Rightarrow> bool" where
  "waiting now inst = (case nextAttempt inst of None \<Rightarrow> False | Some t \<Rightarrow> now < t)"

text \<open>
  \<open>Collect\<close>: the loop over the instances from number \<open>i\<close> on. \<open>alive\<close> is the context before each
  instance, \<open>ans\<close> what each server does.
\<close>

fun collect_instances ::
  "int \<Rightarrow> int \<Rightarrow> (nat \<Rightarrow> bool) \<Rightarrow> (nat \<Rightarrow> mongo_answer) \<Rightarrow> nat \<Rightarrow> instanceState list \<Rightarrow> driver \<Rightarrow>
     call list \<times> instanceState list \<times> driver" where
  "collect_instances retry now alive ans i [] d = ([], [], d)"
| "collect_instances retry now alive ans i (inst # rest) d =
     (if waiting now inst
      then
        let (calls, rest', d') = collect_instances retry now alive ans (i + 1) rest d in (calls, inst # rest', d')
      else if \<not> alive i then ([], inst # rest, d)
      else
        case collectInstance (ans i) inst d of
          (Inl e, inst, d) \<Rightarrow>
            (let inst = inst\<lparr>nextAttempt := Some (now + retry)\<rparr>;
                 d = d\<lparr>contacts := contacts d @ [(i, now, True)]\<rparr>;
                 (calls, rest', d') = collect_instances retry now alive ans (i + 1) rest d in
             (calls, inst # rest', d'))
        | (Inr calls, inst, d) \<Rightarrow>
            (let d = d\<lparr>contacts := contacts d @ [(i, now, False)]\<rparr>;
                 (more, rest', d') = collect_instances retry now alive ans (i + 1) rest d in
             (calls @ more, inst # rest', d')))"

definition collect_mongo ::
  "int \<Rightarrow> (nat \<Rightarrow> bool) \<Rightarrow> (nat \<Rightarrow> mongo_answer) \<Rightarrow> mongo_collector \<times> driver \<Rightarrow> call list \<times> mongo_collector \<times> driver" where
  "collect_mongo now alive ans s =
     (case collect_instances (retryEvery (fst s)) now alive ans 0 (instances (fst s)) (snd s) of
        (calls, insts, d) \<Rightarrow> (calls, (fst s)\<lparr>instances := insts\<rparr>, d))"

fun close_instances :: "instanceState list \<Rightarrow> driver \<Rightarrow> instanceState list \<times> driver" where
  "close_instances [] d = ([], d)"
| "close_instances (inst # rest) d =
     (let (inst', d1) = resetClient inst d; (rest', d2) = close_instances rest d1 in (inst' # rest', d2))"

definition close_mongo :: "mongo_collector \<times> driver \<Rightarrow> mongo_collector \<times> driver" where
  "close_mongo s = (case close_instances (instances (fst s)) (snd s) of (insts, d) \<Rightarrow> ((fst s)\<lparr>instances := insts\<rparr>, d))"

text \<open>A probe is a list of instances: it detects when there is one, and makes the collector.\<close>

definition detect_mongo :: "mongo_instance list \<Rightarrow> bool \<times> string" where
  "detect_mongo insts =
     (if length insts = 0 then (False, ''no instances configured'') else (True, ''enabled in config''))"

subsection \<open>Runs\<close>

datatype mongo_step = CollectAt int "nat \<Rightarrow> bool" "nat \<Rightarrow> mongo_answer" | CloseMongo

definition mongo_step :: "mongo_collector \<times> driver \<Rightarrow> mongo_step \<Rightarrow> mongo_collector \<times> driver" where
  "mongo_step s a =
     (case a of CollectAt now alive ans \<Rightarrow> snd (collect_mongo now alive ans s) | CloseMongo \<Rightarrow> close_mongo s)"

definition start_mongo :: "(nat \<Rightarrow> bool) \<Rightarrow> mongo_instance list \<Rightarrow> int \<Rightarrow> int \<Rightarrow> mongo_collector \<times> driver" where
  "start_mongo fails insts every retry =
     (NewCollector insts every retry, \<lparr>drNext = 0, drOpen = [], drFails = fails, drStuck = [], contacts = []\<rparr>)"

text \<open>The handles of a list of instances, and that the open connections are these, those of \<open>M\<close> and the stuck ones.\<close>

definition handles :: "instanceState list \<Rightarrow> nat list" where
  "handles insts = concat (map (\<lambda>inst. case isClient inst of None \<Rightarrow> [] | Some h \<Rightarrow> [h]) insts)"

definition held :: "(nat \<Rightarrow> bool) \<Rightarrow> nat multiset \<Rightarrow> instanceState list \<Rightarrow> driver \<Rightarrow> bool" where
  "held F M insts d \<longleftrightarrow>
     mset (drOpen d) = M + mset (handles insts) + mset (drStuck d) \<and> distinct (drOpen d) \<and>
     (\<forall>h \<in> set (drOpen d). h < drNext d) \<and> drFails d = F \<and> (\<forall>h \<in> set (drStuck d). F h)"

lemma handles_simps [simp]:
  "handles [] = []"
  "handles (inst # rest) = (case isClient inst of None \<Rightarrow> [] | Some h \<Rightarrow> [h]) @ handles rest"
  by (simp_all add: handles_def)

lemma held_shift: "held F M (inst # rest) d \<longleftrightarrow> held F (M + mset (handles [inst])) rest d"
  by (auto simp: held_def add.assoc split: option.split)

lemma held_contacts [simp]: "held F M insts (d\<lparr>contacts := cs\<rparr>) = held F M insts d"
  by (simp add: held_def)

lemma held_cong: "isClient inst' = isClient inst \<Longrightarrow> held F M (inst' # rest) d = held F M (inst # rest) d"
  by (simp add: held_def)

lemma driver_connect_held:
  assumes "held F M insts d" and "driver_connect d = (h, d')"
  shows "held F (add_mset h M) insts d'"
  using assms by (auto simp: driver_connect_def held_def less_SucI)

lemma driver_disconnect_held:
  assumes "held F (add_mset h M) insts d"
  shows "held F M insts (driver_disconnect h d)"
proof -
  have m: "mset (drOpen d) = add_mset h (M + mset (handles insts) + mset (drStuck d))"
    and d: "distinct (drOpen d)" "\<forall>h \<in> set (drOpen d). h < drNext d" "drFails d = F" "\<forall>h \<in> set (drStuck d). F h"
    using assms by (simp_all add: held_def)
  have "set (remove1 h (drOpen d)) \<subseteq> set (drOpen d)" by (rule set_remove1_subset)
  then show ?thesis using m d by (auto simp: held_def driver_disconnect_def)
qed

lemma held_client: "isClient inst = Some h \<Longrightarrow>
    held F M (inst # rest) d = held F (add_mset h M) (inst\<lparr>isClient := None\<rparr> # rest) d"
  by (simp add: held_def)

lemma resetClient_held:
  assumes "held F M (inst # rest) d" and "resetClient inst d = (inst', d')"
  shows "held F M (inst' # rest) d'" and "isClient inst' = None"
proof -
  show "isClient inst' = None" using assms(2) by (auto simp: resetClient_def split: option.split_asm)
  show "held F M (inst' # rest) d'"
    using assms by (cases "isClient inst") (auto simp: resetClient_def held_client intro: driver_disconnect_held)
qed

lemma ensureClient_held:
  assumes "held F M (inst # rest) d" and "ensureClient ans inst d = (r, inst', d')"
  shows "held F M (inst' # rest) d'"
proof (cases "isClient inst")
  case None
  obtain h d1 where c: "driver_connect d = (h, d1)" by fastforce
  note h = driver_connect_held [OF assms(1) c]
  then have "held F M (inst # rest) (driver_disconnect h d1)" by (rule driver_disconnect_held)
  moreover have "held F M (inst\<lparr>isClient := Some h\<rparr> # rest) d1" using h None by (simp add: held_def)
  ultimately show ?thesis
    using assms None by (auto simp: ensureClient_def c split: if_split_asm)
qed (use assms in \<open>auto simp: ensureClient_def\<close>)

lemma collectInstance_held:
  assumes "held F M (inst # rest) d" and "collectInstance ans inst d = (r, inst', d')"
  shows "held F M (inst' # rest) d'"
proof -
  obtain r1 inst1 d1 where e: "ensureClient ans inst d = (r1, inst1, d1)" by (metis prod_cases3)
  note h = ensureClient_held [OF assms(1) e]
  obtain inst2 d2 where z: "resetClient inst1 d1 = (inst2, d2)" by fastforce
  show ?thesis
    using assms(2) h resetClient_held(1) [OF h z]
    by (auto simp: collectInstance_def e z Let_def held_def split: sum.split_asm option.split_asm)
qed

text \<open>One turn of the loop: the instance waits, the context has ended, or the instance is contacted.\<close>

lemma collect_instances_cases:
  assumes "collect_instances retry now alive ans i (inst # rest) d = (calls, insts', d')"
  obtains
    (Waits) rest' where "waiting now inst" and "insts' = inst # rest'"
      and "collect_instances retry now alive ans (i + 1) rest d = (calls, rest', d')"
  | (Ended) "insts' = inst # rest" and "d' = d"
  | (Contacted) r inst1 d1 more rest' where "\<not> waiting now inst" and "collectInstance (ans i) inst d = (r, inst1, d1)"
      and "insts' = (if isl r then inst1\<lparr>nextAttempt := Some (now + retry)\<rparr> else inst1) # rest'"
      and "collect_instances retry now alive ans (i + 1) rest (d1\<lparr>contacts := contacts d1 @ [(i, now, isl r)]\<rparr>) = (more, rest', d')"
proof (cases "waiting now inst \<or> \<not> alive i")
  case True
  then show ?thesis using assms Waits Ended by (auto split: prod.split_asm if_split_asm)
next
  case False
  obtain r inst1 d1 where c: "collectInstance (ans i) inst d = (r, inst1, d1)" by (metis prod_cases3)
  show ?thesis
    using False assms Contacted [OF _ c]
    by (cases r) (auto simp: c Let_def split: prod.split_asm)
qed

lemma collect_instances_length:
  "collect_instances retry now alive ans i insts d = (calls, insts', d') \<Longrightarrow> length insts' = length insts"
proof (induction insts arbitrary: i d calls insts' d')
  case (Cons inst rest)
  from Cons.prems show ?case by (cases rule: collect_instances_cases) (use Cons.IH in auto)
qed simp

lemma close_instances_length: "close_instances insts d = (insts', d') \<Longrightarrow> length insts' = length insts"
  by (induction insts arbitrary: d insts' d') (auto split: prod.split_asm)

lemma collect_instances_held:
  assumes "held F M insts d" and "collect_instances retry now alive ans i insts d = (calls, insts', d')"
  shows "held F M insts' d'"
  using assms
proof (induction insts arbitrary: M i d calls insts' d')
  case (Cons inst rest)
  from Cons.prems(2) show ?case
  proof (cases rule: collect_instances_cases)
    case (Waits rest')
    then show ?thesis using Cons.IH [OF _ Waits(3)] Cons.prems(1) by (simp only: held_shift)
  next
    case Ended
    then show ?thesis using Cons.prems(1) by simp
  next
    case (Contacted r inst1 d1 more rest')
    have "held F M (inst1 # rest) (d1\<lparr>contacts := contacts d1 @ [(i, now, isl r)]\<rparr>)"
      using collectInstance_held [OF Cons.prems(1) Contacted(2)] by simp
    then have "held F M (inst1 # rest') d'" using Cons.IH [OF _ Contacted(4)] by (simp only: held_shift)
    then show ?thesis by (simp add: Contacted(3) held_def)
  qed
qed simp

lemma close_instances_held:
  assumes "held F M insts d" and "close_instances insts d = (insts', d')"
  shows "held F M insts' d' \<and> handles insts' = []"
  using assms
proof (induction insts arbitrary: M d insts' d')
  case (Cons inst rest)
  obtain inst1 d1 where r: "resetClient inst d = (inst1, d1)" by fastforce
  obtain rest' d2 where c: "close_instances rest d1 = (rest', d2)" by fastforce
  note h = resetClient_held [OF Cons.prems(1) r]
  then have "held F (M + mset (handles [inst1])) rest' d2 \<and> handles rest' = []"
    using Cons.IH [OF _ c] by (simp only: held_shift)
  then show ?case using Cons.prems(2) h(2) by (auto simp: r c held_shift)
qed simp

subsection \<open>The schedule of an instance\<close>

text \<open>The contacts of one instance: no contact within \<open>retry\<close> after one that failed.\<close>

definition contacts_of :: "nat \<Rightarrow> driver \<Rightarrow> (int \<times> bool) list" where
  "contacts_of i d = map snd (filter (\<lambda>e. fst e = i) (contacts d))"

definition spaced :: "int \<Rightarrow> (int \<times> bool) list \<Rightarrow> bool" where
  "spaced retry cs \<longleftrightarrow> sorted_wrt (\<lambda>(t, failed) (t', _). failed \<longrightarrow> t + retry \<le> t') cs"

definition due_ok :: "int \<Rightarrow> (int \<times> bool) list \<Rightarrow> instanceState \<Rightarrow> bool" where
  "due_ok retry cs inst \<longleftrightarrow>
     spaced retry cs \<and> (\<forall>t. (t, True) \<in> set cs \<longrightarrow> (\<exists>n. nextAttempt inst = Some n \<and> t + retry \<le> n))"

fun schedule_ok :: "int \<Rightarrow> nat \<Rightarrow> instanceState list \<Rightarrow> driver \<Rightarrow> bool" where
  "schedule_ok retry i [] d = True"
| "schedule_ok retry i (inst # rest) d =
     (due_ok retry (contacts_of i d) inst \<and> schedule_ok retry (i + 1) rest d)"

lemma schedule_ok_cong:
  "\<forall>k \<ge> i. contacts_of k d' = contacts_of k d \<Longrightarrow> schedule_ok retry i insts d' = schedule_ok retry i insts d"
  by (induction insts arbitrary: i) simp_all

lemma driver_contacts [simp]:
  "collectInstance ans inst d = (r, inst', d') \<Longrightarrow> contacts d' = contacts d \<and> nextAttempt inst' = nextAttempt inst"
  "resetClient inst d = (inst', d') \<Longrightarrow> contacts d' = contacts d \<and> nextAttempt inst' = nextAttempt inst"
  by (auto simp: collectInstance_def ensureClient_def resetClient_def driver_connect_def driver_disconnect_def Let_def
      split: option.split_asm if_split_asm)

lemma due_ok_contact:
  assumes "due_ok retry cs inst" and "\<not> waiting now inst" and "0 \<le> retry" and "nextAttempt inst1 = nextAttempt inst"
  shows "due_ok retry (cs @ [(now, failed)]) (if failed then inst1\<lparr>nextAttempt := Some (now + retry)\<rparr> else inst1)"
proof -
  have past: "t + retry \<le> now" if "(t, True) \<in> set cs" for t
    using assms(1,2) that by (force simp: due_ok_def waiting_def split: option.split_asm)
  have "spaced retry (cs @ [(now, failed)])"
    using assms(1) past by (auto simp: due_ok_def spaced_def sorted_wrt_append)
  moreover have "t + retry \<le> now + retry" if "(t, True) \<in> set cs" for t
    using past [OF that] assms(3) by simp
  ultimately show ?thesis using assms(1,4) by (auto simp: due_ok_def)
qed

lemma collect_instances_schedule:
  assumes "schedule_ok retry i insts d" and "0 \<le> retry"
    and "collect_instances retry now alive ans i insts d = (calls, insts', d')"
  shows "schedule_ok retry i insts' d' \<and> (\<forall>k < i. contacts_of k d' = contacts_of k d)"
  using assms
proof (induction insts arbitrary: i d calls insts' d')
  case (Cons inst rest)
  have due: "due_ok retry (contacts_of i d) inst" and rest: "schedule_ok retry (i + 1) rest d" using Cons.prems(1) by simp_all
  from Cons.prems(3) show ?case
  proof (cases rule: collect_instances_cases)
    case (Waits rest')
    then show ?thesis using Cons.IH [OF rest Cons.prems(2) Waits(3)] due by simp
  next
    case Ended
    then show ?thesis using Cons.prems(1) by simp
  next
    case (Contacted r inst1 d1 more rest')
    let ?d = "d1\<lparr>contacts := contacts d1 @ [(i, now, isl r)]\<rparr>"
    have own: "contacts_of i ?d = contacts_of i d @ [(now, isl r)]" and
      others: "\<forall>k. k \<noteq> i \<longrightarrow> contacts_of k ?d = contacts_of k d"
      using driver_contacts(1) [OF Contacted(2)] by (auto simp: contacts_of_def)
    have "schedule_ok retry (i + 1) rest ?d" using rest others by (subst schedule_ok_cong [of _ _ d]) auto
    from Cons.IH [OF this Cons.prems(2) Contacted(4)]
    have *: "schedule_ok retry (i + 1) rest' d'" "\<forall>k < i + 1. contacts_of k d' = contacts_of k ?d" by simp_all
    have "due_ok retry (contacts_of i d') (if isl r then inst1\<lparr>nextAttempt := Some (now + retry)\<rparr> else inst1)"
      using due_ok_contact [OF due Contacted(1) Cons.prems(2)] driver_contacts(1) [OF Contacted(2)] own *(2) by simp
    then show ?thesis using * others by (simp add: Contacted(3))
  qed
qed simp

lemma close_instances_schedule:
  assumes "schedule_ok retry i insts d" and "close_instances insts d = (insts', d')"
  shows "schedule_ok retry i insts' d' \<and> contacts d' = contacts d"
  using assms
proof (induction insts arbitrary: i d insts' d')
  case (Cons inst rest)
  obtain inst1 d1 where r: "resetClient inst d = (inst1, d1)" by fastforce
  obtain rest' d2 where c: "close_instances rest d1 = (rest', d2)" by fastforce
  note same = driver_contacts(2) [OF r]
  have "schedule_ok retry (i + 1) rest d1"
    using Cons.prems(1) same schedule_ok_cong [of "i + 1" d1 d retry rest] by (simp add: contacts_of_def)
  from Cons.IH [OF this c] show ?case
    using Cons.prems same by (auto simp: r c contacts_of_def due_ok_def)
qed simp

subsection \<open>Runs keep both\<close>

definition mongo_ok :: "(nat \<Rightarrow> bool) \<Rightarrow> nat \<Rightarrow> int \<Rightarrow> mongo_collector \<times> driver \<Rightarrow> bool" where
  "mongo_ok F n retry s \<longleftrightarrow>
     length (instances (fst s)) = n \<and> retryEvery (fst s) = retry \<and> 0 \<le> retry \<and> held F {#} (instances (fst s)) (snd s) \<and>
     schedule_ok retry 0 (instances (fst s)) (snd s)"

lemma mongo_step_ok [step_inv]:
  assumes "mongo_ok F n retry s"
  shows "mongo_ok F n retry (mongo_step s a)"
proof -
  obtain c d where s: "s = (c, d)" by fastforce
  have ok: "held F {#} (instances c) d" "schedule_ok retry 0 (instances c) d" "0 \<le> retry" "retryEvery c = retry"
    "length (instances c) = n"
    using assms by (simp_all add: mongo_ok_def s)
  show ?thesis
  proof (cases a)
    case (CollectAt now alive ans)
    obtain calls insts d' where r: "collect_instances retry now alive ans 0 (instances c) d = (calls, insts, d')"
      by (metis prod_cases3)
    show ?thesis
      using ok collect_instances_length [OF r] collect_instances_held [OF ok(1) r] collect_instances_schedule [OF ok(2,3) r]
      by (simp add: CollectAt s mongo_step_def collect_mongo_def r mongo_ok_def)
  next
    case CloseMongo
    obtain insts d' where r: "close_instances (instances c) d = (insts, d')" by fastforce
    show ?thesis
      using ok close_instances_length [OF r] close_instances_held [OF ok(1) r] close_instances_schedule [OF ok(2) r]
      by (simp add: CloseMongo s mongo_step_def close_mongo_def r mongo_ok_def)
  qed
qed

interpretation mongo_run: inv_steps mongo_step "mongo_ok F n retry" "\<lambda>a. True" for F n retry
  by unfold_locales (rule mongo_step_ok)

lemma schedule_ok_fresh:
  "contacts d = [] \<Longrightarrow> schedule_ok retry i insts d"
  by (induction insts arbitrary: i) (simp_all add: due_ok_def spaced_def contacts_of_def)

lemma mongo_ok_start: "mongo_ok fails (length insts) (if retry \<le> 0 then 60 * second else retry) (start_mongo fails insts every retry)"
proof -
  have "handles (instances (NewCollector insts every retry)) = []"
    by (simp add: NewCollector_def Let_def handles_def comp_def)
  then show ?thesis
    by (auto simp: mongo_ok_def start_mongo_def held_def schedule_ok_fresh)
      (auto simp: NewCollector_def Let_def second_def)
qed

lemma schedule_spaced:
  "schedule_ok retry i insts d \<Longrightarrow> j < length insts \<Longrightarrow> spaced retry (contacts_of (i + j) d)"
proof (induction insts arbitrary: i j)
  case (Cons inst rest)
  then show ?case using Cons.IH [of "i + 1" "j - 1"] by (cases j) (auto simp: due_ok_def)
qed simp

definition local_mongo :: mongo_instance where
  "local_mongo = \<lparr>URI = ''mongodb://db'', instLabel = ''db''\<rparr>"

definition no_ping :: mongo_answer where
  "no_ping = \<lparr>maConnect = True, maPing = False, maStatus = None\<rparr>"

text \<open>
  C24 (invariant). Over every run of collections and closes, whatever the servers and the driver do,
  the open connections are exactly those that the instances hold, one each, and those whose \<open>Disconnect\<close>
  returned an error: none leaks when a ping or a command fails, none is used after it was disconnected, and
  after \<open>Close\<close> only the latter can be open; none, if every \<open>Disconnect\<close> succeeds.
\<close>

theorem mongo_connections_accounted:
  fixes fails :: "nat \<Rightarrow> bool" and steps :: "mongo_step list" and insts :: "mongo_instance list" and every retry :: int
  defines "s \<equiv> run_steps mongo_step (start_mongo fails insts every retry) steps"
  shows "mset (drOpen (snd s)) = mset (handles (instances (fst s))) + mset (drStuck (snd s)) \<and> distinct (drOpen (snd s)) \<and>
    (\<forall>h \<in> set (drStuck (snd s)). fails h) \<and> (\<forall>h \<in> set (drOpen (snd (close_mongo s))). fails h)"
proof -
  have ok: "mongo_ok fails (length insts) (if retry \<le> 0 then 60 * second else retry) s"
    unfolding s_def by (rule mongo_run.run_keeps [OF mongo_ok_start]) simp
  obtain insts' d' where r: "close_instances (instances (fst s)) (snd s) = (insts', d')" by fastforce
  have h: "held fails {#} (instances (fst s)) (snd s)" using ok by (simp add: mongo_ok_def)
  note c = close_instances_held [OF h r]
  then have "mset (drOpen d') = mset (drStuck d')" by (simp add: held_def)
  then have "set (drOpen d') = set (drStuck d')" by (rule mset_eq_setD)
  then have "\<forall>h \<in> set (drOpen (snd (close_mongo s))). fails h" using c by (simp add: close_mongo_def r held_def)
  then show ?thesis using h by (simp add: held_def)
qed

text \<open>A server that does not answer a ping, and a \<open>Disconnect\<close> of the first connection that fails.\<close>

theorem mongo_connections_accounted_witness:
  "let s = run_steps mongo_step (start_mongo (\<lambda>h. h = 0) [local_mongo] 1 1) [CollectAt 5 (\<lambda>_. True) (\<lambda>_. no_ping)] in
    mset (drOpen (snd s)) = mset (handles (instances (fst s))) + mset (drStuck (snd s)) \<and> distinct (drOpen (snd s))"
  unfolding Let_def using mongo_connections_accounted by blast

text \<open>
  C25 (safety). A failing instance is left alone: over every run, with any clock, after a contact of
  an instance that failed the next contacts of it come at least \<open>retryEvery\<close> later (a minute when the
  configured interval is not positive).
\<close>

theorem mongo_retry_spacing:
  assumes "j < length insts"
  shows "spaced (if retry \<le> 0 then 60 * second else retry)
    (contacts_of j (snd (run_steps mongo_step (start_mongo fails insts every retry) steps)))"
proof -
  define r where "r = (if retry \<le> 0 then 60 * second else retry)"
  let ?s = "run_steps mongo_step (start_mongo fails insts every retry) steps"
  have "mongo_ok fails (length insts) r ?s"
    unfolding r_def by (rule mongo_run.run_keeps [OF mongo_ok_start]) simp
  then have "spaced r (contacts_of j (snd ?s))"
    using schedule_spaced [of r 0 "instances (fst ?s)" "snd ?s" j] assms by (simp add: mongo_ok_def)
  then show ?thesis by (simp only: r_def)
qed

definition down :: mongo_answer where
  "down = \<lparr>maConnect = False, maPing = False, maStatus = None\<rparr>"

definition two_minutes :: "mongo_step list" where
  "two_minutes = map (\<lambda>k. CollectAt (10 * int k * second) (\<lambda>_. True) (\<lambda>_. down)) [0..<12]"

theorem mongo_retry_spacing_witness:
  "spaced (60 * second) (contacts_of 0 (snd (run_steps mongo_step (start_mongo (\<lambda>_. False) [local_mongo] 1 (60 * second)) two_minutes))) \<and>
   contacts_of 0 (snd (run_steps mongo_step (start_mongo (\<lambda>_. False) [local_mongo] 1 (60 * second)) two_minutes)) =
     [(0, True), (60 * second, True)]"
proof -
  have "spaced (60 * second) (contacts_of 0 (snd (run_steps mongo_step (start_mongo (\<lambda>_. False) [local_mongo] 1 (60 * second)) two_minutes)))"
    using mongo_retry_spacing [of 0 "[local_mongo]" "60 * second" "\<lambda>_. False" 1 two_minutes] by (simp add: second_def)
  moreover have "contacts_of 0 (snd (run_steps mongo_step (start_mongo (\<lambda>_. False) [local_mongo] 1 (60 * second)) two_minutes)) =
     [(0, True), (60 * second, True)]"
    by code_simp
  ultimately show ?thesis by simp
qed

end
