(* ===== verification/HostConfig.thy ===== *)
theory HostConfig
  imports Nginx Mongo
begin

section \<open>The configuration of the host metrics program (cmd/statok-hostmetrics, internal/integrations)\<close>

text \<open>
  Where the configuration file is looked for, the environment files and the expansion of variables,
  and how the file, the flags and the host name become the configuration of a run. The process and
  the file system are a \<open>host_env\<close>; decoding YAML and parsing URLs are parameters. The functions of
  \<open>os\<close>, \<open>filepath\<close> and \<open>net\<close> that the code calls are written out for Linux.
\<close>

datatype file_result = Contents string | NotExist | ReadError

record host_env =
  Getenv :: "string \<Rightarrow> string"
  Geteuid :: int
  Hostname :: "string option"
  FileExists :: "string \<Rightarrow> bool"
  ReadFile :: "string \<Rightarrow> file_result"

subsection \<open>Functions of the standard library\<close>

text \<open>\<open>os.UserHomeDir\<close>: an error when \<open>HOME\<close> is empty.\<close>

definition UserHomeDir :: "host_env \<Rightarrow> string option" where
  "UserHomeDir env = (let h = Getenv env ''HOME'' in if h = [] then None else Some h)"

text \<open>\<open>filepath.Clean\<close> over the parts of a path; \<open>acc\<close> is the reversed result.\<close>

fun clean_parts :: "bool \<Rightarrow> string list \<Rightarrow> string list \<Rightarrow> string list" where
  "clean_parts rooted acc [] = rev acc"
| "clean_parts rooted acc (p # ps) =
     (if p = [] \<or> p = ''.'' then clean_parts rooted acc ps
      else if p = ''..'' then
        (case acc of
           [] \<Rightarrow> clean_parts rooted (if rooted then [] else [p]) ps
         | a # as \<Rightarrow> clean_parts rooted (if a = ''..'' then p # acc else as) ps)
      else clean_parts rooted (p # acc) ps)"

definition path_clean :: "string \<Rightarrow> string" where
  "path_clean path =
     (let rooted = has_prefix path ''/'';
          out = join_with ''/'' (clean_parts rooted [] (split_on (CHR ''/'') path)) in
      if rooted then CHR ''/'' # out else if out = [] then ''.'' else out)"

definition path_join :: "string list \<Rightarrow> string" where
  "path_join elems =
     (case dropWhile (\<lambda>e. e = []) elems of [] \<Rightarrow> [] | es \<Rightarrow> path_clean (join_with ''/'' es))"

text \<open>\<open>os.Expand\<close>: the name after a dollar sign and the number of bytes it takes.\<close>

definition isShellSpecialVar :: "char \<Rightarrow> bool" where
  "isShellSpecialVar c \<longleftrightarrow> c \<in> set ''*#$@!?-0123456789''"

definition isAlphaNum :: "char \<Rightarrow> bool" where
  "isAlphaNum c \<longleftrightarrow> c = CHR ''_'' \<or> is_digit c \<or> char_between (CHR ''a'') c (CHR ''z'') \<or> char_between (CHR ''A'') c (CHR ''Z'')"

definition getShellName :: "string \<Rightarrow> string \<times> nat" where
  "getShellName s =
     (case s of
        [] \<Rightarrow> ([], 0)
      | c # rest \<Rightarrow>
          (if c = CHR ''{'' then
             (if length s > 2 \<and> isShellSpecialVar (s ! 1) \<and> s ! 2 = CHR ''}'' then ([s ! 1], 3)
              else case index_byte rest (CHR ''}'') of
                None \<Rightarrow> ([], 1)
              | Some n \<Rightarrow> (if n = 0 then ([], 2) else (take n rest, n + 2)))
           else if isShellSpecialVar c then ([c], 1)
           else (let name = takeWhile isAlphaNum s in (name, length name))))"

function Expand :: "(string \<Rightarrow> string) \<Rightarrow> string \<Rightarrow> string" where
  "Expand mapping s =
     (case s of
        [] \<Rightarrow> []
      | c # rest \<Rightarrow>
          (if c = CHR ''$'' \<and> rest \<noteq> [] then
             (case getShellName rest of
                (name, w) \<Rightarrow>
                  (if name = [] \<and> w > 0 then [] else if name = [] then [c] else mapping name) @
                  Expand mapping (drop w rest))
           else c # Expand mapping rest))"
  by pat_completeness auto
termination
  by (relation "measure (\<lambda>(mapping, s). length s)") auto

declare Expand.simps [simp del]

text \<open>\<open>net.SplitHostPort\<close>, \<open>None\<close> for an error.\<close>

definition last_index :: "string \<Rightarrow> char \<Rightarrow> nat option" where
  "last_index s c = (case index_byte (rev s) c of None \<Rightarrow> None | Some n \<Rightarrow> Some (length s - 1 - n))"

definition SplitHostPort :: "string \<Rightarrow> (string \<times> string) option" where
  "SplitHostPort hostport =
     (case last_index hostport (CHR '':'') of
        None \<Rightarrow> None
      | Some i \<Rightarrow>
          (if has_prefix hostport ''['' then
             (case index_byte hostport (CHR '']'') of
                None \<Rightarrow> None
              | Some end \<Rightarrow>
                  (if end + 1 \<noteq> i then None
                   else if CHR ''['' \<in> set (drop 1 hostport) then None
                   else if CHR '']'' \<in> set (drop (end + 1) hostport) then None
                   else Some (take (end - 1) (drop 1 hostport), drop (i + 1) hostport)))
           else if CHR '':'' \<in> set (take i hostport) then None
           else if CHR ''['' \<in> set hostport \<or> CHR '']'' \<in> set hostport then None
           else Some (take i hostport, drop (i + 1) hostport)))"

subsection \<open>The file and its place\<close>

definition configEnvVar :: string where "configEnvVar = ''STATOK_CONFIG''"
definition defaultConfigName :: string where "defaultConfigName = ''hostmetrics.yaml''"
definition mongoRetryInterval :: int where "mongoRetryInterval = 60 * second"

record agentConfig =
  acWorkload :: "string option"

record mongoInstanceConfig =
  micURI :: string

record mongoConfig =
  mcEnabled :: "bool option"
  mcInstances :: "mongoInstanceConfig list"

record nginxConfig =
  ncEnabled :: "bool option"
  ncEndpoint :: string

record integrationsConfig =
  icMongo :: mongoConfig
  icNginx :: nginxConfig

record fileConfig =
  EnvFiles :: "string list"
  Agent :: agentConfig
  Integrations :: integrationsConfig

record runtimeConfig =
  Workload :: string
  MongoEnabled :: bool
  MongoInstances :: "mongo_instance list"
  NginxEnabled :: bool
  NginxEndpoint :: string

record configSource =
  Path :: string
  Explicit :: bool

datatype config_error =
    ReadConfig string
  | ParseConfig string
  | ReadEnvFile string
  | ExpectedKeyValue string nat
  | EmptyKey string nat
  | WorkloadEmpty
  | HostnameLookup
  | HostnameEmpty
  | NoMongoInstances
  | EmptyURI nat
  | BadInstance nat string
  | BadNginxEndpoint

definition fileExists :: "host_env \<Rightarrow> string \<Rightarrow> bool" where
  "fileExists env path = (if trim_space path = [] then False else FileExists env path)"

definition userConfigPath :: "host_env \<Rightarrow> string" where
  "userConfigPath env =
     (let xdg = trim_space (Getenv env ''XDG_CONFIG_HOME'') in
      if xdg \<noteq> [] then path_join [xdg, ''statok'', defaultConfigName]
      else case UserHomeDir env of
        None \<Rightarrow> []
      | Some home \<Rightarrow>
          (if trim_space home = [] then [] else path_join [home, ''.config'', ''statok'', defaultConfigName]))"

definition defaultConfigPaths :: "host_env \<Rightarrow> string list" where
  "defaultConfigPaths env =
     (let userPath = userConfigPath env; systemPath = path_join [''/etc'', ''statok'', defaultConfigName];
          opt = (\<lambda>p. if p \<noteq> [] then [p] else []) in
      if Geteuid env = 0 then opt systemPath @ opt userPath else opt userPath @ opt systemPath)"

definition expandHome :: "host_env \<Rightarrow> string \<Rightarrow> string" where
  "expandHome env path =
     (if path = [] then path
      else if path = ''~'' then (case UserHomeDir env of Some home \<Rightarrow> home | None \<Rightarrow> path)
      else if has_prefix path ''~/'' then
        (case UserHomeDir env of Some home \<Rightarrow> path_join [home, trim_prefix path ''~/''] | None \<Rightarrow> path)
      else path)"

definition resolveConfigSource :: "host_env \<Rightarrow> string \<Rightarrow> configSource \<times> string list" where
  "resolveConfigSource env flagPath =
     (let path = trim_space flagPath in
      if path \<noteq> [] then
        (let path = expandHome env path in (\<lparr>Path = path, Explicit = True\<rparr>, [path]))
      else
        let envPath = trim_space (Getenv env configEnvVar) in
        if envPath \<noteq> [] then
          (let envPath = expandHome env envPath in (\<lparr>Path = envPath, Explicit = True\<rparr>, [envPath]))
        else
          let paths = defaultConfigPaths env in
          case find (fileExists env) paths of
            Some path \<Rightarrow> (\<lparr>Path = path, Explicit = False\<rparr>, paths)
          | None \<Rightarrow> (\<lparr>Path = [], Explicit = False\<rparr>, paths))"

subsection \<open>Environment files\<close>

definition strip_quotes :: "string \<Rightarrow> string" where
  "strip_quotes v =
     (if length v \<ge> 2 \<and>
         ((hd v = CHR 0x22 \<and> last v = CHR 0x22) \<or> (hd v = CHR 0x27 \<and> last v = CHR 0x27))
      then butlast (tl v) else v)"

definition strip_export :: "string \<Rightarrow> string" where
  "strip_export line =
     (if has_prefix line ''export '' then trim_space (drop 7 line)
      else if has_prefix line (''export'' @ [CHR 0x09]) then trim_space (drop 7 line)
      else line)"

text \<open>One line, with its number: unchanged map, an assignment or an error.\<close>

definition env_line :: "string \<Rightarrow> nat \<Rightarrow> string \<Rightarrow> (string \<rightharpoonup> string) \<Rightarrow> config_error + (string \<rightharpoonup> string)" where
  "env_line path n line0 env =
     (let line = trim_space line0 in
      if line = [] \<or> has_prefix line ''#'' then Inr env
      else
        let line = strip_export line in
        case index_byte line (CHR ''='') of
          None \<Rightarrow> Inl (ExpectedKeyValue path n)
        | Some eq \<Rightarrow>
            (if eq = 0 then Inl (ExpectedKeyValue path n)
             else
               let key = trim_space (take eq line); v = trim_space (drop (eq + 1) line) in
               if key = [] then Inl (EmptyKey path n)
               else Inr (env(key \<mapsto> strip_quotes v))))"

fun env_lines :: "string \<Rightarrow> nat \<Rightarrow> string list \<Rightarrow> (string \<rightharpoonup> string) \<Rightarrow> config_error + (string \<rightharpoonup> string)" where
  "env_lines path n [] env = Inr env"
| "env_lines path n (line # rest) env =
     (case env_line path n line env of Inl e \<Rightarrow> Inl e | Inr env' \<Rightarrow> env_lines path (n + 1) rest env')"

fun env_files_loop :: "host_env \<Rightarrow> string list \<Rightarrow> (string \<rightharpoonup> string) \<Rightarrow> config_error + (string \<rightharpoonup> string)" where
  "env_files_loop henv [] env = Inr env"
| "env_files_loop henv (rawPath # rest) env =
     (let path = expandHome henv (trim_space rawPath) in
      if path = [] then env_files_loop henv rest env
      else case ReadFile henv path of
        NotExist \<Rightarrow> env_files_loop henv rest env
      | ReadError \<Rightarrow> Inl (ReadEnvFile path)
      | Contents data \<Rightarrow>
          (case env_lines path 1 (split_on (CHR 0x0A) data) env of
             Inl e \<Rightarrow> Inl e
           | Inr env' \<Rightarrow> env_files_loop henv rest env'))"

definition loadEnvFiles :: "host_env \<Rightarrow> string list \<Rightarrow> config_error + (string \<rightharpoonup> string)" where
  "loadEnvFiles henv paths = env_files_loop henv paths Map.empty"

text \<open>
  The expansion of every string of the configuration. The code walks over the structure by
  reflection; here it is written out field by field.
\<close>

definition expand_string :: "host_env \<Rightarrow> (string \<rightharpoonup> string) \<Rightarrow> string \<Rightarrow> string" where
  "expand_string henv env s =
     Expand (\<lambda>key. case env key of Some v \<Rightarrow> v | None \<Rightarrow> Getenv henv key) s"

definition expandEnvStringsWithMap :: "host_env \<Rightarrow> (string \<rightharpoonup> string) \<Rightarrow> fileConfig \<Rightarrow> fileConfig" where
  "expandEnvStringsWithMap henv env cfg =
     (let ex = expand_string henv env; ints = Integrations cfg in
      \<lparr>EnvFiles = map ex (EnvFiles cfg),
       Agent = \<lparr>acWorkload = map_option ex (acWorkload (Agent cfg))\<rparr>,
       Integrations =
         \<lparr>icMongo = \<lparr>mcEnabled = mcEnabled (icMongo ints),
            mcInstances = map (\<lambda>i. \<lparr>micURI = ex (micURI i)\<rparr>) (mcInstances (icMongo ints))\<rparr>,
          icNginx = \<lparr>ncEnabled = ncEnabled (icNginx ints), ncEndpoint = ex (ncEndpoint (icNginx ints))\<rparr>\<rparr>\<rparr>)"

definition empty_config :: fileConfig where
  "empty_config =
     \<lparr>EnvFiles = [], Agent = \<lparr>acWorkload = None\<rparr>,
      Integrations = \<lparr>icMongo = \<lparr>mcEnabled = None, mcInstances = []\<rparr>,
        icNginx = \<lparr>ncEnabled = None, ncEndpoint = []\<rparr>\<rparr>\<rparr>"

definition loadFileConfig ::
  "host_env \<Rightarrow> (string \<Rightarrow> fileConfig option) \<Rightarrow> configSource \<Rightarrow> config_error + fileConfig option" where
  "loadFileConfig henv yaml source =
     (if trim_space (Path source) = [] then Inr None
      else case ReadFile henv (Path source) of
        NotExist \<Rightarrow> (if \<not> Explicit source then Inr None else Inl (ReadConfig (Path source)))
      | ReadError \<Rightarrow> Inl (ReadConfig (Path source))
      | Contents data \<Rightarrow>
          (if trim_space data = [] then Inr (Some empty_config)
           else case yaml data of
             None \<Rightarrow> Inl (ParseConfig (Path source))
           | Some cfg \<Rightarrow>
               (case loadEnvFiles henv (EnvFiles cfg) of
                  Inl e \<Rightarrow> Inl e
                | Inr env \<Rightarrow> Inr (Some (expandEnvStringsWithMap henv env cfg)))))"

subsection \<open>The configuration of a run\<close>

definition hostnameFromHost :: "string \<Rightarrow> string" where
  "hostnameFromHost host =
     (if host = [] then host
      else if has_prefix host ''['' then
        (case SplitHostPort host of
           Some (h, _) \<Rightarrow> h
         | None \<Rightarrow> trim_suffix (trim_prefix host ''['') '']'')
      else case SplitHostPort host of
        Some (h, _) \<Rightarrow> h
      | None \<Rightarrow>
          (if count_list host (CHR '':'') = 1 then
             (let parts = split_on (CHR '':'') host in if length parts = 2 then parts ! 0 else host)
           else host))"

text \<open>\<open>url_host\<close> gives for a URL its host, or that it does not parse.\<close>

definition InstanceLabelFromURI :: "(string \<Rightarrow> string option) \<Rightarrow> string \<Rightarrow> string + string" where
  "InstanceLabelFromURI url_host uri =
     (let u = trim_space uri in
      if u = [] then Inl ''uri is empty''
      else
        let u = (if \<not> str_contains u ''://'' then ''scheme://'' @ u else u) in
        case url_host u of
          None \<Rightarrow> Inl ''parse uri''
        | Some parsed \<Rightarrow>
            (let host = trim_space parsed in
             if host = [] then Inl ''uri host is empty''
             else
               let host = (case index_byte host (CHR '','') of Some idx \<Rightarrow> trim_space (take idx host) | None \<Rightarrow> host);
                   host = trim_space (hostnameFromHost host) in
               if host = [] then Inl ''uri host is empty'' else Inr host))"

definition resolveWorkload :: "host_env \<Rightarrow> fileConfig option \<Rightarrow> string \<Rightarrow> bool \<Rightarrow> config_error + string" where
  "resolveWorkload henv cfg workloadFlag workloadFlagSet =
     (case (case cfg of None \<Rightarrow> None | Some c \<Rightarrow> acWorkload (Agent c)) of
        Some w \<Rightarrow>
          (let workload = trim_space w in if workload = [] then Inl WorkloadEmpty else Inr workload)
      | None \<Rightarrow>
          (let workload = trim_space workloadFlag in
           if workloadFlagSet then (if workload = [] then Inl WorkloadEmpty else Inr workload)
           else if workload \<noteq> [] then Inr workload
           else case Hostname henv of
             None \<Rightarrow> Inl HostnameLookup
           | Some host \<Rightarrow>
               (let workload = trim_space host in if workload = [] then Inl HostnameEmpty else Inr workload)))"

fun mongo_instances :: "(string \<Rightarrow> string option) \<Rightarrow> nat \<Rightarrow> mongoInstanceConfig list \<Rightarrow> config_error + mongo_instance list" where
  "mongo_instances url_host i [] = Inr []"
| "mongo_instances url_host i (inst # rest) =
     (let uri = trim_space (micURI inst) in
      if uri = [] then Inl (EmptyURI i)
      else case InstanceLabelFromURI url_host uri of
        Inl e \<Rightarrow> Inl (BadInstance i e)
      | Inr label \<Rightarrow>
          (case mongo_instances url_host (i + 1) rest of
             Inl e \<Rightarrow> Inl e
           | Inr insts \<Rightarrow> Inr (\<lparr>URI = uri, instLabel = label\<rparr> # insts)))"

text \<open>Whether MongoDB is on: the instances, or an error; off is the empty list and \<open>False\<close>.\<close>

definition resolve_mongo :: "(string \<Rightarrow> string option) \<Rightarrow> mongoConfig \<Rightarrow> config_error + (bool \<times> mongo_instance list)" where
  "resolve_mongo url_host m =
     (if mcEnabled m = Some False then Inr (False, [])
      else if length (mcInstances m) = 0 then
        (if mcEnabled m = Some True then Inl NoMongoInstances else Inr (False, []))
      else case mongo_instances url_host 0 (mcInstances m) of
        Inl e \<Rightarrow> Inl e
      | Inr insts \<Rightarrow> Inr (True, insts))"

definition resolve_nginx ::
  "(string \<Rightarrow> url option) \<Rightarrow> (url \<Rightarrow> string) \<Rightarrow> (url \<Rightarrow> string) \<Rightarrow> nginxConfig \<Rightarrow> config_error + (bool \<times> string)" where
  "resolve_nginx url_parse url_string host_of n =
     (if ncEnabled n = Some False then Inr (False, [])
      else
        let endpoint = ncEndpoint n in
        if trim_space endpoint \<noteq> [] then
          (let endpoint = NormalizeEndpoint url_parse url_string endpoint in
           if ValidateEndpoint url_parse host_of endpoint then Inr (True, endpoint) else Inl BadNginxEndpoint)
        else Inr (True, endpoint))"

definition resolveRuntimeConfig ::
  "host_env \<Rightarrow> (string \<Rightarrow> url option) \<Rightarrow> (url \<Rightarrow> string) \<Rightarrow> (url \<Rightarrow> string) \<Rightarrow>
     fileConfig option \<Rightarrow> string \<Rightarrow> bool \<Rightarrow> config_error + runtimeConfig" where
  "resolveRuntimeConfig henv url_parse url_string host_of cfg workloadFlag workloadFlagSet =
     (case resolveWorkload henv cfg workloadFlag workloadFlagSet of
        Inl e \<Rightarrow> Inl e
      | Inr workload \<Rightarrow>
          (case cfg of
             None \<Rightarrow> Inr \<lparr>Workload = workload, MongoEnabled = False, MongoInstances = [], NginxEnabled = True, NginxEndpoint = []\<rparr>
           | Some c \<Rightarrow>
               (case resolve_mongo (map_option host_of \<circ> url_parse) (icMongo (Integrations c)) of
                  Inl e \<Rightarrow> Inl e
                | Inr (mongoOn, insts) \<Rightarrow>
                    (case resolve_nginx url_parse url_string host_of (icNginx (Integrations c)) of
                       Inl e \<Rightarrow> Inl e
                     | Inr (nginxOn, endpoint) \<Rightarrow>
                         Inr \<lparr>Workload = workload, MongoEnabled = mongoOn, MongoInstances = insts,
                              NginxEnabled = nginxOn, NginxEndpoint = endpoint\<rparr>))))"

subsection \<open>Environment files, read back\<close>

text \<open>
  An assignment as it is written in an environment file: indented, perhaps exported, the value in
  single or double quotes.
\<close>

record assignment =
  asIndent :: nat
  asExport :: bool
  asKey :: string
  asQuote :: char
  asValue :: string

definition assignment_text :: "assignment \<Rightarrow> string" where
  "assignment_text a =
     spaces (asIndent a) @ (if asExport a then ''export '' else []) @ asKey a @ CHR ''='' # asQuote a # asValue a @ [asQuote a]"

definition assignment_ok :: "assignment \<Rightarrow> bool" where
  "assignment_ok a \<longleftrightarrow>
     word_text (asKey a) \<and> CHR ''='' \<notin> set (asKey a) \<and> hd (asKey a) \<noteq> CHR ''#'' \<and>
     asQuote a \<in> {CHR 0x22, CHR 0x27} \<and> CHR 0x0A \<notin> set (asValue a)"

definition env_text :: "assignment list \<Rightarrow> string" where
  "env_text as = concat (map (\<lambda>a. assignment_text a @ [CHR 0x0A]) as)"

lemma strip_quotes_quoted: "q \<in> {CHR 0x22, CHR 0x27} \<Longrightarrow> strip_quotes (q # v @ [q]) = v"
  by (auto simp: strip_quotes_def)

lemma env_line_assignment:
  assumes "assignment_ok a"
  shows "env_line path n (assignment_text a) env = Inr (env(asKey a \<mapsto> asValue a))"
proof -
  let ?q = "asQuote a" and ?k = "asKey a"
  let ?quoted = "?q # asValue a @ [?q]"
  let ?body = "?k @ CHR ''='' # ?quoted"
  have key: "word_text ?k" "CHR ''='' \<notin> set ?k" "hd ?k \<noteq> CHR ''#''" "?k \<noteq> []"
    and quote: "?q \<in> {CHR 0x22, CHR 0x27}" "plain_char ?q"
    using assms by (auto simp: assignment_ok_def word_text_def plain_char_def)
  have hd_key: "plain_char (hd ?k)" using word_hd_last [OF key(1)] by simp
  have trim: "trim_space ?quoted = ?quoted" using trim_space_spaces [of ?quoted 0 0] quote(2) by simp
  have trim_body: "trim_space (spaces i @ ?body) = ?body" for i
    using trim_space_spaces [of ?body i 0] key(4) hd_key quote(2) by simp
  have trim_export: "trim_space (spaces i @ ''export '' @ ?body) = ''export '' @ ?body" for i
    using trim_space_spaces [of "''export '' @ ?body" i 0] quote(2) by (simp add: plain_char_def)
  have not_export: "\<not> has_prefix ?body (''export'' @ [c])" if "c \<noteq> CHR ''=''" "\<not> plain_char c" for c
  proof
    assume "has_prefix ?body (''export'' @ [c])"
    then obtain zs where z: "?body = (''export'' @ [c]) @ zs" by (auto simp: has_prefix_def prefix_def)
    show False
    proof (cases "length ?k \<le> 6")
      case True
      then have "CHR ''='' \<in> set (take 7 ?body)" by (auto simp: take_Cons')
      then show False using that(1) unfolding z by simp
    next
      case False
      then have "?body ! 6 = ?k ! 6" by (simp add: nth_append)
      moreover have "?body ! 6 = c" unfolding z by (simp add: nth_append)
      moreover have "plain_char (?k ! 6)" using key(1) False by (auto simp: word_text_def list_all_length)
      ultimately show False using that(2) by simp
    qed
  qed
  have strip: "strip_export ?body = ?body"
    using not_export [of "CHR '' ''"] not_export [of "CHR 0x09"] by (simp add: strip_export_def plain_char_def)
  have strip': "strip_export (''export '' @ ?body) = ?body"
    using trim_body [of 0] by (simp add: strip_export_def has_prefix_def)
  have line: "trim_space (assignment_text a) = (if asExport a then ''export '' else []) @ ?body"
    using trim_body trim_export by (simp add: assignment_text_def)
  have "\<not> has_prefix ?body ''#''" using key(3,4) by (cases ?k) (auto simp: has_prefix_def)
  then show ?thesis
    unfolding env_line_def line
    using strip strip' key quote trim index_byte_append [OF key(2), of ?quoted] trim_space_word [OF key(1)] strip_quotes_quoted [OF quote(1), of "asValue a"]
    by (auto simp: Let_def has_prefix_def)
qed

lemma env_lines_assignments:
  assumes "\<forall>a \<in> set as. assignment_ok a"
  shows "env_lines path n (map assignment_text as @ [[]]) env = Inr (env ++ map_of (rev (map (\<lambda>a. (asKey a, asValue a)) as)))"
  using assms
proof (induction as arbitrary: n env)
  case Nil
  then show ?case by (simp add: env_line_def)
next
  case (Cons a as)
  then show ?case by (simp add: env_line_assignment)
qed

lemma assignment_one_line: "assignment_ok a \<Longrightarrow> CHR 0x0A \<notin> set (assignment_text a)"
  by (auto simp: assignment_ok_def assignment_text_def spaces_def word_text_def list_all_iff plain_char_def)

text \<open>
  C26 (roundtrip). Whatever assignments are written into an environment file, with any values that
  hold no line feed (also quotes, equals signs, dollar signs and blanks), in single or double
  quotes, with or without \<open>export\<close>: loading the file gives exactly them, the last one of a name
  counting; and files that do not exist change nothing.
\<close>

theorem env_file_roundtrip:
  assumes "\<forall>a \<in> set as. assignment_ok a" and "expandHome henv (trim_space raw) = path" and "path \<noteq> []"
    and "ReadFile henv path = Contents (env_text as)"
    and "\<forall>m \<in> set missing. ReadFile henv (expandHome henv (trim_space m)) = NotExist"
  shows "loadEnvFiles henv (missing @ [raw]) = Inr (map_of (rev (map (\<lambda>a. (asKey a, asValue a)) as)))"
proof -
  have skip: "env_files_loop henv (missing @ rest) env = env_files_loop henv rest env" for rest env
    using assms(5) by (induction missing) (auto simp: Let_def)
  have "split_on (CHR 0x0A) (env_text as) = map assignment_text as @ [[]]"
    using split_on_concat [of "map assignment_text as" "CHR 0x0A"] assms(1) assignment_one_line
    by (auto simp: env_text_def comp_def)
  then show ?thesis
    using env_lines_assignments [OF assms(1), of path 1 Map.empty] assms(2-4)
    by (simp add: loadEnvFiles_def skip Let_def)
qed
definition secret_lines :: "assignment list" where
  "secret_lines =
     [\<lparr>asIndent = 2, asExport = True, asKey = ''MONGO_PASSWORD'', asQuote = CHR 0x27, asValue = ''old''\<rparr>,
      \<lparr>asIndent = 0, asExport = False, asKey = ''MONGO_PASSWORD'', asQuote = CHR 0x22, asValue = (''a = $b '' @ CHR 0x22 # ''c '')\<rparr>]"

definition secret_env :: host_env where
  "secret_env =
     \<lparr>Getenv = (\<lambda>_. []), Geteuid = 0, Hostname = Some ''db1'', FileExists = (\<lambda>_. False),
      ReadFile = (\<lambda>p. if p = ''/etc/agent.env'' then Contents (env_text secret_lines) else NotExist)\<rparr>"

theorem env_file_roundtrip_witness:
  "\<exists>env. loadEnvFiles secret_env [''/none'', ''/etc/agent.env''] = Inr env \<and> env ''MONGO_PASSWORD'' = Some (''a = $b '' @ CHR 0x22 # ''c '')"
proof -
  have ok: "\<forall>a \<in> set secret_lines. assignment_ok a"
    by (simp add: secret_lines_def assignment_ok_def plain_char_def)
  have "word_text ''/etc/agent.env''" "word_text ''/none''" by (simp_all add: plain_char_def)
  then have "trim_space ''/etc/agent.env'' = ''/etc/agent.env''" "trim_space ''/none'' = ''/none''"
    by (simp_all only: trim_space_word)
  with env_file_roundtrip [OF ok, of secret_env "''/etc/agent.env''" "''/etc/agent.env''" "[''/none'']"]
  have "loadEnvFiles secret_env [''/none'', ''/etc/agent.env''] =
      Inr (map_of (rev (map (\<lambda>a. (asKey a, asValue a)) secret_lines)))"
    by (simp add: secret_env_def expandHome_def has_prefix_def)
  then show ?thesis by (simp add: secret_lines_def)
qed

text \<open>
  The names of the environment files are taken before the expansion, so a variable in one is not
  replaced: the file is looked for under the name with the dollar sign.
\<close>

lemma env_file_names_not_expanded:
  assumes "Path src = ''/etc/statok/hostmetrics.yaml''" and "ReadFile henv (Path src) = Contents data"
    and "trim_space data \<noteq> []" and "yaml data = Some cfg" and "EnvFiles cfg = [''$DIR/agent.env'']"
    and "ReadFile henv ''$DIR/agent.env'' = NotExist"
  shows "loadFileConfig henv yaml src = Inr (Some (expandEnvStringsWithMap henv Map.empty cfg))"
proof -
  have "word_text ''$DIR/agent.env''" "word_text ''/etc/statok/hostmetrics.yaml''" by (simp_all add: plain_char_def)
  then have "trim_space ''$DIR/agent.env'' = ''$DIR/agent.env''"
    "trim_space ''/etc/statok/hostmetrics.yaml'' = ''/etc/statok/hostmetrics.yaml''"
    by (simp_all only: trim_space_word)
  then show ?thesis
    using assms by (simp add: loadFileConfig_def loadEnvFiles_def Let_def expandHome_def has_prefix_def)
qed

subsection \<open>Hosts\<close>

lemma last_index_append: "c \<notin> set b \<Longrightarrow> last_index (a @ c # b) c = Some (length a)"
  using index_byte_append [of c "rev b" "rev a"] by (simp add: last_index_def)

lemma hostname_of_hosts:
  assumes "set h \<inter> set '':[]'' = {}" and "set port \<inter> set '':[]'' = {}" and "set v6 \<inter> set ''[]'' = {}"
  shows "hostnameFromHost (h @ CHR '':'' # port) = h" and "hostnameFromHost h = h"
    and "hostnameFromHost (CHR ''['' # v6 @ CHR '']'' # CHR '':'' # port) = v6"
    and "hostnameFromHost (CHR ''['' # v6 @ [CHR '']'']) = v6"
proof -
  have c: "CHR '':'' \<notin> set h" "CHR ''['' \<notin> set h" "CHR '']'' \<notin> set h"
    "CHR '':'' \<notin> set port" "CHR ''['' \<notin> set port" "CHR '']'' \<notin> set port" "CHR ''['' \<notin> set v6" "CHR '']'' \<notin> set v6"
    using assms by auto
  have pre: "\<not> has_prefix (h @ CHR '':'' # port) ''[''" "\<not> has_prefix h ''[''"
    using c by (cases h; auto simp: has_prefix_def)+
  show "hostnameFromHost (h @ CHR '':'' # port) = h"
    using c pre last_index_append [OF c(4), of h] by (simp add: hostnameFromHost_def SplitHostPort_def)
  show "hostnameFromHost h = h"
    using c pre by (simp add: hostnameFromHost_def SplitHostPort_def last_index_def index_byte_def)
  have "last_index (CHR ''['' # v6 @ CHR '']'' # CHR '':'' # port) (CHR '':'') = Some (length v6 + 2)"
    using last_index_append [OF c(4), of "CHR ''['' # v6 @ [CHR '']'']"] by simp
  moreover have "index_byte (CHR ''['' # v6 @ CHR '']'' # CHR '':'' # port) (CHR '']'') = Some (length v6 + 1)"
    using index_byte_append [of "CHR '']''" "CHR ''['' # v6" "CHR '':'' # port"] c by simp
  ultimately show "hostnameFromHost (CHR ''['' # v6 @ CHR '']'' # CHR '':'' # port) = v6"
    using c by (simp add: hostnameFromHost_def SplitHostPort_def has_prefix_def)
  have "index_byte (CHR ''['' # v6 @ [CHR '']'']) (CHR '']'') = Some (length v6 + 1)"
    using index_byte_append [of "CHR '']''" "CHR ''['' # v6" "[]"] c by simp
  moreover have "last_index (CHR ''['' # v6 @ [CHR '']'']) (CHR '':'') \<noteq> Some (length v6 + 2)"
    by (auto simp: last_index_def split: option.split)
  ultimately have "SplitHostPort (CHR ''['' # v6 @ [CHR '']'']) = None"
    by (auto simp: SplitHostPort_def has_prefix_def split: option.split)
  then show "hostnameFromHost (CHR ''['' # v6 @ [CHR '']'']) = v6"
    by (simp add: hostnameFromHost_def has_prefix_def trim_prefix_def trim_suffix_def suffix_def)
qed

subsection \<open>What a configuration holds\<close>

lemma instance_label_not_Nil: "InstanceLabelFromURI url_host uri = Inr l \<Longrightarrow> l \<noteq> []"
  by (auto simp: InstanceLabelFromURI_def Let_def split: option.split_asm if_split_asm)

lemma mongo_instances_spec:
  "mongo_instances url_host i cs = Inr insts \<Longrightarrow>
     map URI insts = map (\<lambda>c. trim_space (micURI c)) cs \<and>
     list_all (\<lambda>x. URI x \<noteq> [] \<and> InstanceLabelFromURI url_host (URI x) = Inr (instLabel x)) insts"
  by (induction cs arbitrary: i insts) (auto simp: Let_def split: if_split_asm sum.split_asm)

definition file_workload :: "fileConfig option \<Rightarrow> string option" where
  "file_workload cfg = (case cfg of None \<Rightarrow> None | Some c \<Rightarrow> acWorkload (Agent c))"

lemma resolveWorkload_spec:
  assumes "resolveWorkload henv cfg flag flagSet = Inr w"
  shows "w \<noteq> [] \<and> (\<exists>raw. w = trim_space raw \<and>
    (file_workload cfg = Some raw \<or> file_workload cfg = None \<and>
       (if flagSet \<or> trim_space flag \<noteq> [] then raw = flag else Hostname henv = Some raw)))"
  using assms by (auto simp: resolveWorkload_def file_workload_def Let_def split: option.split_asm if_split_asm)

lemma resolve_mongo_spec:
  assumes "resolve_mongo url_host m = Inr (on, insts)"
  shows "on = (mcEnabled m \<noteq> Some False \<and> mcInstances m \<noteq> [])"
    and "map URI insts = (if on then map (\<lambda>c. trim_space (micURI c)) (mcInstances m) else [])"
    and "list_all (\<lambda>x. URI x \<noteq> [] \<and> InstanceLabelFromURI url_host (URI x) = Inr (instLabel x)) insts"
  using assms mongo_instances_spec [of url_host 0 "mcInstances m" insts]
  by (auto simp: resolve_mongo_def split: if_split_asm sum.split_asm)

text \<open>
  C27 (safety). A configuration that is accepted is sound: the workload is not blank and comes from
  the file, else from the flag, else from the host name; MongoDB is on exactly when the file lists
  instances and does not switch it off, with every listed URI, none of them blank, and a label for
  each; nginx is off only when switched off, and an endpoint that is not blank is a valid one.
\<close>

theorem runtime_config_sound:
  assumes "resolveRuntimeConfig henv url_parse url_string host_of cfg flag flagSet = Inr rc"
  shows "Workload rc \<noteq> [] \<and>
    (\<exists>raw. Workload rc = trim_space raw \<and>
      (file_workload cfg = Some raw \<or> file_workload cfg = None \<and>
         (if flagSet \<or> trim_space flag \<noteq> [] then raw = flag else Hostname henv = Some raw))) \<and>
    MongoEnabled rc = (\<exists>c. cfg = Some c \<and> mcEnabled (icMongo (Integrations c)) \<noteq> Some False \<and>
      mcInstances (icMongo (Integrations c)) \<noteq> []) \<and>
    map URI (MongoInstances rc) =
      (if MongoEnabled rc then map (\<lambda>c. trim_space (micURI c)) (mcInstances (icMongo (Integrations (the cfg)))) else []) \<and>
    list_all (\<lambda>x. URI x \<noteq> [] \<and> instLabel x \<noteq> []) (MongoInstances rc) \<and>
    NginxEnabled rc = (\<nexists>c. cfg = Some c \<and> ncEnabled (icNginx (Integrations c)) = Some False) \<and>
    (trim_space (NginxEndpoint rc) = [] \<or> ValidateEndpoint url_parse host_of (NginxEndpoint rc))"
proof -
  obtain w where w: "resolveWorkload henv cfg flag flagSet = Inr w" and ww: "Workload rc = w"
    using assms by (auto simp: resolveRuntimeConfig_def split: sum.split_asm option.split_asm)
  show ?thesis
  proof (cases cfg)
    case None
    then have rc: "rc = \<lparr>Workload = w, MongoEnabled = False, MongoInstances = [], NginxEnabled = True, NginxEndpoint = []\<rparr>"
      using assms w by (simp add: resolveRuntimeConfig_def)
    show ?thesis using resolveWorkload_spec [OF w] by (simp add: rc None)
  next
    case (Some c)
    let ?m = "icMongo (Integrations c)" and ?n = "icNginx (Integrations c)"
    obtain on insts where m: "resolve_mongo (map_option host_of \<circ> url_parse) ?m = Inr (on, insts)"
      using assms by (auto simp: resolveRuntimeConfig_def Some split: sum.split_asm)
    obtain non ep where n: "resolve_nginx url_parse url_string host_of ?n = Inr (non, ep)"
      using assms by (auto simp: resolveRuntimeConfig_def Some m split: sum.split_asm)
    have rc: "rc = \<lparr>Workload = w, MongoEnabled = on, MongoInstances = insts, NginxEnabled = non, NginxEndpoint = ep\<rparr>"
      using assms w by (auto simp: resolveRuntimeConfig_def Some m n)
    have "list_all (\<lambda>x. URI x \<noteq> [] \<and> instLabel x \<noteq> []) insts"
      using resolve_mongo_spec(3) [OF m] instance_label_not_Nil by (fastforce simp: list_all_iff)
    moreover have "non = (ncEnabled ?n \<noteq> Some False)" "trim_space ep = [] \<or> ValidateEndpoint url_parse host_of ep"
      using n by (auto simp: resolve_nginx_def Let_def trim_space_Nil split: if_split_asm)
    ultimately show ?thesis
      using resolveWorkload_spec [OF w] resolve_mongo_spec(1,2) [OF m] by (simp add: rc Some)
  qed
qed

definition site_config :: fileConfig where
  "site_config =
     \<lparr>EnvFiles = [], Agent = \<lparr>acWorkload = None\<rparr>,
      Integrations = \<lparr>icMongo = \<lparr>mcEnabled = None, mcInstances = [\<lparr>micURI = '' mongodb://db:27017 ''\<rparr>]\<rparr>,
        icNginx = \<lparr>ncEnabled = Some False, ncEndpoint = ''x''\<rparr>\<rparr>\<rparr>"

definition site_runtime :: runtimeConfig where
  "site_runtime =
     \<lparr>Workload = ''db1'', MongoEnabled = True, MongoInstances = [\<lparr>URI = ''mongodb://db:27017'', instLabel = ''db''\<rparr>],
      NginxEnabled = False, NginxEndpoint = []\<rparr>"

definition site_url :: "string \<Rightarrow> url option" where
  "site_url u = Some \<lparr>uPath = [], uOther = ''db:27017''\<rparr>"

theorem runtime_config_sound_witness:
  "resolveRuntimeConfig secret_env site_url uOther uOther (Some site_config) '' '' False = Inr site_runtime \<and>
   Workload site_runtime \<noteq> [] \<and> MongoEnabled site_runtime \<and> \<not> NginxEnabled site_runtime \<and>
   map URI (MongoInstances site_runtime) = [trim_space '' mongodb://db:27017 ''] \<and>
   (\<exists>raw. Workload site_runtime = trim_space raw \<and> Hostname secret_env = Some raw)"
proof -
  have r: "resolveRuntimeConfig secret_env site_url uOther uOther (Some site_config) '' '' False = Inr site_runtime"
    by code_simp
  have "trim_space '' '' = []" by code_simp
  with r runtime_config_sound [OF r] show ?thesis
    by (simp add: site_config_def site_runtime_def file_workload_def)
qed

end
