(* ===== verification/DefaultClient.thy ===== *)
theory DefaultClient
  imports ClientRuns
begin

section \<open>Close and the default client (client.go)\<close>

text \<open>
  The clients of a process: each with its \<open>sync.Once\<close> for \<open>Close\<close>, the package-level default client,
  and the lock under which \<open>Init\<close> replaces it. \<open>Init\<close> holds the lock while it closes the previous
  client, which waits for that client's worker. A step is one atomic action of a goroutine; a step
  that has to wait changes nothing.
\<close>

subsection \<open>State\<close>

text \<open>The once of a client: not used, running for a caller of \<open>Close\<close> or for \<open>Init\<close>, or done.\<close>

datatype once = Fresh | BusyUser | BusyInit | Finished

record 'w handle =
  hdClient :: "'w client"
  hdOnce :: once

text \<open>
  \<open>pkInit\<close> is the \<open>Init\<close> that holds the lock: its new client. \<open>pkWaiting\<close> are those that wait for it.
  \<open>pkReplaced\<close> and \<open>pkResults\<close> record what the code does not: the default clients that were replaced,
  and what the calls of \<open>Close\<close> returned (whether the context ended first).
\<close>

record 'w package =
  pkHandles :: "'w handle list"
  pkDefault :: "nat option"
  pkInit :: "nat option"
  pkWaiting :: "nat list"
  pkReplaced :: "nat list"
  pkResults :: "(nat \<times> bool) list"

definition start_package :: "'w package" where
  "start_package = \<lparr>pkHandles = [], pkDefault = None, pkInit = None, pkWaiting = [], pkReplaced = [], pkResults = []\<rparr>"

definition put_client :: "nat \<Rightarrow> 'w client \<Rightarrow> 'w package \<Rightarrow> 'w package" where
  "put_client j c p = p\<lparr>pkHandles := (pkHandles p)[j := (pkHandles p ! j)\<lparr>hdClient := c\<rparr>]\<rparr>"

definition put_once :: "nat \<Rightarrow> once \<Rightarrow> 'w package \<Rightarrow> 'w package" where
  "put_once j st p = p\<lparr>pkHandles := (pkHandles p)[j := (pkHandles p ! j)\<lparr>hdOnce := st\<rparr>]\<rparr>"

definition client_of :: "nat \<Rightarrow> 'w package \<Rightarrow> 'w client" where
  "client_of j p = hdClient (pkHandles p ! j)"

definition once_of :: "nat \<Rightarrow> 'w package \<Rightarrow> once" where
  "once_of j p = hdOnce (pkHandles p ! j)"

definition Dropped :: "'w client \<Rightarrow> u64" where
  "Dropped c = clDropped c"

subsection \<open>Close\<close>

text \<open>The body of the once: cancel the worker, then wait.\<close>

definition begin_close :: "nat \<Rightarrow> once \<Rightarrow> 'w package \<Rightarrow> 'w package" where
  "begin_close j st p = put_once j st (put_client j ((client_of j p)\<lparr>clCancelled := True\<rparr>) p)"

text \<open>A call of \<open>Close\<close>: it runs the once, or returns at once when the once is done, or waits.\<close>

definition close_call :: "nat \<Rightarrow> 'w package \<Rightarrow> 'w package" where
  "close_call j p =
     (case once_of j p of
        Fresh \<Rightarrow> begin_close j BusyUser p
      | Finished \<Rightarrow> p\<lparr>pkResults := pkResults p @ [(j, False)]\<rparr>
      | _ \<Rightarrow> p)"

text \<open>The end of the once of a caller: the worker is done, or the context ended first.\<close>

definition close_end :: "nat \<Rightarrow> bool \<Rightarrow> 'w package \<Rightarrow> 'w package" where
  "close_end j expired p =
     (if once_of j p \<noteq> BusyUser then p
      else if expired then (put_once j Finished p)\<lparr>pkResults := pkResults p @ [(j, True)]\<rparr>
      else if clPhase (client_of j p) = Exited then (put_once j Finished p)\<lparr>pkResults := pkResults p @ [(j, False)]\<rparr>
      else p)"

subsection \<open>Init\<close>

definition init_start :: "go_error + 'w client \<times> clientTransport \<Rightarrow> 'w package \<Rightarrow> 'w package" where
  "init_start made p =
     (case made of
        Inl err \<Rightarrow> p
      | Inr (c, t) \<Rightarrow>
          p\<lparr>pkHandles := pkHandles p @ [\<lparr>hdClient = c, hdOnce = Fresh\<rparr>],
            pkWaiting := pkWaiting p @ [length (pkHandles p)]\<rparr>)"

text \<open>The new default client; the previous one, if there is one, is replaced.\<close>

definition set_default :: "nat \<Rightarrow> 'w package \<Rightarrow> 'w package" where
  "set_default n p =
     p\<lparr>pkReplaced := pkReplaced p @ (case pkDefault p of None \<Rightarrow> [] | Some old \<Rightarrow> [old]),
       pkDefault := Some n, pkInit := None\<rparr>"

text \<open>An \<open>Init\<close> gets the lock: it starts to close the previous client.\<close>

definition init_lock :: "'w package \<Rightarrow> 'w package" where
  "init_lock p =
     (if pkInit p \<noteq> None then p
      else case pkWaiting p of
        [] \<Rightarrow> p
      | n # rest \<Rightarrow>
          (let p = p\<lparr>pkWaiting := rest\<rparr> in
           case pkDefault p of
             None \<Rightarrow> set_default n p
           | Some old \<Rightarrow>
               (let p = p\<lparr>pkInit := Some n\<rparr> in
                if once_of old p = Fresh then begin_close old BusyInit p else p)))"

text \<open>Its \<open>Close\<close> returns, without a deadline, and it replaces the default client.\<close>

definition init_finish :: "'w package \<Rightarrow> 'w package" where
  "init_finish p =
     (case (pkInit p, pkDefault p) of
        (Some n, Some old) \<Rightarrow>
          (if once_of old p = BusyInit \<and> clPhase (client_of old p) = Exited
             then set_default n (put_once old Finished p)
           else if once_of old p = Finished then set_default n p
           else p)
      | _ \<Rightarrow> p)"

subsection \<open>Calls\<close>

text \<open>
  A package-level \<open>Count\<close>, \<open>CountUnique\<close>, \<open>Total\<close>, \<open>Value\<close> or \<open>ValueSparse\<close>: \<open>Default\<close> needs the lock.
\<close>

definition Default :: "'w package \<Rightarrow> nat option option" where
  "Default p = (if pkInit p \<noteq> None then None else Some (pkDefault p))"

definition package_call :: "(nat \<Rightarrow> 'w client_env) \<Rightarrow> event \<Rightarrow> call \<Rightarrow> 'w package \<Rightarrow> 'w package" where
  "package_call env pooled k p =
     (case Default p of
        Some (Some j) \<Rightarrow> put_client j (client_call (env j) pooled k (client_of j p)) p
      | _ \<Rightarrow> p)"

datatype package_step =
    InitStart string config int
  | InitLock
  | InitFinish
  | PackageCall call event
  | CloseCall nat
  | CloseEnd nat bool
  | ClientStep nat action

definition package_step ::
  "(string \<Rightarrow> url option) \<Rightarrow> (url \<Rightarrow> string) \<Rightarrow> (nat \<Rightarrow> 'w client_env) \<Rightarrow> 'w \<Rightarrow> 'w package \<Rightarrow> package_step \<Rightarrow> 'w package" where
  "package_step url_parse url_string env w p s =
     (case s of
        InitStart workload cfg now \<Rightarrow> init_start (NewClient url_parse url_string workload cfg now w) p
      | InitLock \<Rightarrow> init_lock p
      | InitFinish \<Rightarrow> init_finish p
      | PackageCall k pooled \<Rightarrow> package_call env pooled k p
      | CloseCall j \<Rightarrow> (if j < length (pkHandles p) then close_call j p else p)
      | CloseEnd j expired \<Rightarrow> (if j < length (pkHandles p) then close_end j expired p else p)
      | ClientStep j a \<Rightarrow>
          (if j < length (pkHandles p) \<and> a \<noteq> Cancel
           then put_client j (client_step (env j) (client_of j p) a) p else p))"

subsection \<open>What Close and Init promise\<close>

text \<open>
  A once that is done means that the worker has exited, or that a \<open>Close\<close> reported that its context
  ended first; a \<open>Close\<close> that returned, and a client that \<open>Init\<close> replaced, have their once done.
\<close>

definition package_ok :: "'w package \<Rightarrow> bool" where
  "package_ok p \<longleftrightarrow>
     (\<forall>j < length (pkHandles p). once_of j p = Finished \<longrightarrow>
        clPhase (client_of j p) = Exited \<or> (j, True) \<in> set (pkResults p)) \<and>
     (\<forall>j \<in> set (pkReplaced p) \<union> fst ` set (pkResults p). j < length (pkHandles p) \<and> once_of j p = Finished) \<and>
     (\<forall>j. pkDefault p = Some j \<or> pkInit p = Some j \<or> j \<in> set (pkWaiting p) \<longrightarrow> j < length (pkHandles p))"

lemma handle_simps [simp]:
  "length (pkHandles (put_client j c p)) = length (pkHandles p)"
  "length (pkHandles (put_once j st p)) = length (pkHandles p)"
  "j < length (pkHandles p) \<Longrightarrow> client_of k (put_client j c p) = (if k = j then c else client_of k p)"
  "j < length (pkHandles p) \<Longrightarrow> once_of k (put_client j c p) = once_of k p"
  "j < length (pkHandles p) \<Longrightarrow> client_of k (put_once j st p) = client_of k p"
  "j < length (pkHandles p) \<Longrightarrow> once_of k (put_once j st p) = (if k = j then st else once_of k p)"
  "pkResults (put_client j c p) = pkResults p" "pkResults (put_once j st p) = pkResults p"
  "pkReplaced (put_client j c p) = pkReplaced p" "pkReplaced (put_once j st p) = pkReplaced p"
  "pkDefault (put_client j c p) = pkDefault p" "pkDefault (put_once j st p) = pkDefault p"
  "pkInit (put_client j c p) = pkInit p" "pkInit (put_once j st p) = pkInit p"
  "pkWaiting (put_client j c p) = pkWaiting p" "pkWaiting (put_once j st p) = pkWaiting p"
  by (auto simp: put_client_def put_once_def client_of_def once_of_def nth_list_update)

lemma handle_field_simps [simp]:
  "client_of k (p\<lparr>pkResults := r\<rparr>) = client_of k p" "once_of k (p\<lparr>pkResults := r\<rparr>) = once_of k p"
  "client_of k (p\<lparr>pkInit := i\<rparr>) = client_of k p" "once_of k (p\<lparr>pkInit := i\<rparr>) = once_of k p"
  "client_of k (p\<lparr>pkWaiting := ws\<rparr>) = client_of k p" "once_of k (p\<lparr>pkWaiting := ws\<rparr>) = once_of k p"
  "client_of k (set_default n p) = client_of k p" "once_of k (set_default n p) = once_of k p"
  by (simp_all add: client_of_def once_of_def set_default_def)

lemma client_step_stays_exited: "clPhase c = Exited \<Longrightarrow> clPhase (client_step env c a) = Exited"
proof (cases a)
  case (DoCall k pooled)
  assume "clPhase c = Exited"
  then show ?thesis using client_call_frame [of env c pooled k] DoCall by (auto simp: client_step_def call_frame_def)
qed (auto simp: client_step_def push_event_def split: list.split)

lemma put_client_ok:
  assumes "package_ok p" and "j < length (pkHandles p)"
    and "clPhase (client_of j p) = Exited \<Longrightarrow> clPhase c = Exited"
  shows "package_ok (put_client j c p)"
  using assms by (auto simp: package_ok_def)

lemma put_once_ok:
  assumes "package_ok p" and "j < length (pkHandles p)" and "once_of j p \<noteq> Finished" and "st \<noteq> Finished"
  shows "package_ok (put_once j st p)"
  using assms by (auto simp: package_ok_def)

lemma begin_close_ok:
  "package_ok p \<Longrightarrow> j < length (pkHandles p) \<Longrightarrow> once_of j p = Fresh \<Longrightarrow> st \<noteq> Finished \<Longrightarrow> package_ok (begin_close j st p)"
  unfolding begin_close_def by (intro put_once_ok put_client_ok) auto

lemma finish_once_ok:
  assumes "package_ok p" and "j < length (pkHandles p)" and "expired \<or> clPhase (client_of j p) = Exited"
  shows "package_ok ((put_once j Finished p)\<lparr>pkResults := pkResults p @ [(j, expired)]\<rparr>)"
  using assms by (auto simp: package_ok_def)

lemma set_default_ok:
  assumes "package_ok p" and "n < length (pkHandles p)"
    and "\<And>old. pkDefault p = Some old \<Longrightarrow> once_of old p = Finished"
  shows "package_ok (set_default n p)"
proof -
  have len: "length (pkHandles (set_default n p)) = length (pkHandles p)" by (simp add: set_default_def)
  show ?thesis
    using assms unfolding package_ok_def len handle_field_simps
    by (auto simp: set_default_def split: option.split_asm)
qed

lemma init_start_ok:
  assumes "package_ok p"
  shows "package_ok (init_start made p)"
proof (cases made)
  case (Inr ct)
  then show ?thesis
    using assms unfolding package_ok_def
    by (cases ct) (auto simp: init_start_def client_of_def once_of_def nth_append less_Suc_eq)
qed (use assms in \<open>simp add: init_start_def\<close>)

lemma init_lock_ok:
  assumes ok: "package_ok p"
  shows "package_ok (init_lock p)"
proof (cases "pkInit p = None \<and> pkWaiting p \<noteq> []")
  case True
  then obtain n rest where w: "pkInit p = None" "pkWaiting p = n # rest" by (cases "pkWaiting p") auto
  have n: "n < length (pkHandles p)" using ok w by (simp add: package_ok_def)
  have ok1: "package_ok (p\<lparr>pkWaiting := rest\<rparr>)" using ok w by (auto simp: package_ok_def)
  show ?thesis
  proof (cases "pkDefault p")
    case None
    then show ?thesis using w set_default_ok [OF ok1] n by (simp add: init_lock_def)
  next
    case (Some old)
    let ?p = "p\<lparr>pkWaiting := rest, pkInit := Some n\<rparr>"
    have ok2: "package_ok ?p" using ok w n by (auto simp: package_ok_def)
    have "old < length (pkHandles ?p)" using ok Some by (simp add: package_ok_def)
    then show ?thesis using w Some ok2 begin_close_ok [OF ok2, of old BusyInit] by (simp add: init_lock_def Let_def)
  qed
qed (use ok in \<open>auto simp: init_lock_def split: list.split\<close>)

lemma init_finish_ok:
  assumes ok: "package_ok p"
  shows "package_ok (init_finish p)"
proof (cases "pkInit p")
  case (Some n)
  note pn = Some
  show ?thesis
  proof (cases "pkDefault p")
    case (Some old)
    have b: "n < length (pkHandles p)" "old < length (pkHandles p)" using ok pn Some by (simp_all add: package_ok_def)
    have ok1: "package_ok (put_once old Finished p)" if "clPhase (client_of old p) = Exited"
      using ok b that by (auto simp: package_ok_def)
    show ?thesis
      using ok ok1 b pn Some set_default_ok [of "put_once old Finished p" n] set_default_ok [OF ok b(1)]
      by (auto simp: init_finish_def)
  qed (use ok pn in \<open>simp add: init_finish_def\<close>)
qed (use ok in \<open>simp add: init_finish_def\<close>)

lemma package_call_ok:
  assumes ok: "package_ok p"
  shows "package_ok (package_call env pooled k p)"
proof (cases "Default p")
  case (Some d)
  show ?thesis
  proof (cases d)
    case (Some j)
    then have j: "j < length (pkHandles p)" using ok \<open>Default p = Some d\<close> by (auto simp: Default_def package_ok_def split: if_split_asm)
    have "package_ok (put_client j (client_step (env j) (client_of j p) (DoCall k pooled)) p)"
      by (rule put_client_ok [OF ok j]) (rule client_step_stays_exited)
    then show ?thesis using Some \<open>Default p = Some d\<close> by (simp add: package_call_def client_step_def)
  qed (use ok \<open>Default p = Some d\<close> in \<open>simp add: package_call_def\<close>)
qed (use ok in \<open>simp add: package_call_def\<close>)

lemma close_call_ok:
  assumes "package_ok p" and "j < length (pkHandles p)"
  shows "package_ok (close_call j p)"
proof (cases "once_of j p")
  case Fresh
  then show ?thesis using begin_close_ok [OF assms Fresh, of BusyUser] by (simp add: close_call_def)
next
  case Finished
  then show ?thesis using assms unfolding package_ok_def by (auto simp: close_call_def)
qed (use assms in \<open>simp_all add: close_call_def\<close>)

lemma close_end_ok:
  assumes "package_ok p" and "j < length (pkHandles p)"
  shows "package_ok (close_end j expired p)"
  using assms(1) finish_once_ok [OF assms, of expired] by (auto simp: close_end_def)

lemma package_step_ok [step_inv]:
  assumes "package_ok p"
  shows "package_ok (package_step url_parse url_string env w p s)"
  using assms put_client_ok [OF assms _ client_step_stays_exited]
  by (cases s) (auto simp: package_step_def init_start_ok init_lock_ok init_finish_ok package_call_ok close_call_ok close_end_ok)

interpretation package_run: inv_steps "package_step url_parse url_string env w" package_ok "\<lambda>s. True"
  for url_parse url_string env w
  by unfold_locales (rule package_step_ok)

lemma package_ok_start [simp]: "package_ok start_package"
  by (simp add: package_ok_def start_package_def)

text \<open>
  C12 (safety). What \<open>Close\<close> and \<open>Init\<close> promise, over every interleaving of any number of callers,
  clients and workers: whenever a \<open>Close\<close> has returned \<open>nil\<close>, or \<open>Init\<close> has replaced a default client,
  the worker of that client has drained its queue and exited - except when a \<open>Close\<close> of it had
  reported before that its context ended first.
\<close>

theorem close_and_init_wait:
  fixes env :: "nat \<Rightarrow> 'w client_env" and w :: 'w
  assumes "p = run_steps (package_step url_parse url_string env w) start_package steps"
    and "(j, False) \<in> set (pkResults p) \<or> j \<in> set (pkReplaced p)" and "(j, True) \<notin> set (pkResults p)"
  shows "j < length (pkHandles p) \<and> clPhase (client_of j p) = Exited"
proof -
  have ok: "package_ok p" unfolding assms(1) by (rule package_run.run_keeps) simp_all
  have "j \<in> set (pkReplaced p) \<union> fst ` set (pkResults p)"
    using assms(2) image_eqI [of j fst "(j, False)"] by auto
  then have "j < length (pkHandles p) \<and> once_of j p = Finished" using ok unfolding package_ok_def by blast
  then show ?thesis using ok assms(3) unfolding package_ok_def by blast
qed

definition given_config :: config where
  "given_config =
     \<lparr>cfgEndpoint = [], cfgAPIKey = [], cfgTransport = Some (CustomTransport 1), cfgLogger = None, cfgVerbose = False\<rparr>"

text \<open>A program that starts with one client, replaces it by a second, and closes that.\<close>

definition two_clients :: "package_step list" where
  "two_clients =
     [InitStart ''a'' given_config 0, InitLock,
      InitStart ''b'' given_config 0, InitLock, PackageCall (Count ''lost'' 0 []) new_event, InitFinish,
      ClientStep 0 BeginDrain, ClientStep 0 EndDrain, InitFinish,
      CloseCall 1, ClientStep 1 BeginDrain, ClientStep 1 EndDrain, CloseEnd 1 False]"

definition demo_run :: "package_step list \<Rightarrow> (go_error option list) package" where
  "demo_run steps = run_steps (package_step (\<lambda>_. None) (\<lambda>_. []) (\<lambda>_. demo_env 0) []) start_package steps"

lemma demo_new:
  "NewClient (\<lambda>_. None) (\<lambda>_. []) ''a'' given_config 0 w = Inr (new_client ''a'' 0 w, GivenTransport (CustomTransport 1))"
  "NewClient (\<lambda>_. None) (\<lambda>_. []) ''b'' given_config 0 w = Inr (new_client ''b'' 0 w, GivenTransport (CustomTransport 1))"
  using workload_plain [of "''a''"] workload_plain [of "''b''"]
  by (simp_all add: NewClient_def given_config_def applyDefaults_def base_defaults_def validateWorkload_def char_between_def
      trim_space_plain plain_char_def workloadMaxLen_def)

lemmas package_defs = package_step_def init_start_def init_lock_def init_finish_def set_default_def begin_close_def
  close_call_def close_end_def package_call_def Default_def put_client_def put_once_def client_of_def once_of_def

lemma two_clients_run:
  "let p = demo_run two_clients in pkReplaced p = [0] \<and> pkResults p = [(1, False)]"
  by (simp add: demo_run_def two_clients_def start_package_def demo_new package_defs client_step_def new_client_def)

theorem close_and_init_wait_witness:
  "clPhase (client_of 0 (demo_run two_clients)) = Exited \<and> clPhase (client_of 1 (demo_run two_clients)) = Exited"
proof -
  have run: "demo_run two_clients = run_steps (package_step (\<lambda>_. None) (\<lambda>_. []) (\<lambda>_. demo_env 0) []) start_package two_clients"
    by (simp add: demo_run_def)
  show ?thesis
    using close_and_init_wait [OF run, of 0] close_and_init_wait [OF run, of 1] two_clients_run by (simp add: Let_def)
qed

text \<open>
  C38 (error). After a \<open>Close\<close> that reported that its context ended, every further \<open>Close\<close> of that client
  reports success at once, in every reachable state and whatever its worker is doing: it waits for nothing
  and changes nothing but the result. (The witness: the worker still runs and holds an event that was not sent.)
\<close>

theorem second_close_reports_success:
  fixes env :: "nat \<Rightarrow> 'w client_env" and w :: 'w
  assumes "p = run_steps (package_step url_parse url_string env w) start_package steps"
    and "(j, True) \<in> set (pkResults p)"
  shows "package_step url_parse url_string env w p (CloseCall j) = p\<lparr>pkResults := pkResults p @ [(j, False)]\<rparr>"
proof -
  have ok: "package_ok p" unfolding assms(1) by (rule package_run.run_keeps) simp_all
  have "j \<in> fst ` set (pkResults p)" using assms(2) image_eqI [of j fst "(j, True)"] by simp
  then have "j < length (pkHandles p) \<and> once_of j p = Finished" using ok unfolding package_ok_def by blast
  then show ?thesis by (simp add: package_step_def close_call_def)
qed

definition timed_out_close :: "package_step list" where
  "timed_out_close =
     [InitStart ''a'' given_config 0, InitLock, PackageCall (Count ''c'' 0 []) new_event,
      ClientStep 0 (DoPush 0), CloseCall 0, CloseEnd 0 True]"

lemma timed_out_close_run:
  "let p = demo_run timed_out_close in
    pkResults p = [(0, True)] \<and> clPhase (client_of 0 p) = Running \<and> length (clQueue (client_of 0 p)) = 1"
  by (simp add: demo_run_def timed_out_close_def start_package_def demo_new package_defs client_step_def client_call_def
      enqueue_def admits_def read_clock_def demo_env_def push_event_def defaultQueueSize_def new_client_def)

theorem second_close_reports_success_witness:
  "let p = demo_run (timed_out_close @ [CloseCall 0]) in
    pkResults p = [(0, True), (0, False)] \<and> clPhase (client_of 0 p) = Running \<and> length (clQueue (client_of 0 p)) = 1"
proof -
  have run: "demo_run timed_out_close = run_steps (package_step (\<lambda>_. None) (\<lambda>_. []) (\<lambda>_. demo_env 0) []) start_package timed_out_close"
    by (simp add: demo_run_def)
  have "(0, True) \<in> set (pkResults (demo_run timed_out_close))" using timed_out_close_run by (simp add: Let_def)
  from second_close_reports_success [OF run this] have
    "demo_run (timed_out_close @ [CloseCall 0]) =
       (demo_run timed_out_close)\<lparr>pkResults := pkResults (demo_run timed_out_close) @ [(0, False)]\<rparr>"
    by (simp add: demo_run_def run_steps_append)
  then show ?thesis using timed_out_close_run by (simp add: Let_def client_of_def)
qed

text \<open>
  While \<open>Init\<close> waits for the worker of the previous client, a package-level call has to wait too: no
  step of it happens, whatever it is. (README and the comments say that calls never block.)
\<close>

lemma package_call_waits:
  "pkInit p \<noteq> None \<Longrightarrow> package_step url_parse url_string env w p (PackageCall k pooled) = p"
  by (auto simp: package_step_def package_call_def Default_def)

end
