(* ===== verification/HostProgram.thy ===== *)
theory HostProgram
  imports HostConfig DefaultClient Agent
begin

section \<open>The start of the host metrics program (cmd/statok-hostmetrics/main.go, agent/catalog)\<close>

text \<open>
  \<open>main\<close> from the flags to the call of \<open>agent.Run\<close>: the endpoint, the configuration, the client and the
  collectors and probes that the agent gets. A \<open>log.Fatalf\<close> is an error value.
\<close>

definition statokIngestHost :: string where "statokIngestHost = ''prostometrics.ru''"

record stringFlag =
  flagValue :: string
  flagSet :: bool

definition Set_flag :: "string \<Rightarrow> stringFlag \<Rightarrow> stringFlag" where
  "Set_flag v f = f\<lparr>flagValue := v, flagSet := True\<rparr>"

definition ErrInvalidAPIKey :: go_error where
  "ErrInvalidAPIKey = PlainErr ''statok: invalid API key''"

definition errors_is :: "go_error \<Rightarrow> go_error \<Rightarrow> bool" where
  "errors_is err target \<longleftrightarrow> target \<in> set (unwrap_chain err)"

definition initClient ::
  "(string \<Rightarrow> url option) \<Rightarrow> (url \<Rightarrow> string) \<Rightarrow> string \<Rightarrow> string \<Rightarrow> string \<Rightarrow> bool \<Rightarrow> int \<Rightarrow> 'w \<Rightarrow>
     go_error + 'w client \<times> clientTransport" where
  "initClient url_parse url_string workload endpoint apiKey verbose now w =
     (if apiKey = [] then Inl (PlainErr ''STATOK_API_KEY is required'')
      else case NewClient url_parse url_string workload
          \<lparr>cfgEndpoint = endpoint, cfgAPIKey = apiKey, cfgTransport = None, cfgLogger = None, cfgVerbose = verbose\<rparr> now w of
        Inr r \<Rightarrow> Inr r
      | Inl err \<Rightarrow>
          Inl (if errors_is err ErrInvalidAPIKey then WrapErr ''invalid STATOK_API_KEY: '' err
               else if errors_is err ErrMissingAPIKey then PlainErr ''STATOK_API_KEY is required''
               else err))"

text \<open>The collectors of every host, by ID and interval, and the probes.\<close>

definition CoreCollectors :: "(string \<times> int) list" where
  "CoreCollectors =
     [(''core.mem'', CoreFastEvery), (''core.net'', CoreFastEvery), (''core.diskio'', CoreFastEvery),
      (''core.cpu_usage'', CoreFastEvery), (''core.uptime'', CoreSlowEvery), (''core.fs'', CoreSlowEvery)]"

datatype integration = DockerProbe | MongoProbe "mongo_instance list" int int | NginxProbe string int

definition IntegrationProbes :: "integration list" where
  "IntegrationProbes = [DockerProbe]"

definition endpoint_host :: "host_env \<Rightarrow> string" where
  "endpoint_host env =
     (let envEndpoint = trim_space (Getenv env ''STATOK_ENDPOINT'') in
      if envEndpoint \<noteq> [] then envEndpoint
      else
        let envHost = trim_space (Getenv env ''STATOK_HOST'') in
        if envHost \<noteq> [] then envHost else statokIngestHost)"

datatype fatal = ConfigLoad config_error | ConfigInvalid config_error | InitFailed go_error

record 'w started =
  stClient :: "'w client"
  stTransport :: clientTransport
  stCore :: "(string \<times> int) list"
  stProbes :: "integration list"

definition run_probes :: "runtimeConfig \<Rightarrow> integration list" where
  "run_probes cfg =
     IntegrationProbes @
     (if MongoEnabled cfg then [MongoProbe (MongoInstances cfg) MongoEvery mongoRetryInterval] else []) @
     (if NginxEnabled cfg then [NginxProbe (NginxEndpoint cfg) NginxEvery] else [])"

definition host_main ::
  "host_env \<Rightarrow> (string \<Rightarrow> fileConfig option) \<Rightarrow> (string \<Rightarrow> url option) \<Rightarrow> (url \<Rightarrow> string) \<Rightarrow> (url \<Rightarrow> string) \<Rightarrow>
     stringFlag \<Rightarrow> string \<Rightarrow> bool \<Rightarrow> int \<Rightarrow> 'w \<Rightarrow> fatal + 'w started" where
  "host_main env yaml url_parse url_string host_of workloadFlag configPath verbose now w =
     (let endpoint = EndpointFromHost url_parse url_string (endpoint_host env);
          apiKey = Getenv env ''STATOK_API_KEY'';
          (source, paths) = resolveConfigSource env configPath in
      case loadFileConfig env yaml source of
        Inl e \<Rightarrow> Inl (ConfigLoad e)
      | Inr fileCfg \<Rightarrow>
          (case resolveRuntimeConfig env url_parse url_string host_of fileCfg (flagValue workloadFlag) (flagSet workloadFlag) of
             Inl e \<Rightarrow> Inl (ConfigInvalid e)
           | Inr cfg \<Rightarrow>
               (case initClient url_parse url_string (Workload cfg) endpoint apiKey verbose now w of
                  Inl e \<Rightarrow> Inl (InitFailed e)
                | Inr (c, t) \<Rightarrow>
                    Inr \<lparr>stClient = c, stTransport = t, stCore = CoreCollectors, stProbes = run_probes cfg\<rparr>)))"

text \<open>
  The log line of the search paths, and what \<open>main\<close> does when \<open>agent.Run\<close> has returned: \<open>Close\<close> of the
  default client (its end is a later step, \<open>close_end\<close>; while an \<open>Init\<close> holds the lock, \<open>Default\<close> waits).
\<close>

definition logConfigPaths :: "string list \<Rightarrow> string" where
  "logConfigPaths paths =
     (if paths = [] then ''statok: config search paths: (none)''
      else ''statok: config search paths: '' @ join_with '', '' paths)"

definition flushAndClose :: "'w package \<Rightarrow> 'w package" where
  "flushAndClose p = (case Default p of Some (Some j) \<Rightarrow> close_call j p | _ \<Rightarrow> p)"

lemma flushAndClose_cancels:
  assumes "package_ok p" and "pkInit p = None" and "pkDefault p = Some j" and "once_of j p = Fresh"
  shows "clCancelled (client_of j (flushAndClose p))"
  using assms by (auto simp: flushAndClose_def Default_def close_call_def begin_close_def package_ok_def)

lemma NewClient_accepted:
  assumes "NewClient url_parse url_string wl cfg now w = Inr (c, t)" and "cfgTransport cfg = None"
  shows "c = new_client (trim_space wl) now w" and "validateWorkload (trim_space wl) = None"
    and "\<exists>ht. t = WorkloadHttp \<lparr>wtBase = Some ht, wtWorkload = trim_space wl\<rparr> \<and>
           htAPIKey ht = cfgAPIKey cfg \<and> htAPIKey ht \<noteq> [] \<and> htEndpoint ht \<noteq> []"
proof -
  have v: "validateWorkload (trim_space wl) = None" using assms(1) by (auto simp: NewClient_def Let_def split: option.split_asm)
  obtain cfg' err where a: "applyDefaults url_parse url_string cfg = (cfg', err)" by fastforce
  have n: "err = None" using assms(1) v a by (auto simp: NewClient_def Let_def split: option.split_asm)
  obtain tr where t: "cfgTransport cfg' = Some tr" using assms(1) v a n by (auto simp: NewClient_def Let_def split: option.split_asm)
  have base: "cfgTransport cfg' = Some (CustomTransport k) \<Longrightarrow> False" for k
    using a n assms(2) base_defaults_transport(2) [OF assms(2), of url_parse url_string]
    by (auto simp: applyDefaults_def Let_def http_defaults_def split: option.split_asm transport.split_asm if_split_asm)
  obtain ht where ht: "tr = HttpTransport ht" using base t by (cases tr) auto
  have "applyDefaults url_parse url_string cfg = (cfg', None)" using a n by simp
  from applyDefaults_http [OF this, of ht] t ht assms(2)
  have h: "htAPIKey ht \<noteq> [] \<and> htAPIKey ht = cfgAPIKey cfg \<and> htEndpoint ht \<noteq> []" by auto
  have r: "Inr (c, t) = Inr (new_client (trim_space wl) now w, WorkloadHttp \<lparr>wtBase = Some ht, wtWorkload = trim_space wl\<rparr>)"
    using assms(1) v a n t ht by (simp add: NewClient_def Let_def)
  show "c = new_client (trim_space wl) now w" using r by simp
  show "validateWorkload (trim_space wl) = None" by (rule v)
  show "\<exists>ht. t = WorkloadHttp \<lparr>wtBase = Some ht, wtWorkload = trim_space wl\<rparr> \<and>
           htAPIKey ht = cfgAPIKey cfg \<and> htAPIKey ht \<noteq> [] \<and> htEndpoint ht \<noteq> []"
    using r h by (intro exI [of _ ht]) auto
qed

text \<open>
  C28 (safety). When the program gets to collecting, it has a running client with a workload that
  \<open>validateWorkload\<close> accepts, whose HTTP transport carries the key of the environment (not blank) and an
  endpoint; the six core collectors (memory, network, disk, CPU every ten seconds, uptime and file systems every
  minute) and the Docker probe are always there, and a MongoDB or nginx probe exactly as the
  configuration says, with its instances or endpoint.
\<close>

theorem host_main_starts:
  assumes "host_main env yaml url_parse url_string host_of fl configPath verbose now w = Inr st"
  shows "\<exists>cfg ht.
    clPhase (stClient st) = Running \<and> clWorkload (stClient st) = trim_space (Workload cfg) \<and>
    validateWorkload (clWorkload (stClient st)) = None \<and>
    stTransport st = WorkloadHttp \<lparr>wtBase = Some ht, wtWorkload = clWorkload (stClient st)\<rparr> \<and>
    htAPIKey ht = Getenv env ''STATOK_API_KEY'' \<and> htAPIKey ht \<noteq> [] \<and> htEndpoint ht \<noteq> [] \<and>
    stCore st =
      [(''core.mem'', 10 * second), (''core.net'', 10 * second), (''core.diskio'', 10 * second),
       (''core.cpu_usage'', 10 * second), (''core.uptime'', 60 * second), (''core.fs'', 60 * second)] \<and>
    stProbes st = DockerProbe #
      (if MongoEnabled cfg then [MongoProbe (MongoInstances cfg) (10 * second) (60 * second)] else []) @
      (if NginxEnabled cfg then [NginxProbe (NginxEndpoint cfg) (10 * second)] else []) \<and>
    resolveRuntimeConfig env url_parse url_string host_of
      (case loadFileConfig env yaml (fst (resolveConfigSource env configPath)) of Inr f \<Rightarrow> f | Inl _ \<Rightarrow> None)
      (flagValue fl) (flagSet fl) = Inr cfg"
proof -
  obtain fileCfg where f: "loadFileConfig env yaml (fst (resolveConfigSource env configPath)) = Inr fileCfg"
    using assms by (auto simp: host_main_def Let_def split: prod.split_asm sum.split_asm)
  obtain cfg where c: "resolveRuntimeConfig env url_parse url_string host_of fileCfg (flagValue fl) (flagSet fl) = Inr cfg"
    using assms f by (auto simp: host_main_def Let_def split: prod.split_asm sum.split_asm)
  let ?ep = "EndpointFromHost url_parse url_string (endpoint_host env)" and ?key = "Getenv env ''STATOK_API_KEY''"
  let ?cc = "\<lparr>cfgEndpoint = ?ep, cfgAPIKey = ?key, cfgTransport = None, cfgLogger = None, cfgVerbose = verbose\<rparr>"
  obtain cl t where i: "initClient url_parse url_string (Workload cfg) ?ep ?key verbose now w = Inr (cl, t)"
    and st: "st = \<lparr>stClient = cl, stTransport = t, stCore = CoreCollectors, stProbes = run_probes cfg\<rparr>"
    using assms f c by (auto simp: host_main_def Let_def split: prod.split_asm sum.split_asm)
  have "NewClient url_parse url_string (Workload cfg) ?cc now w = Inr (cl, t)"
    using i by (auto simp: initClient_def split: if_split_asm sum.split_asm)
  note n = NewClient_accepted [OF this]
  from n(3) obtain ht where "t = WorkloadHttp \<lparr>wtBase = Some ht, wtWorkload = trim_space (Workload cfg)\<rparr>"
    "htAPIKey ht = ?key" "htAPIKey ht \<noteq> []" "htEndpoint ht \<noteq> []" by auto
  then show ?thesis
    using n(1,2) c by (intro exI [of _ cfg] exI [of _ ht]) 
      (simp add: st f new_client_def CoreCollectors_def run_probes_def IntegrationProbes_def CoreFastEvery_def
        CoreSlowEvery_def MongoEvery_def NginxEvery_def mongoRetryInterval_def)
qed

definition demo_host :: host_env where
  "demo_host =
     \<lparr>Getenv = (\<lambda>k. if k = ''STATOK_API_KEY'' then ''k'' else []), Geteuid = 0, Hostname = Some ''db1'',
      FileExists = (\<lambda>_. False), ReadFile = (\<lambda>_. NotExist)\<rparr>"

definition demo_started :: "unit started" where
  "demo_started =
     \<lparr>stClient = new_client ''db1'' 0 (),
      stTransport = WorkloadHttp \<lparr>wtBase = Some (new_http_transport ''https://prostometrics.ru/api/i/batch'' ''k'' (Some DefaultLogger)),
        wtWorkload = ''db1''\<rparr>,
      stCore = CoreCollectors, stProbes = [DockerProbe, NginxProbe [] NginxEvery]\<rparr>"

definition demo_url :: "string \<Rightarrow> url option" where
  "demo_url s = Some \<lparr>uPath = [], uOther = s\<rparr>"

definition demo_url_string :: "url \<Rightarrow> string" where
  "demo_url_string u = uOther u @ (if uOther u = ''https://prostometrics.ru'' then uPath u else [])"

theorem host_main_starts_witness:
  "host_main demo_host (\<lambda>_. None) demo_url demo_url_string uOther \<lparr>flagValue = [], flagSet = False\<rparr> [] False 0 () = Inr demo_started \<and>
   clPhase (stClient demo_started) = Running \<and> validateWorkload ''db1'' = None \<and> stCore demo_started = CoreCollectors"
proof -
  have r: "host_main demo_host (\<lambda>_. None) demo_url demo_url_string uOther \<lparr>flagValue = [], flagSet = False\<rparr> [] False 0 () = Inr demo_started"
    by code_simp
  from r host_main_starts [OF r] show ?thesis by (auto simp: demo_started_def new_client_def)
qed

end
