(* ===== verification/Spec2Isabelle.thy ===== *)
theory Spec2Isabelle
  imports Delivery Accounting LoadGen Summaries DockerRequests Nginx HostCollectors HostProgram
begin

text \<open>
  \<^bold>\<open>A verification development of statokgo.\<close>

  statokgo is a Go client library that aggregates metric events in the process and ships them in
  batches to an ingest server, and an agent (\<open>statok-hostmetrics\<close>) that collects the metrics of a host
  with it. Callers put events into a bounded channel (client.go, event.go); one worker turns batches of
  them into payloads (batch_builder.go), encodes these with a dictionary of series
  (line_protocol_v4.go) and sends them over HTTP (transport.go), with retries and backoff. The agent
  (cmd/statok-hostmetrics, internal/) reads its configuration, probes for integrations, and runs its
  collectors on tickers; they call the package-level functions of the library.

  \<^bold>\<open>Theories and sources.\<close>

  Foundations:
  \<^item> \<open>Prelude\<close>: runs of a step function and the interface \<open>inv_steps\<close> (a step keeps an invariant, so a run
    does), Go maps as association lists.
  \<^item> \<open>GoStrings\<close>, \<open>GoFields\<close>: byte strings and the functions of \<open>strings\<close> and \<open>strconv\<close>; printed columns
    and reading them back.
  \<^item> \<open>Float64\<close>, \<open>FloatFormat\<close>, \<open>FloatOps\<close>: float64 as sign, mantissa, exponent with correct rounding;
    shortest decimal printing; exact products and quotients of integers.

  The library:
  \<^item> \<open>ValueLimiter\<close> (value_rate_limiter.go): the packed word and the compare-and-swap loop as a step
    relation over any number of goroutines.
  \<^item> \<open>SeriesKeys\<close>, \<open>Batch\<close> (labels.go, event.go, batch_builder.go): labels, pooled events, series keys with
    their interface \<open>series_index\<close>, the aggregation table with collision chains, for every hash function.
  \<^item> \<open>LineProtocol\<close> (line_protocol_v4.go): the encoder and its dictionary; a reader of the grammar is the
    specification.
  \<^item> \<open>UniqueId\<close> (unique_id.go), \<open>GoErrors\<close> (the errors of transport.go and \<open>shouldRetryTransport\<close>),
    \<open>Config\<close> (config.go).
  \<^item> \<open>Transport\<close> (transport.go): \<open>send\<close>, \<open>sendBody\<close>, the resynchronisation after an unknown dictionary,
    and the diagnostics of a failed body.
  \<^item> \<open>Client\<close>, \<open>ClientRuns\<close> (client.go): callers, worker and the end of the context as atomic steps
    (\<open>client_step\<close>) in any interleaving; \<open>DefaultClient\<close>: \<open>Close\<close> with its once, \<open>Init\<close> and the
    package-level functions.
  \<^item> \<open>Delivery\<close>, \<open>Accounting\<close>: the library as a whole. The first composes callers, worker, encoder and
    transport with an ingest server that drops duplicates and a network that loses requests and answers;
    the second follows the increments of one counter from the calls to the acknowledged payloads.
  \<^item> \<open>Summaries\<close> (the log texts of client.go and transport.go).

  The agent:
  \<^item> \<open>Agent\<close> (internal/agent): probing, the collection goroutines with semaphore and tickers, the limiter
    of log lines.
  \<^item> \<open>HostCollectors\<close> (internal/collectors/core), \<open>Docker\<close>, \<open>DockerRequests\<close>, \<open>Nginx\<close>,
    \<open>Mongo\<close> (internal/collectors): what a
    collection calls, and the state it keeps.
  \<^item> \<open>HostConfig\<close> (config.go of the command, internal/integrations), \<open>HostProgram\<close> (main.go, the catalog).
  \<^item> \<open>LoadGen\<close> (cmd/statok-loadgen): the tool that emits synthetic metrics, its loops tick by tick.

  \<^bold>\<open>What the lemmas show.\<close>

  \<^item> End to end: against a server that drops duplicates, over a network that loses requests and answers,
    every batch is applied at most once and with its own events, and what was reported as sent is applied
    (C1); with a transport that accepts, a closed client has delivered the exact sum of every counter (C2);
    whatever the network does, ingester, sent payloads, waiting batches and queued events never hold
    more of a counter together than was counted (C3). The clock is any function of the readings that
    never gives the same nanosecond twice: a reading names the dictionary session, and two sessions of
    one name would be taken for one.
  \<^item> Transport and encoding: against a server that follows the grammar and may lose its dictionary
    between sends, the events of the payloads reach its log exactly once and in order (C4); bodies read
    back (C6); a reader that lost definitions notices (C15); the dictionary stays bounded (C16); what is
    requested and what a response means (C17, C18), and the state of the client after any answer of a
    transport (C19, with the fates of \<open>GoErrors\<close> as the specification).
  \<^item> Aggregation: the hash table refines a plain search (C7), what a batch holds (C13), and that
    integer deltas add up exactly (C14).
  \<^item> The client over every interleaving: bounded memory (C8), at most eight sends of a batch (C9),
    termination of the shutdown (C10), recovery after an outage (C11), what \<open>Close\<close> and \<open>Init\<close> wait for
    (C12), finality of a stop (C20), the type of queued events (C21), totals (C22); the limiter under
    concurrency, for seconds from 1970 to \<open>2 ^ 48\<close>, which is what its packed word can hold (C5; a
    negative second is shown to be admitted without a limit, \<open>negative_second_admitted\<close>).
  \<^item> The agent: bounded concurrency (C23), MongoDB connections and retry schedule (C24, C25),
    also when \<open>Disconnect\<close> fails, configuration and start (C26 to C28), round trips of what the kernel and nginx print (C29, C30), CPU shares
    (C31, C32). The load generator (C35).
  \<^item> Identifiers and configuration of the library (C33, C34).
  \<^item> Behaviour that is a defect or differs from the documentation (C36 to C40): a closing client behind
    its backoff gate loses batches, replicas of a service report restarts for ever, a second \<open>Close\<close>
    reports success, metric names are not escaped, a total that is NaN is counted. Lemmas for smaller
    findings: \<open>auth_header_order\<close>, \<open>escaped_mount_not_decoded\<close>, \<open>mem_used_wraps\<close>,
    \<open>package_call_waits\<close>, \<open>env_file_names_not_expanded\<close>.

  \<^bold>\<open>Bounds and fuel.\<close> Loops over data are structural recursion. The collision chain of a batch is followed with
  as much fuel as there are entries; C7 shows that it is enough, since a chain goes to smaller indices. The
  delay loop and the compare-and-swap loop need no fuel: a closed form and a step relation. Sizes are those of
  the source (queue 65536, batch 512, retry queue 128, totals and dictionary 2048, eight attempts,
  four concurrent collections).

  \<^bold>\<open>Parameters.\<close> The HTTP client with the server behind it, the clock, URL parsing and printing, JSON and YAML
  decoding, the seeded hash, the conversion of floats out of range, user-supplied transports, the
  answers of Docker, MongoDB, nginx and gopsutil, the files under /proc, \<open>statfs\<close>,
  the environment and the file system, and the random source and \<open>math.Sin\<close> of the load generator are
  arguments of the definitions. A request of the MongoDB driver succeeds or fails as the environment
  chooses; its open handles are part of the modelled state. The order in which the concurrent workers of
  a Docker collection make their calls is a schedule, an argument too.

  \<^bold>\<open>Not modelled.\<close> The order of the bytes of log lines beyond the summaries, contexts as such (their ends are
  steps or arguments), slice capacities, the memory model below atomic operations and locks, Unicode case
  mapping outside ASCII, fused multiply-add (float code is that of amd64), settings of HTTP clients and the
  signal handlers of the two programs.
\<close>

end
